(* ===== verification/Go_Prelude.thy ===== *)
theory Go_Prelude
  imports Main "HOL-Library.Word" "HOL-Library.AList" "HOL-Library.Monad_Syntax"
begin

text \<open>
  Shared vocabulary of the development: the pieces of the Go language and of its packages
  strings and strconv that every component of the rpc package uses, with the generic lemmas
  on lists, association lists and channels the component proofs rest on.

  Conventions.
  \<^item> A Go string or byte slice is a \<^typ>\<open>string\<close>, one \<^typ>\<open>char\<close> per byte.
  \<^item> A Go map is an association list with distinct keys; ranging over the map visits the
    entries in list order, and the theorems about such loops do not depend on that order.
  \<^item> A pointer to a shared, mutable object is a natural number into a store.
  \<^item> \<^const>\<open>None\<close> as the result of a state transformer stands for a goroutine that panics without
    being recovered or that blocks forever on a channel. Every theorem that says that an
    operation returns shows that the result is not \<^const>\<open>None\<close>.
\<close>

named_theorems rpc_simps \<open>rewrite rules that evaluate the operations of the model\<close>
named_theorems inv_intros \<open>preservation of the component invariants\<close>

section \<open>Package strings\<close>

definition strings_HasSuffix :: "string \<Rightarrow> string \<Rightarrow> bool" where
  "strings_HasSuffix s t \<longleftrightarrow> length t \<le> length s \<and> drop (length s - length t) s = t"

definition strings_HasPrefix :: "string \<Rightarrow> string \<Rightarrow> bool" where
  "strings_HasPrefix s t \<longleftrightarrow> take (length t) s = t"

text \<open>strings.Cut: the text before and after the first separator, and whether there is one.\<close>

fun strings_Cut :: "string \<Rightarrow> string \<Rightarrow> string \<times> string \<times> bool" where
  "strings_Cut [] sep = (if sep = [] then ([], [], True) else ([], [], False))"
| "strings_Cut (c # cs) sep =
     (if strings_HasPrefix (c # cs) sep then ([], drop (length sep) (c # cs), True)
      else case strings_Cut cs sep of
          (before, after, True) \<Rightarrow> (c # before, after, True)
        | (_, _, False) \<Rightarrow> (c # cs, [], False))"

text \<open>strings.TrimLeft with a one-byte cutset.\<close>

definition strings_TrimLeft :: "string \<Rightarrow> char \<Rightarrow> string" where
  "strings_TrimLeft s c = dropWhile (\<lambda>x. x = c) s"

lemma HasSuffix_append [simp]: "strings_HasSuffix (s @ t) t"
  by (simp add: strings_HasSuffix_def)

lemma HasSuffix_iff: "strings_HasSuffix s t \<longleftrightarrow> (\<exists>u. s = u @ t)"
proof
  assume "strings_HasSuffix s t"
  then have "s = take (length s - length t) s @ t"
    unfolding strings_HasSuffix_def by (metis append_take_drop_id)
  then show "\<exists>u. s = u @ t" by blast
next
  assume "\<exists>u. s = u @ t"
  then show "strings_HasSuffix s t" by auto
qed

lemma HasSuffix_trans: "strings_HasSuffix s t \<Longrightarrow> strings_HasSuffix t u \<Longrightarrow> strings_HasSuffix s u"
  by (metis HasSuffix_iff append_assoc)

text \<open>With a one-byte separator the two halves reassemble the input.\<close>

lemma Cut_found_iff: "snd (snd (strings_Cut s [c])) \<longleftrightarrow> c \<in> set s"
  by (induction s) (auto simp: strings_HasPrefix_def split: prod.splits bool.splits)

lemma Cut_found:
  "strings_Cut s [c] = (before, after, True) \<Longrightarrow> s = before @ c # after \<and> c \<notin> set before"
  by (induction s arbitrary: before)
    (auto simp: strings_HasPrefix_def split: prod.splits bool.splits if_splits)

lemma Cut_append: "c \<notin> set a \<Longrightarrow> strings_Cut (a @ c # b) [c] = (a, b, True)"
  by (induction a) (auto simp: strings_HasPrefix_def)

lemma Cut_not_found: "c \<notin> set s \<Longrightarrow> strings_Cut s [c] = (s, [], False)"
  by (induction s) (auto simp: strings_HasPrefix_def)

section \<open>Package strconv: decimal text\<close>

definition digit_char :: "nat \<Rightarrow> char" where
  "digit_char d = char_of (48 + d)"

fun dec_digits :: "nat \<Rightarrow> string" where
  "dec_digits n = (if n < 10 then [digit_char n] else dec_digits (n div 10) @ [digit_char (n mod 10)])"

declare dec_digits.simps [simp del]

definition strconv_Itoa :: "int \<Rightarrow> string" where
  "strconv_Itoa i = (if i < 0 then CHR ''-'' # dec_digits (nat (- i)) else dec_digits (nat i))"

definition dec_val :: "string \<Rightarrow> nat" where
  "dec_val s = foldl (\<lambda>a c. 10 * a + (of_char c - 48)) 0 s"

lemma of_char_digit: "d < 10 \<Longrightarrow> of_char (digit_char d) = (48 + d :: nat)"
  by (simp add: digit_char_def)

lemma dec_val_dec_digits [simp]: "dec_val (dec_digits n) = n"
proof (induction n rule: dec_digits.induct)
  case (1 n)
  show ?case
  proof (cases "n < 10")
    case True
    then show ?thesis by (simp add: dec_digits.simps [of n] dec_val_def of_char_digit)
  next
    case False
    have "dec_val (dec_digits n) = 10 * dec_val (dec_digits (n div 10)) + n mod 10"
      using False by (subst dec_digits.simps) (simp add: dec_val_def of_char_digit)
    with False 1 show ?thesis by simp
  qed
qed

lemma dec_digits_inject [simp]: "dec_digits m = dec_digits n \<longleftrightarrow> m = n"
  by (metis dec_val_dec_digits)

lemma dec_digits_not_Nil [simp]: "dec_digits n \<noteq> []"
  by (subst dec_digits.simps) simp

lemma set_dec_digits: "set (dec_digits n) \<subseteq> digit_char ` {..<10}"
proof (induction n rule: dec_digits.induct)
  case (1 n)
  then show ?case by (subst dec_digits.simps) auto
qed

section \<open>Channels\<close>

text \<open>
  A buffered channel: its queued values, its capacity and whether it was closed. A send on a
  closed channel and a second close panic, a send on a full channel blocks: both are
  \<^const>\<open>None\<close>.
\<close>

record 'a chan =
  chbuf :: "'a list"
  chcap :: nat
  chclosed :: bool

definition make_chan :: "nat \<Rightarrow> 'a chan" where
  "make_chan n = \<lparr>chbuf = [], chcap = n, chclosed = False\<rparr>"

definition chan_send :: "'a \<Rightarrow> 'a chan \<Rightarrow> 'a chan option" where
  "chan_send v c =
     (if \<not> chclosed c \<and> length (chbuf c) < chcap c then Some (c\<lparr>chbuf := chbuf c @ [v]\<rparr>) else None)"

definition chan_close :: "'a chan \<Rightarrow> 'a chan option" where
  "chan_close c = (if chclosed c then None else Some (c\<lparr>chclosed := True\<rparr>))"

definition chan_fresh :: "'a chan \<Rightarrow> bool" where
  "chan_fresh c \<longleftrightarrow> chbuf c = [] \<and> 0 < chcap c \<and> \<not> chclosed c"

lemma chan_send_fresh: "chan_fresh c \<Longrightarrow> chan_send v c = Some (c\<lparr>chbuf := [v]\<rparr>)"
  by (simp add: chan_fresh_def chan_send_def)

lemma chan_close_open: "\<not> chclosed c \<Longrightarrow> chan_close c = Some (c\<lparr>chclosed := True\<rparr>)"
  by (simp add: chan_close_def)

lemma chan_fresh_make [simp]: "chan_fresh (make_chan n) \<longleftrightarrow> 0 < n"
  by (simp add: chan_fresh_def make_chan_def)

section \<open>Maps as association lists\<close>

type_synonym ('k, 'v) gomap = "('k \<times> 'v) list"

abbreviation map_get :: "('k, 'v) gomap \<Rightarrow> 'k \<Rightarrow> 'v option" where
  "map_get \<equiv> map_of"

abbreviation map_set :: "'k \<Rightarrow> 'v \<Rightarrow> ('k, 'v) gomap \<Rightarrow> ('k, 'v) gomap" where
  "map_set \<equiv> AList.update"

abbreviation map_delete :: "'k \<Rightarrow> ('k, 'v) gomap \<Rightarrow> ('k, 'v) gomap" where
  "map_delete \<equiv> AList.delete"

abbreviation map_keys :: "('k, 'v) gomap \<Rightarrow> 'k list" where
  "map_keys m \<equiv> map fst m"

definition wf_map :: "('k, 'v) gomap \<Rightarrow> bool" where
  "wf_map m \<longleftrightarrow> distinct (map fst m)"

lemma wf_map_Nil [simp]: "wf_map []"
  by (simp add: wf_map_def)

lemma wf_map_set [simp, intro]: "wf_map m \<Longrightarrow> wf_map (map_set k v m)"
  by (simp add: wf_map_def distinct_update)

lemma wf_map_delete [simp, intro]: "wf_map m \<Longrightarrow> wf_map (map_delete k m)"
  by (simp add: wf_map_def distinct_delete)

lemma map_get_set: "map_get (map_set k v m) k' = (if k' = k then Some v else map_get m k')"
  by (simp add: update_conv)

lemma map_get_delete: "map_get (map_delete k m) k' = (if k' = k then None else map_get m k')"
  by (simp add: delete_conv)

lemmas map_get_simps [rpc_simps] = map_get_set map_get_delete

text \<open>Deleting a list of keys, as the loops over a slice of ids do.\<close>

definition map_delete_all :: "'k list \<Rightarrow> ('k, 'v) gomap \<Rightarrow> ('k, 'v) gomap" where
  "map_delete_all ks m = fold map_delete ks m"

lemma wf_map_delete_all [simp, intro]: "wf_map m \<Longrightarrow> wf_map (map_delete_all ks m)"
  unfolding map_delete_all_def by (induction ks arbitrary: m) auto

lemma map_get_delete_all [rpc_simps]:
  "map_get (map_delete_all ks m) k = (if k \<in> set ks then None else map_get m k)"
  unfolding map_delete_all_def by (induction ks arbitrary: m) (auto simp: map_get_delete)

definition map_set_all :: "'k list \<Rightarrow> 'v \<Rightarrow> ('k, 'v) gomap \<Rightarrow> ('k, 'v) gomap" where
  "map_set_all ks v m = fold (\<lambda>k. map_set k v) ks m"

lemma wf_map_set_all [simp, intro]: "wf_map m \<Longrightarrow> wf_map (map_set_all ks v m)"
  unfolding map_set_all_def by (induction ks arbitrary: m) auto

lemma map_get_set_all [rpc_simps]:
  "map_get (map_set_all ks v m) k = (if k \<in> set ks then Some v else map_get m k)"
  unfolding map_set_all_def by (induction ks arbitrary: m) (auto simp: map_get_set)

section \<open>Lists and options\<close>

lemma bind_eq_SomeI: "m = Some x \<Longrightarrow> f x = Some y \<Longrightarrow> Option.bind m f = Some y"
  by simp

lemma distinct_map_filter_fst: "distinct (map f xs) \<Longrightarrow> distinct (map f (filter P xs))"
  by (induction xs) auto

section \<open>Transition systems\<close>

text \<open>Goroutines that share state are modelled as step relations. A state is reachable when steps
  lead to it from an initial one.\<close>

inductive reachable :: "('s \<Rightarrow> bool) \<Rightarrow> ('s \<Rightarrow> 's \<Rightarrow> bool) \<Rightarrow> 's \<Rightarrow> bool"
  for init :: "'s \<Rightarrow> bool" and step :: "'s \<Rightarrow> 's \<Rightarrow> bool" where
  reach_init: "init s \<Longrightarrow> reachable init step s"
| reach_step: "reachable init step s \<Longrightarrow> step s s' \<Longrightarrow> reachable init step s'"

lemma reachable_steps: "step\<^sup>*\<^sup>* s s' \<Longrightarrow> reachable init step s \<Longrightarrow> reachable init step s'"
  by (induction rule: rtranclp_induct) (auto intro: reach_step)

text \<open>A system with an inductive invariant.\<close>

locale invariant_system =
  fixes init :: "'s \<Rightarrow> bool" and step :: "'s \<Rightarrow> 's \<Rightarrow> bool" and inv :: "'s \<Rightarrow> bool"
  assumes init_inv: "init s \<Longrightarrow> inv s"
    and step_inv: "inv s \<Longrightarrow> step s s' \<Longrightarrow> inv s'"
begin

lemma reachable_inv: "reachable init step s \<Longrightarrow> inv s"
  by (induction rule: reachable.induct) (auto intro: init_inv step_inv)

lemma steps_inv: "step\<^sup>*\<^sup>* s s' \<Longrightarrow> inv s \<Longrightarrow> inv s'"
  by (induction rule: rtranclp_induct) (auto intro: step_inv)

end

text \<open>A system in which one goroutine, whose own steps are \<open>pstep\<close>, can always go on until it is done.\<close>

locale progress_system = invariant_system init step inv
  for init :: "'s \<Rightarrow> bool" and step :: "'s \<Rightarrow> 's \<Rightarrow> bool" and inv :: "'s \<Rightarrow> bool" +
  fixes pstep :: "'s \<Rightarrow> 's \<Rightarrow> bool" and fin :: "'s \<Rightarrow> bool" and mu :: "'s \<Rightarrow> nat"
  assumes pstep_step: "pstep s s' \<Longrightarrow> step s s'"
    and pstep_ex: "inv s \<Longrightarrow> \<not> fin s \<Longrightarrow> \<exists>s'. pstep s s'"
    and pstep_mu: "inv s \<Longrightarrow> pstep s s' \<Longrightarrow> mu s' < mu s"
begin

lemma runs_to_done: "inv s \<Longrightarrow> \<exists>s'. pstep\<^sup>*\<^sup>* s s' \<and> fin s'"
proof (induction "mu s" arbitrary: s rule: less_induct)
  case less
  show ?case
  proof (cases "fin s")
    case False
    then obtain s1 where s1: "pstep s s1" using pstep_ex less.prems by blast
    then have "mu s1 < mu s" "inv s1" using pstep_mu less.prems step_inv pstep_step by blast+
    then obtain s' where "pstep\<^sup>*\<^sup>* s1 s'" "fin s'" using less.hyps by blast
    with s1 show ?thesis by (meson converse_rtranclp_into_rtranclp)
  qed auto
qed

lemma reachable_runs_to_done:
  assumes "reachable init step s"
  shows "\<exists>s'. step\<^sup>*\<^sup>* s s' \<and> fin s'"
proof -
  obtain s' where "pstep\<^sup>*\<^sup>* s s'" "fin s'" using runs_to_done [OF reachable_inv [OF assms]] by blast
  moreover have "pstep \<le> step" using pstep_step by blast
  ultimately show ?thesis using rtranclp_mono by blast
qed

end

text \<open>A system that implements a specification: an abstraction function maps its initial states to initial states and
  its steps to steps.\<close>

locale simulation = invariant_system init step inv
  for init :: "'s \<Rightarrow> bool" and step :: "'s \<Rightarrow> 's \<Rightarrow> bool" and inv :: "'s \<Rightarrow> bool" +
  fixes abs_of :: "'s \<Rightarrow> 'a" and ainit :: "'a \<Rightarrow> bool" and astep :: "'a \<Rightarrow> 'a \<Rightarrow> bool"
  assumes init_sim: "init s \<Longrightarrow> ainit (abs_of s)"
    and step_sim: "step s s' \<Longrightarrow> inv s \<Longrightarrow> astep (abs_of s) (abs_of s')"
begin

lemma reachable_sim: "reachable init step s \<Longrightarrow> reachable ainit astep (abs_of s)"
proof (induction rule: reachable.induct)
  case (reach_step s s')
  then show ?case using step_sim reachable_inv by (blast intro: reachable.reach_step)
qed (auto intro: reachable.reach_init init_sim)

lemma steps_sim: "step\<^sup>*\<^sup>* s s' \<Longrightarrow> inv s \<Longrightarrow> astep\<^sup>*\<^sup>* (abs_of s) (abs_of s')"
proof (induction rule: rtranclp_induct)
  case (step s' s'')
  then show ?case using step_sim steps_inv by (meson rtranclp.rtrancl_into_rtrancl)
qed simp

end

end
