(* ===== verification/Json_Text.thy ===== *)
theory Json_Text
  imports Go_Prelude
begin

text \<open>
  The parts of the standard packages encoding/json and unicode/utf8 the rpc package uses.

  \<open>json\<close> is the syntax tree of a JSON text that keeps the bytes of every value: a
  \<^verbatim>\<open>json.RawMessage\<close> is a \<open>json option\<close> (\<open>None\<close> for the nil slice) and \<open>raw_of\<close> gives its bytes,
  so that comparing, indexing and measuring raw messages works on the bytes the peer sent.
  \<open>json_parse\<close> is the scanner and decoder of the package on a byte stream: it returns the
  next value and the rest of the stream, or \<open>None\<close> on a syntax error. The nesting limit of the
  decoder (10000 levels) is not modelled.
\<close>

section \<open>UTF-8\<close>

definition byte :: "char \<Rightarrow> nat" where
  "byte c = of_char c"

definition in_range :: "nat \<Rightarrow> nat \<Rightarrow> nat \<Rightarrow> bool" where
  "in_range lo hi n \<longleftrightarrow> lo \<le> n \<and> n \<le> hi"

definition rune_error :: nat where
  "rune_error = 0xFFFD"

text \<open>utf8.DecodeRune: the first code point and its width; an invalid byte is one replacement
  character of width 1.\<close>

fun decode_rune :: "string \<Rightarrow> nat \<times> nat" where
  "decode_rune [] = (rune_error, 0)"
| "decode_rune (c0 # cs) =
     (let b0 = byte c0 in
      if b0 < 0x80 then (b0, 1)
      else case cs of
        [] \<Rightarrow> (rune_error, 1)
      | c1 # cs1 \<Rightarrow>
        (let b1 = byte c1 in
         if in_range 0xC2 0xDF b0 then
           (if in_range 0x80 0xBF b1 then ((b0 - 0xC0) * 64 + (b1 - 0x80), 2) else (rune_error, 1))
         else case cs1 of
           [] \<Rightarrow> (rune_error, 1)
         | c2 # cs2 \<Rightarrow>
           (let b2 = byte c2 in
            if in_range 0xE0 0xEF b0 then
              (if in_range (if b0 = 0xE0 then 0xA0 else 0x80) (if b0 = 0xED then 0x9F else 0xBF) b1 \<and>
                  in_range 0x80 0xBF b2
               then ((b0 - 0xE0) * 4096 + (b1 - 0x80) * 64 + (b2 - 0x80), 3) else (rune_error, 1))
            else case cs2 of
              [] \<Rightarrow> (rune_error, 1)
            | c3 # _ \<Rightarrow>
              (let b3 = byte c3 in
               if in_range 0xF0 0xF4 b0 \<and>
                  in_range (if b0 = 0xF0 then 0x90 else 0x80) (if b0 = 0xF4 then 0x8F else 0xBF) b1 \<and>
                  in_range 0x80 0xBF b2 \<and> in_range 0x80 0xBF b3
               then ((b0 - 0xF0) * 262144 + (b1 - 0x80) * 4096 + (b2 - 0x80) * 64 + (b3 - 0x80), 4)
               else (rune_error, 1)))))"

definition is_surrogate :: "nat \<Rightarrow> bool" where
  "is_surrogate r \<longleftrightarrow> in_range 0xD800 0xDFFF r"

text \<open>utf8.AppendRune: the bytes of a code point.\<close>

definition encode_rune :: "nat \<Rightarrow> string" where
  "encode_rune r0 =
     (let r = (if is_surrogate r0 \<or> 0x10FFFF < r0 then rune_error else r0) in
      map char_of
       (if r < 0x80 then [r]
        else if r < 0x800 then [0xC0 + r div 64, 0x80 + r mod 64]
        else if r < 0x10000 then [0xE0 + r div 4096, 0x80 + r div 64 mod 64, 0x80 + r mod 64]
        else [0xF0 + r div 262144, 0x80 + r div 4096 mod 64, 0x80 + r div 64 mod 64, 0x80 + r mod 64]))"

section \<open>String literals\<close>

definition hex_val :: "char \<Rightarrow> nat option" where
  "hex_val c =
     (let b = byte c in
      if in_range 48 57 b then Some (b - 48)
      else if in_range 97 102 b then Some (b - 87)
      else if in_range 65 70 b then Some (b - 55)
      else None)"

text \<open>The four hexadecimal digits after \<^verbatim>\<open>\u\<close>.\<close>

fun hex4 :: "string \<Rightarrow> nat option" where
  "hex4 (a # b # c # d # _) =
     do { w \<leftarrow> hex_val a; x \<leftarrow> hex_val b; y \<leftarrow> hex_val c; z \<leftarrow> hex_val d;
          Some (((w * 16 + x) * 16 + y) * 16 + z) }"
| "hex4 _ = None"

definition simple_escape :: "char \<Rightarrow> char option" where
  "simple_escape c =
     map_of [(CHR 0x22, CHR 0x22), (CHR 0x5C, CHR 0x5C), (CHR ''/'', CHR ''/''), (CHR ''b'', CHR 0x08),
             (CHR ''f'', CHR 0x0C), (CHR ''n'', CHR 0x0A), (CHR ''r'', CHR 0x0D), (CHR ''t'', CHR 0x09)] c"

text \<open>The second half of a surrogate pair, if the text goes on with one.\<close>

definition low_surrogate :: "nat \<Rightarrow> string \<Rightarrow> nat option" where
  "low_surrogate hi s =
     (if strings_HasPrefix s [CHR 0x5C, CHR ''u''] then
        (case hex4 (drop 2 s) of
           Some lo \<Rightarrow>
             (if in_range 0xD800 0xDBFF hi \<and> in_range 0xDC00 0xDFFF lo
              then Some (0x10000 + (hi - 0xD800) * 1024 + (lo - 0xDC00)) else None)
         | None \<Rightarrow> None)
      else None)"

text \<open>\<open>unquote_body\<close> is json's unquote on the text between the quotes of a literal the scanner
  has accepted.\<close>

function unquote_body :: "string \<Rightarrow> string" where
  "unquote_body [] = []"
| "unquote_body (c # cs) =
     (if c = CHR 0x5C then
        (case cs of
           [] \<Rightarrow> []
         | e # es \<Rightarrow>
           (if e = CHR ''u'' then
              (case hex4 es of
                 None \<Rightarrow> []
               | Some r \<Rightarrow>
                 (case low_surrogate r (drop 4 es) of
                    Some r2 \<Rightarrow> encode_rune r2 @ unquote_body (drop 10 es)
                  | None \<Rightarrow> encode_rune r @ unquote_body (drop 4 es)))
            else (case simple_escape e of None \<Rightarrow> [] | Some x \<Rightarrow> x # unquote_body es)))
      else if byte c < 0x80 then c # unquote_body cs
      else (case decode_rune (c # cs) of
              (r, w) \<Rightarrow> encode_rune r @ unquote_body (drop (w - 1) cs)))"
  by pat_completeness auto
termination
  by (relation "measure length") auto

text \<open>The escaping json.Marshal applies to a string (HTML-sensitive characters included).\<close>

definition hex_digit :: "nat \<Rightarrow> char" where
  "hex_digit d = (if d < 10 then char_of (48 + d) else char_of (87 + d))"

definition escape_u :: "nat \<Rightarrow> string" where
  "escape_u r = CHR 0x5C # CHR ''u'' #
     [hex_digit (r div 4096 mod 16), hex_digit (r div 256 mod 16), hex_digit (r div 16 mod 16), hex_digit (r mod 16)]"

definition escape_ascii :: "char \<Rightarrow> string" where
  "escape_ascii c =
     (if c = CHR 0x22 then [CHR 0x5C, CHR 0x22] else if c = CHR 0x5C then [CHR 0x5C, CHR 0x5C]
      else if c = CHR 0x08 then [CHR 0x5C, CHR ''b''] else if c = CHR 0x0C then [CHR 0x5C, CHR ''f'']
      else if c = CHR 0x0A then [CHR 0x5C, CHR ''n''] else if c = CHR 0x0D then [CHR 0x5C, CHR ''r'']
      else if c = CHR 0x09 then [CHR 0x5C, CHR ''t'']
      else if byte c < 0x20 \<or> c = CHR ''<'' \<or> c = CHR ''>'' \<or> c = CHR ''&'' then escape_u (byte c)
      else [c])"

function quote_body :: "string \<Rightarrow> string" where
  "quote_body [] = []"
| "quote_body (c # cs) =
     (if byte c < 0x80 then escape_ascii c @ quote_body cs
      else (case decode_rune (c # cs) of
              (r, w) \<Rightarrow>
                (if r = rune_error \<and> w = 1 then escape_u rune_error @ quote_body cs
                 else (if r = 0x2028 \<or> r = 0x2029 then escape_u r else take w (c # cs)) @
                      quote_body (drop (w - 1) cs))))"
  by pat_completeness auto
termination
  by (relation "measure length") auto

definition quote_string :: "string \<Rightarrow> string" where
  "quote_string s = CHR 0x22 # quote_body s @ [CHR 0x22]"

definition unquote_string :: "string \<Rightarrow> string" where
  "unquote_string lit = unquote_body (butlast (tl lit))"

section \<open>Syntax trees\<close>

text \<open>Numbers and strings keep their literal, arrays and objects the bytes they were read from;
  a key of an object is its literal.\<close>

datatype json =
    JNull
  | JBool bool
  | JNum string
  | JStr string
  | JArr string "json list"
  | JObj string "(string \<times> json) list"

fun raw_of :: "json \<Rightarrow> string" where
  "raw_of JNull = ''null''"
| "raw_of (JBool b) = (if b then ''true'' else ''false'')"
| "raw_of (JNum s) = s"
| "raw_of (JStr s) = s"
| "raw_of (JArr s _) = s"
| "raw_of (JObj s _) = s"

type_synonym raw_message = "json option"

text \<open>The Go conversion \<^verbatim>\<open>string(raw)\<close>, which maps the nil slice to the empty string.\<close>

definition raw_string :: "raw_message \<Rightarrow> string" where
  "raw_string r = (case r of None \<Rightarrow> [] | Some j \<Rightarrow> raw_of j)"

section \<open>The scanner\<close>

definition is_space :: "char \<Rightarrow> bool" where
  "is_space c \<longleftrightarrow> c = CHR 0x20 \<or> c = CHR 0x09 \<or> c = CHR 0x0A \<or> c = CHR 0x0D"

definition skip_ws :: "string \<Rightarrow> string" where
  "skip_ws s = dropWhile is_space s"

definition is_digit :: "char \<Rightarrow> bool" where
  "is_digit c \<longleftrightarrow> in_range 48 57 (byte c)"

text \<open>strings.TrimSpace, on text whose outer white space is ASCII.\<close>

definition unicode_space :: "char \<Rightarrow> bool" where
  "unicode_space c \<longleftrightarrow> is_space c \<or> c = CHR 0x0B \<or> c = CHR 0x0C"

definition strings_TrimSpace :: "string \<Rightarrow> string" where
  "strings_TrimSpace s = rev (dropWhile unicode_space (rev (dropWhile unicode_space s)))"

text \<open>The body of a string literal up to and including the closing quote.\<close>

definition valid_escape :: "string \<Rightarrow> bool" where
  "valid_escape s =
     (case s of
        [] \<Rightarrow> False
      | e # es \<Rightarrow> if e = CHR ''u'' then hex4 es \<noteq> None else simple_escape e \<noteq> None)"

fun scan_string_body :: "string \<Rightarrow> (string \<times> string) option" where
  "scan_string_body [] = None"
| "scan_string_body (c # cs) =
     (if c = CHR 0x22 then Some ([c], cs)
      else if byte c < 0x20 then None
      else if c = CHR 0x5C then
        (if valid_escape cs
         then map_option (\<lambda>(lit, rest). (c # take 1 cs @ lit, rest)) (scan_string_body (drop 1 cs))
         else None)
      else map_option (\<lambda>(lit, rest). (c # lit, rest)) (scan_string_body cs))"

definition span :: "(char \<Rightarrow> bool) \<Rightarrow> string \<Rightarrow> string \<times> string" where
  "span p s = (takeWhile p s, dropWhile p s)"

definition scan_digits1 :: "string \<Rightarrow> (string \<times> string) option" where
  "scan_digits1 s = (case span is_digit s of (ds, rest) \<Rightarrow> if ds = [] then None else Some (ds, rest))"

definition scan_int :: "string \<Rightarrow> (string \<times> string) option" where
  "scan_int s = (if strings_HasPrefix s ''0'' then Some (''0'', drop 1 s) else scan_digits1 s)"

definition scan_frac :: "string \<Rightarrow> (string \<times> string) option" where
  "scan_frac s =
     (if strings_HasPrefix s ''.''
      then map_option (\<lambda>(ds, rest). (CHR ''.'' # ds, rest)) (scan_digits1 (drop 1 s))
      else Some ([], s))"

definition scan_exp :: "string \<Rightarrow> (string \<times> string) option" where
  "scan_exp s =
     (case s of
        e # t \<Rightarrow>
          (if e = CHR ''e'' \<or> e = CHR ''E'' then
             (case t of
                g # u \<Rightarrow>
                  (if g = CHR ''+'' \<or> g = CHR ''-''
                   then map_option (\<lambda>(ds, rest). (e # g # ds, rest)) (scan_digits1 u)
                   else map_option (\<lambda>(ds, rest). (e # ds, rest)) (scan_digits1 t))
              | [] \<Rightarrow> None)
           else Some ([], s))
      | [] \<Rightarrow> Some ([], s))"

definition scan_number :: "string \<Rightarrow> (string \<times> string) option" where
  "scan_number s =
     (let (sign, s1) = (if strings_HasPrefix s ''-'' then (''-'', drop 1 s) else ([], s)) in
      do { (ip, s2) \<leftarrow> scan_int s1; (fp, s3) \<leftarrow> scan_frac s2; (ep, s4) \<leftarrow> scan_exp s3;
           Some (sign @ ip @ fp @ ep, s4) })"

definition scan_literal :: "string \<Rightarrow> json \<Rightarrow> string \<Rightarrow> (json \<times> string) option" where
  "scan_literal word j s = (if strings_HasPrefix s word then Some (j, drop (length word) s) else None)"

text \<open>The bytes consumed between a position and a later one.\<close>

definition consumed :: "string \<Rightarrow> string \<Rightarrow> string" where
  "consumed s rest = take (length s - length rest) s"

text \<open>\<open>parse_value\<close> reads a value at the first byte of its input, \<open>parse_elems\<close> the elements
  after a \<^verbatim>\<open>[\<close> or a comma, \<open>parse_members\<close> the members after a \<^verbatim>\<open>{\<close> or a comma. The first
  argument is fuel; each call spends one unit and consumes at least one byte before it
  recurses, so the length of the input is enough (\<open>parse_value_enough\<close>).\<close>

fun parse_value :: "nat \<Rightarrow> string \<Rightarrow> (json \<times> string) option"
  and parse_elems :: "nat \<Rightarrow> string \<Rightarrow> (json list \<times> string) option"
  and parse_members :: "nat \<Rightarrow> string \<Rightarrow> ((string \<times> json) list \<times> string) option" where
  "parse_value 0 s = None"
| "parse_value (Suc n) [] = None"
| "parse_value (Suc n) (c # cs) =
     (if c = CHR ''{'' then
        (case skip_ws cs of
           [] \<Rightarrow> None
         | d # ds \<Rightarrow>
           (if d = CHR ''}'' then Some (JObj (consumed (c # cs) ds) [], ds)
            else do { (ms, rest) \<leftarrow> parse_members n (d # ds); Some (JObj (consumed (c # cs) rest) ms, rest) }))
      else if c = CHR ''['' then
        (case skip_ws cs of
           [] \<Rightarrow> None
         | d # ds \<Rightarrow>
           (if d = CHR '']'' then Some (JArr (consumed (c # cs) ds) [], ds)
            else do { (es, rest) \<leftarrow> parse_elems n (d # ds); Some (JArr (consumed (c # cs) rest) es, rest) }))
      else if c = CHR 0x22 then map_option (\<lambda>(lit, rest). (JStr (c # lit), rest)) (scan_string_body cs)
      else if c = CHR ''t'' then scan_literal ''true'' (JBool True) (c # cs)
      else if c = CHR ''f'' then scan_literal ''false'' (JBool False) (c # cs)
      else if c = CHR ''n'' then scan_literal ''null'' JNull (c # cs)
      else map_option (\<lambda>(lit, rest). (JNum lit, rest)) (scan_number (c # cs)))"
| "parse_elems 0 s = None"
| "parse_elems (Suc n) s =
     do { (j, rest) \<leftarrow> parse_value n s;
          case skip_ws rest of
            [] \<Rightarrow> None
          | d # ds \<Rightarrow>
            (if d = CHR '']'' then Some ([j], ds)
             else if d = CHR '','' then do { (js, rest') \<leftarrow> parse_elems n (skip_ws ds); Some (j # js, rest') }
             else None) }"
| "parse_members 0 s = None"
| "parse_members (Suc n) [] = None"
| "parse_members (Suc n) (q # s) =
     (if q \<noteq> CHR 0x22 then None
      else do { (lit, s1) \<leftarrow> scan_string_body s;
          case skip_ws s1 of
            [] \<Rightarrow> None
          | e # s2 \<Rightarrow>
            (if e \<noteq> CHR '':'' then None
             else do { (j, rest) \<leftarrow> parse_value n (skip_ws s2);
               case skip_ws rest of
                 [] \<Rightarrow> None
               | d # ds \<Rightarrow>
                 (if d = CHR ''}'' then Some ([(q # lit, j)], ds)
                  else if d = CHR '','' then
                    do { (ms, rest') \<leftarrow> parse_members n (skip_ws ds); Some ((q # lit, j) # ms, rest') }
                  else None) }) })"

text \<open>Decoding the next value of a stream.\<close>

definition json_parse :: "string \<Rightarrow> (json \<times> string) option" where
  "json_parse s = parse_value (Suc (2 * length s)) (skip_ws s)"

section \<open>The scanner returns the bytes it read\<close>

lemma skip_ws_suffix: "\<exists>w. s = w @ skip_ws s \<and> (\<forall>c \<in> set w. is_space c)"
  unfolding skip_ws_def by (metis set_takeWhileD takeWhile_dropWhile_id)

lemma length_skip_ws [simp]: "length (skip_ws s) \<le> length s"
  by (simp add: skip_ws_def length_dropWhile_le)

lemma skip_ws_Cons_suffix: "skip_ws s = d # ds \<Longrightarrow> \<exists>w. s = w @ d # ds"
  by (metis skip_ws_suffix)

lemma consumed_append [simp]: "consumed (p @ rest) rest = p"
  by (simp add: consumed_def)

lemma consumed_Cons_append [simp]: "consumed (c # p @ rest) rest = c # p"
  using consumed_append [of "c # p" rest] by simp

lemma scan_string_body_lossless: "scan_string_body s = Some (lit, rest) \<Longrightarrow> s = lit @ rest \<and> lit \<noteq> []"
proof (induction s arbitrary: lit rule: scan_string_body.induct)
  case (2 c cs)
  then show ?case
    by (auto split: if_splits) (metis append_assoc append_take_drop_id)+
qed simp

lemma scan_digits1_lossless: "scan_digits1 s = Some (ds, rest) \<Longrightarrow> s = ds @ rest \<and> ds \<noteq> []"
  by (auto simp: scan_digits1_def span_def split: if_splits)

lemma HasPrefix1: "strings_HasPrefix s [c] \<longleftrightarrow> (\<exists>t. s = c # t)"
  by (cases s) (auto simp: strings_HasPrefix_def)

lemma scan_int_lossless: "scan_int s = Some (ds, rest) \<Longrightarrow> s = ds @ rest \<and> ds \<noteq> []"
  unfolding scan_int_def by (auto simp: HasPrefix1 split: if_splits dest: scan_digits1_lossless)

lemma scan_frac_lossless: "scan_frac s = Some (ds, rest) \<Longrightarrow> s = ds @ rest"
  unfolding scan_frac_def by (auto simp: HasPrefix1 split: if_splits dest: scan_digits1_lossless)

lemma scan_exp_lossless: "scan_exp s = Some (ds, rest) \<Longrightarrow> s = ds @ rest"
  unfolding scan_exp_def by (auto split: list.splits if_splits dest: scan_digits1_lossless)

lemma scan_number_lossless: "scan_number s = Some (lit, rest) \<Longrightarrow> s = lit @ rest \<and> lit \<noteq> []"
  unfolding scan_number_def
  by (auto simp: bind_eq_Some_conv HasPrefix1 split: prod.splits if_splits
      dest!: scan_int_lossless scan_frac_lossless scan_exp_lossless)

lemma scan_literal_lossless:
  "scan_literal word j s = Some (j', rest) \<Longrightarrow> s = word @ rest \<and> j' = j"
  unfolding scan_literal_def strings_HasPrefix_def
  by (auto split: if_splits) (metis append_take_drop_id)

lemma opened_suffix:
  assumes "skip_ws cs = q @ rest"
  shows "c # cs = consumed (c # cs) rest @ rest" and "consumed (c # cs) rest \<noteq> []"
proof -
  from skip_ws_suffix obtain w where "cs = w @ skip_ws cs" by blast
  with assms have *: "c # cs = (c # w @ q) @ rest" by simp
  then have "consumed (c # cs) rest = c # w @ q" by (metis consumed_append)
  with * show "c # cs = consumed (c # cs) rest @ rest" and "consumed (c # cs) rest \<noteq> []" by simp_all
qed

lemma skip_ws_append: "skip_ws s = p @ rest \<Longrightarrow> \<exists>w. s = w @ rest"
  by (metis append_assoc skip_ws_suffix)

lemma opened_Cons:
  assumes "skip_ws cs = d # rest"
  shows "c # cs = consumed (c # cs) rest @ rest \<and> consumed (c # cs) rest \<noteq> []"
  using opened_suffix [of cs "[d]" rest c] assms by simp

lemma separated_suffix:
  assumes "s = p @ s1" and "p \<noteq> []" and "skip_ws s1 = d # ds" and "ds = u @ rest"
  shows "\<exists>p. s = p @ rest \<and> p \<noteq> []"
  using assms skip_ws_Cons_suffix [of s1 d ds] by auto

lemma parse_elems_SomeD:
  assumes "parse_elems (Suc n) s = Some (js, rest)"
  shows "\<exists>j s1 d ds. parse_value n s = Some (j, s1) \<and> skip_ws s1 = d # ds \<and>
    (d = CHR '']'' \<and> js = [j] \<and> ds = rest \<or>
     d \<noteq> CHR '']'' \<and> d = CHR '','' \<and> (\<exists>js'. parse_elems n (skip_ws ds) = Some (js', rest) \<and> js = j # js'))"
proof -
  obtain j s1 where v: "parse_value n s = Some (j, s1)"
    using assms by (cases "parse_value n s") auto
  obtain d ds where d: "skip_ws s1 = d # ds"
    using assms v by (cases "skip_ws s1") auto
  show ?thesis using assms v d by (auto simp: bind_eq_Some_conv split: if_splits)
qed

lemma parse_members_SomeD:
  assumes "parse_members (Suc n) (q # s) = Some (ms, rest)"
  shows "\<not> q \<noteq> CHR 0x22 \<and> (\<exists>lit s1 e s2 j s3 d ds. scan_string_body s = Some (lit, s1) \<and>
    skip_ws s1 = e # s2 \<and> \<not> e \<noteq> CHR '':'' \<and> parse_value n (skip_ws s2) = Some (j, s3) \<and> skip_ws s3 = d # ds \<and>
    (d = CHR ''}'' \<and> ms = [(q # lit, j)] \<and> ds = rest \<or>
     d \<noteq> CHR ''}'' \<and> d = CHR '','' \<and> (\<exists>ms'. parse_members n (skip_ws ds) = Some (ms', rest) \<and> ms = (q # lit, j) # ms')))"
proof -
  have q: "q = CHR 0x22" using assms by (cases "q = CHR 0x22") auto
  obtain lit s1 where l: "scan_string_body s = Some (lit, s1)"
    using assms q by (cases "scan_string_body s") auto
  obtain e s2 where e: "skip_ws s1 = e # s2"
    using assms q l by (cases "skip_ws s1") auto
  have e': "e = CHR '':''" using assms q l e by (cases "e = CHR '':''") auto
  obtain j s3 where v: "parse_value n (skip_ws s2) = Some (j, s3)"
    using assms q l e e' by (cases "parse_value n (skip_ws s2)") auto
  obtain d ds where d: "skip_ws s3 = d # ds"
    using assms q l e e' v by (cases "skip_ws s3") auto
  show ?thesis using assms q l e e' v d by (auto simp: bind_eq_Some_conv split: if_splits)
qed

text \<open>A value is followed by the rest of the stream, and its tree holds exactly the bytes in between.\<close>

lemma parse_suffix:
  "parse_value n s = Some (j, rest) \<Longrightarrow> s = raw_of j @ rest \<and> raw_of j \<noteq> []"
  "parse_elems n s = Some (js, rest) \<Longrightarrow> \<exists>p. s = p @ rest \<and> p \<noteq> []"
  "parse_members n s = Some (ms, rest) \<Longrightarrow> \<exists>p. s = p @ rest \<and> p \<noteq> []"
proof (induction n s and n s and n s arbitrary: j rest and js rest and ms rest
    rule: parse_value_parse_elems_parse_members.induct)
  case (3 n c cs)
  have opened: "c # cs = consumed (c # cs) rest @ rest \<and> consumed (c # cs) rest \<noteq> []"
    if "\<exists>p. skip_ws cs = p @ rest \<and> p \<noteq> []"
    using that opened_suffix by blast
  have arr: "\<exists>p. x # xs = p @ rest \<and> p \<noteq> []"
    if "c = CHR ''[''" "skip_ws cs = x # xs" "x \<noteq> CHR '']''" "parse_elems n (x # xs) = Some (a, rest)" for x xs a
    using "3.IH"(2) that by simp
  from "3.prems" show ?case
    apply (simp only: parse_value.simps split: if_split_asm)
    subgoal
      using opened by (auto simp: bind_eq_Some_conv split: list.splits if_splits dest: "3.IH"(1) opened_Cons)
    subgoal
      using opened by (auto simp: bind_eq_Some_conv split: list.splits if_splits dest: arr opened_Cons)
    subgoal by (auto dest: scan_string_body_lossless)
    subgoal by (auto dest: scan_literal_lossless)
    subgoal by (auto dest: scan_literal_lossless)
    subgoal by (auto dest: scan_literal_lossless)
    subgoal by (auto dest: scan_number_lossless)
    done
next
  case (5 n s)
  from parse_elems_SomeD [OF "5.prems"] obtain j s1 d ds
    where v: "parse_value n s = Some (j, s1)" and d: "skip_ws s1 = d # ds"
      and c: "ds = rest \<or> d \<noteq> CHR '']'' \<and> d = CHR '','' \<and> (\<exists>js'. parse_elems n (skip_ws ds) = Some (js', rest))"
    by blast
  have "\<exists>u. ds = u @ rest"
    using c "5.IH"(2) [OF v refl d] skip_ws_append [of ds _ rest] by auto
  then show ?case
    using "5.IH"(1) [OF v] separated_suffix [OF _ _ d] by auto
next
  case (8 n q s)
  from parse_members_SomeD [OF "8.prems"] obtain lit s1 e s2 j s3 d ds
    where q: "\<not> q \<noteq> CHR 0x22" and l: "scan_string_body s = Some (lit, s1)"
      and e: "skip_ws s1 = e # s2" "\<not> e \<noteq> CHR '':''"
      and v: "parse_value n (skip_ws s2) = Some (j, s3)" and d: "skip_ws s3 = d # ds"
      and c: "ds = rest \<or> d \<noteq> CHR ''}'' \<and> d = CHR '','' \<and> (\<exists>ms'. parse_members n (skip_ws ds) = Some (ms', rest))"
    by blast
  have "\<exists>u. ds = u @ rest"
    using c "8.IH"(2) [OF q l refl e v refl d] skip_ws_append [of ds _ rest] by auto
  moreover have "\<exists>w. s2 = w @ s3"
    using "8.IH"(1) [OF q l refl e v] skip_ws_append by blast
  moreover have "\<exists>w. s1 = w @ s2"
    using skip_ws_append [of s1 "[e]" s2] e(1) by simp
  moreover have "\<exists>w. s3 = w @ ds"
    using skip_ws_append [of s3 "[d]" ds] d by simp
  ultimately have "\<exists>w. s1 = w @ rest" by (metis append_assoc)
  with scan_string_body_lossless [OF l] show ?case by (metis append_Cons append_assoc list.discI)
qed auto

subsection \<open>The fuel is enough\<close>

lemma parse_value_shorter: "parse_value n s = Some (j, rest) \<Longrightarrow> length rest < length s"
  using parse_suffix(1) [of n s j rest] by auto

lemma scan_string_body_shorter: "scan_string_body s = Some (lit, rest) \<Longrightarrow> length rest < length s"
  using scan_string_body_lossless [of s lit rest] by auto

lemma skip_ws_shorter: "skip_ws s = d # ds \<Longrightarrow> length ds < length s"
  by (metis length_skip_ws length_Cons less_eq_Suc_le)

lemma parse_fuel_Suc:
  "2 * length s < n \<Longrightarrow> parse_value (Suc n) s = parse_value n s"
  "2 * length s + 1 < n \<Longrightarrow> parse_elems (Suc n) s = parse_elems n s"
  "2 * length s < n \<Longrightarrow> parse_members (Suc n) s = parse_members n s"
proof (induction n s and n s and n s rule: parse_value_parse_elems_parse_members.induct)
  case (3 n c cs)
  have "parse_members (Suc n) (d # ds) = parse_members n (d # ds)"
    if "c = CHR ''{''" "skip_ws cs = d # ds" "d \<noteq> CHR ''}''" for d ds
    using "3.IH"(1) [OF that] "3.prems" skip_ws_shorter [OF that(2)] by simp
  moreover have "parse_elems (Suc n) (d # ds) = parse_elems n (d # ds)"
    if "c = CHR ''[''" "skip_ws cs = d # ds" "d \<noteq> CHR '']''" for d ds
    using "3.IH"(2) [OF _ that] "3.prems" skip_ws_shorter [OF that(2)] that(1) by simp
  ultimately show ?case
    by (simp del: parse_elems.simps parse_members.simps split: list.split)
next
  case (5 n s)
  have v: "parse_value (Suc n) s = parse_value n s" using "5.IH"(1) "5.prems" by simp
  have "parse_elems (Suc n) (skip_ws ds) = parse_elems n (skip_ws ds)"
    if p: "parse_value n s = Some (j, s1)" and d: "skip_ws s1 = d # ds" "d \<noteq> CHR '']''" "d = CHR '',''" for j s1 d ds
    by (rule "5.IH"(2) [OF p refl d])
      (use "5.prems" parse_value_shorter [OF p] skip_ws_shorter [OF d(1)] length_skip_ws [of ds] in linarith)
  with v show ?case
    by (auto simp del: parse_value.simps intro!: Option.bind_cong split: list.split)
next
  case (8 n q s)
  have v: "parse_value (Suc n) (skip_ws s2) = parse_value n (skip_ws s2)"
    if "\<not> q \<noteq> CHR 0x22" "scan_string_body s = Some (lit, s1)" "skip_ws s1 = e # s2" "\<not> e \<noteq> CHR '':''" for lit s1 e s2
    by (rule "8.IH"(1) [OF that(1,2) refl that(3,4)])
      (use "8.prems" scan_string_body_shorter [OF that(2)] skip_ws_shorter [OF that(3)]
        length_skip_ws [of s2] list.size(4) [of q s] in linarith)
  moreover have "parse_members (Suc n) (skip_ws ds) = parse_members n (skip_ws ds)"
    if "\<not> q \<noteq> CHR 0x22" "scan_string_body s = Some (lit, s1)" "skip_ws s1 = e # s2" "\<not> e \<noteq> CHR '':''"
      "parse_value n (skip_ws s2) = Some (j, s3)" "skip_ws s3 = d # ds" "d \<noteq> CHR ''}''" "d = CHR '',''"
    for lit s1 e s2 j s3 d ds
    by (rule "8.IH"(2) [OF that(1,2) refl that(3-5) refl that(6-8)])
      (use "8.prems" scan_string_body_shorter [OF that(2)] skip_ws_shorter [OF that(3)]
        length_skip_ws [of s2] parse_value_shorter [OF that(5)] skip_ws_shorter [OF that(6)]
        length_skip_ws [of ds] list.size(4) [of q s] in linarith)
  ultimately show ?case
    by (auto simp del: parse_value.simps intro!: Option.bind_cong split: list.split)
qed auto

lemma parse_value_enough:
  assumes "2 * length s < n"
  shows "parse_value n s = parse_value (Suc (2 * length s)) s"
  using assms
proof (induction n)
  case (Suc n)
  then consider "n = 2 * length s" | "2 * length s < n" by linarith
  then show ?case
  proof cases
    case 2
    then show ?thesis using Suc.IH parse_fuel_Suc(1) [OF 2] by (simp only:)
  qed simp
qed simp

text \<open>Decoding loses no byte: the stream is some white space, the bytes of the value and the rest.\<close>

lemma json_parse_lossless:
  assumes "json_parse s = Some (j, rest)"
  shows "\<exists>w. s = w @ raw_of j @ rest \<and> (\<forall>c \<in> set w. is_space c)"
proof -
  from assms have "skip_ws s = raw_of j @ rest"
    unfolding json_parse_def by (rule parse_suffix(1) [THEN conjunct1])
  then show ?thesis using skip_ws_suffix [of s] by metis
qed

section \<open>Quoting and unquoting\<close>

definition ascii :: "string \<Rightarrow> bool" where
  "ascii s \<longleftrightarrow> (\<forall>c \<in> set s. byte c < 0x80)"

lemma hex_val_hex_digit [simp]: "d < 16 \<Longrightarrow> hex_val (hex_digit d) = Some d"
  by (auto simp: hex_val_def hex_digit_def byte_def in_range_def Let_def)

lemma unquote_u:
  assumes "hex4 (a # b # c # d # t) = Some r" and "r < 0x80"
  shows "unquote_body (CHR 0x5C # CHR ''u'' # a # b # c # d # t) = char_of r # unquote_body t"
proof -
  have "low_surrogate r t = None"
    using assms(2) by (auto simp: low_surrogate_def in_range_def split: option.splits)
  moreover have "encode_rune r = [char_of r]"
    using assms(2) by (simp add: encode_rune_def is_surrogate_def in_range_def)
  ultimately show ?thesis using assms(1) by (simp del: hex4.simps)
qed

lemma unquote_escape_u:
  assumes "r < 0x80"
  shows "unquote_body (escape_u r @ t) = char_of r # unquote_body t"
proof -
  have "hex4 (hex_digit (r div 4096 mod 16) # hex_digit (r div 256 mod 16) # hex_digit (r div 16 mod 16) #
      hex_digit (r mod 16) # t) = Some r"
    using assms by simp
  then show ?thesis
    unfolding escape_u_def append_Cons append_Nil by (rule unquote_u [OF _ assms])
qed

lemma unquote_simple:
  assumes "simple_escape e = Some x" and "e \<noteq> CHR ''u''"
  shows "unquote_body (CHR 0x5C # e # t) = x # unquote_body t"
  using assms by simp

lemma unquote_plain: "byte c < 0x80 \<Longrightarrow> c \<noteq> CHR 0x5C \<Longrightarrow> unquote_body (c # t) = c # unquote_body t"
  by simp

lemma unquote_escape_ascii:
  assumes "byte c < 0x80"
  shows "unquote_body (escape_ascii c @ t) = c # unquote_body t"
proof -
  have "char_of (byte c) = c" by (simp add: byte_def)
  with unquote_escape_u [OF assms, of t]
  have u: "unquote_body (escape_u (byte c) @ t) = c # unquote_body t" by simp
  show ?thesis
    unfolding escape_ascii_def
    by (simp add: u unquote_simple simple_escape_def unquote_plain [OF assms] del: unquote_body.simps(2))
qed

lemma unquote_quote_body: "ascii s \<Longrightarrow> unquote_body (quote_body s) = s"
  by (induction s) (simp_all add: ascii_def unquote_escape_ascii del: unquote_body.simps(2))

text \<open>json.Unmarshal of the text json.Marshal writes for an ASCII string is the string.\<close>

lemma unquote_quote_string [simp]: "ascii s \<Longrightarrow> unquote_string (quote_string s) = s"
  by (simp add: unquote_string_def quote_string_def unquote_quote_body)

end
