(* ===== verification/Rpc_Errors.thy ===== *)
theory Rpc_Errors
  imports Json_Text
begin

text \<open>
  The error values of the package: the types and sentinels of errors.go, client.go and
  subscription.go and the jsonError of json.go, as one datatype \<open>goerr\<close>. \<open>ErrorString\<close>,
  \<open>ErrorCode\<close> and \<open>ErrorData\<close> are the methods of the interfaces error, Error and DataError; the
  last two return \<open>None\<close> for a type that does not have the method, so that they also are the
  type assertions \<^verbatim>\<open>err.(Error)\<close> and \<^verbatim>\<open>err.(DataError)\<close>. \<open>errors_Is\<close> is errors.Is of the standard library.

  \<open>goval\<close> is the universe of Go values that travel through interface{}: the ones the package
  itself creates, decoded JSON, zero values of a reflected type and values of the user's types,
  which are opaque.
\<close>

section \<open>Values\<close>

datatype goval =
    GoNil
  | GoBool bool
  | GoStr string
  | GoMap "(string \<times> string) list"
  | GoSub string
  | GoJSON json
  | GoZero nat
  | GoOpaque nat

section \<open>Error types\<close>

record jsonError =
  Code :: int
  Message :: string
  Data :: goval

definition errcodeDefault :: int where "errcodeDefault = -32000"
definition errcodeTimeout :: int where "errcodeTimeout = -32002"
definition errcodeResponseTooLarge :: int where "errcodeResponseTooLarge = -32003"
definition errcodePanic :: int where "errcodePanic = -32603"
definition errcodeMarshalError :: int where "errcodeMarshalError = -32603"
definition legacyErrcodeNotificationsUnsupported :: int where
  "legacyErrcodeNotificationsUnsupported = -32001"

definition errMsgTimeout :: string where "errMsgTimeout = ''request timed out''"
definition errMsgResponseTooLarge :: string where "errMsgResponseTooLarge = ''response too large''"
definition errMsgBatchTooLarge :: string where "errMsgBatchTooLarge = ''batch too large''"

lemmas errcode_defs = errcodeDefault_def errcodeTimeout_def errcodeResponseTooLarge_def
  errcodePanic_def errcodeMarshalError_def legacyErrcodeNotificationsUnsupported_def
  errMsgTimeout_def errMsgResponseTooLarge_def errMsgBatchTooLarge_def

text \<open>The last constructors are errors of the packages the code calls: io.EOF, the errors of
  package context, net.Error values (with their Timeout flag), json.SyntaxError, HTTPError, other
  errors with just a text, and errors of user code, which may carry a code and data.\<close>

datatype goerr =
    MethodNotFoundError string
  | NotificationsUnsupportedError
  | SubscriptionNotFoundError string string
  | ParseError string
  | InvalidRequestError string
  | InvalidMessageError string
  | InvalidParamsError string
  | InternalServerError int string
  | JsonErr jsonError
  | ErrSubscriptionNotFound
  | ErrBadResult
  | ErrClientQuit
  | ErrNoResult
  | ErrMissingBatchResponse
  | ErrSubscriptionQueueOverflow
  | ErrClientReconnected
  | ErrDead
  | ErrUnsubscribed
  | IoEOF
  | CtxCanceled
  | CtxDeadlineExceeded
  | NetErr bool string
  | SyntaxErr string
  | HTTPError int string string
  | PlainErr string
  | UserErr string "int option" "goval option"

section \<open>Their methods\<close>

text \<open>The verb \<^verbatim>\<open>%q\<close> of package fmt. A code point outside ASCII that is not printable is
  escaped by the library and kept here.\<close>

definition quote_q_char :: "char \<Rightarrow> string" where
  "quote_q_char c =
     (if c = CHR 0x22 then [CHR 0x5C, CHR 0x22] else if c = CHR 0x5C then [CHR 0x5C, CHR 0x5C]
      else if c = CHR 0x07 then [CHR 0x5C, CHR ''a''] else if c = CHR 0x08 then [CHR 0x5C, CHR ''b'']
      else if c = CHR 0x0C then [CHR 0x5C, CHR ''f''] else if c = CHR 0x0A then [CHR 0x5C, CHR ''n'']
      else if c = CHR 0x0D then [CHR 0x5C, CHR ''r''] else if c = CHR 0x09 then [CHR 0x5C, CHR ''t'']
      else if c = CHR 0x0B then [CHR 0x5C, CHR ''v'']
      else if byte c < 0x20 \<or> byte c = 0x7F
      then [CHR 0x5C, CHR ''x'', hex_digit (byte c div 16), hex_digit (byte c mod 16)]
      else [c])"

definition fmt_q :: "string \<Rightarrow> string" where
  "fmt_q s = CHR 0x22 # concat (map quote_q_char s) @ [CHR 0x22]"

definition jsonError_Error :: "jsonError \<Rightarrow> string" where
  "jsonError_Error e =
     (if Message e = '''' then ''json-rpc error '' @ strconv_Itoa (Code e) else Message e)"

definition HTTPError_Error :: "string \<Rightarrow> string \<Rightarrow> string" where
  "HTTPError_Error status body = (if body = '''' then status else status @ '': '' @ body)"

fun ErrorString :: "goerr \<Rightarrow> string" where
  "ErrorString (MethodNotFoundError m) = ''the method '' @ m @ '' does not exist/is not available''"
| "ErrorString NotificationsUnsupportedError = ''notifications not supported''"
| "ErrorString (SubscriptionNotFoundError ns sub) = ''no '' @ fmt_q sub @ '' subscription in '' @ ns @ '' namespace''"
| "ErrorString (ParseError m) = m"
| "ErrorString (InvalidRequestError m) = m"
| "ErrorString (InvalidMessageError m) = m"
| "ErrorString (InvalidParamsError m) = m"
| "ErrorString (InternalServerError _ m) = m"
| "ErrorString (JsonErr e) = jsonError_Error e"
| "ErrorString ErrSubscriptionNotFound = ''subscription not found''"
| "ErrorString ErrBadResult = ''bad result in JSON-RPC response''"
| "ErrorString ErrClientQuit = ''client is closed''"
| "ErrorString ErrNoResult = ''JSON-RPC response has no result''"
| "ErrorString ErrMissingBatchResponse = ''response batch did not contain a response to this call''"
| "ErrorString ErrSubscriptionQueueOverflow = ''subscription queue overflow''"
| "ErrorString ErrClientReconnected = ''client reconnected''"
| "ErrorString ErrDead = ''connection lost''"
| "ErrorString ErrUnsubscribed = ''unsubscribed''"
| "ErrorString IoEOF = ''EOF''"
| "ErrorString CtxCanceled = ''context canceled''"
| "ErrorString CtxDeadlineExceeded = ''context deadline exceeded''"
| "ErrorString (NetErr _ m) = m"
| "ErrorString (SyntaxErr m) = m"
| "ErrorString (HTTPError _ status body) = HTTPError_Error status body"
| "ErrorString (PlainErr m) = m"
| "ErrorString (UserErr m _ _) = m"

fun ErrorCode :: "goerr \<Rightarrow> int option" where
  "ErrorCode (MethodNotFoundError _) = Some (-32601)"
| "ErrorCode NotificationsUnsupportedError = Some (-32601)"
| "ErrorCode (SubscriptionNotFoundError _ _) = Some (-32601)"
| "ErrorCode (ParseError _) = Some (-32700)"
| "ErrorCode (InvalidRequestError _) = Some (-32600)"
| "ErrorCode (InvalidMessageError _) = Some (-32700)"
| "ErrorCode (InvalidParamsError _) = Some (-32602)"
| "ErrorCode (InternalServerError c _) = Some c"
| "ErrorCode (JsonErr e) = Some (Code e)"
| "ErrorCode (UserErr _ c _) = c"
| "ErrorCode _ = None"

fun ErrorData :: "goerr \<Rightarrow> goval option" where
  "ErrorData (JsonErr e) = Some (Data e)"
| "ErrorData (UserErr _ _ d) = d"
| "ErrorData _ = None"

text \<open>notificationsUnsupportedError.Is, a method of that type alone.\<close>

definition notificationsUnsupportedError_Is :: "goerr \<Rightarrow> bool" where
  "notificationsUnsupportedError_Is other =
     (if other = NotificationsUnsupportedError then True
      else case ErrorCode other of
        Some code \<Rightarrow> code = -32601 \<or> code = legacyErrcodeNotificationsUnsupported
      | None \<Rightarrow> False)"

text \<open>errors.Is compares the error with the target and then asks the Is method of the error,
  not that of the target. No error of the package but notificationsUnsupportedError has one, and
  none of \<open>goerr\<close> wraps another error.\<close>

definition errors_Is :: "goerr \<Rightarrow> goerr \<Rightarrow> bool" where
  "errors_Is err target \<longleftrightarrow>
     err = target \<or> err = NotificationsUnsupportedError \<and> notificationsUnsupportedError_Is target"

section \<open>Properties\<close>

text \<open>The documented test for a server without subscriptions does not work: an error response with code -32601 satisfies the method Is of the
  sentinel, but errors.Is asks the method of the error and not that of the sentinel, so that only the sentinel itself is recognised.\<close>

theorem errors_Is_server_error:
  "(errors_Is err NotificationsUnsupportedError \<longleftrightarrow> err = NotificationsUnsupportedError) \<and>
   notificationsUnsupportedError_Is (JsonErr \<lparr>Code = -32601, Message = m, Data = d\<rparr>) \<and>
   \<not> errors_Is (JsonErr \<lparr>Code = -32601, Message = m, Data = d\<rparr>) NotificationsUnsupportedError"
  by (auto simp: errors_Is_def notificationsUnsupportedError_Is_def)

end
