(* ===== verification/Rpc_Message.thy ===== *)
theory Rpc_Message
  imports Rpc_Errors "HOL-Library.Char_ord" "HOL-Library.List_Lexorder"
begin

text \<open>
  json.go: the JSON-RPC message, its classification, the construction of responses, the parsing
  of incoming messages and of positional arguments, and the once-only close of jsonCodec.

  The user's types are a parameter, the record \<open>usertypes\<close>: how json.Marshal encodes a value of
  such a type and how a decoder fills one. Everything the package itself encodes or decodes is
  defined here.
\<close>

section \<open>Messages\<close>

record jsonrpcMessage =
  Version :: string
  ID :: raw_message
  Method :: string
  Params :: raw_message
  Error :: "jsonError option"
  Result :: raw_message

definition new_jsonrpcMessage :: jsonrpcMessage where
  "new_jsonrpcMessage =
     \<lparr>Version = '''', ID = None, Method = '''', Params = None, Error = None, Result = None\<rparr>"

definition vsn :: string where "vsn = ''2.0''"
definition serviceMethodSeparator :: string where "serviceMethodSeparator = ''_''"
definition subscribeMethodSuffix :: string where "subscribeMethodSuffix = ''_subscribe''"
definition unsubscribeMethodSuffix :: string where "unsubscribeMethodSuffix = ''_unsubscribe''"
definition notificationMethodSuffix :: string where "notificationMethodSuffix = ''_subscription''"

lemmas method_name_defs = serviceMethodSeparator_def subscribeMethodSuffix_def
  unsubscribeMethodSuffix_def notificationMethodSuffix_def

definition hasValidVersion :: "jsonrpcMessage \<Rightarrow> bool" where
  "hasValidVersion msg \<longleftrightarrow> Version msg = vsn"

definition hasValidID :: "jsonrpcMessage \<Rightarrow> bool" where
  "hasValidID msg =
     (case raw_string (ID msg) of [] \<Rightarrow> False | c # _ \<Rightarrow> c \<noteq> CHR ''{'' \<and> c \<noteq> CHR ''['')"

definition isNotification :: "jsonrpcMessage \<Rightarrow> bool" where
  "isNotification msg \<longleftrightarrow> hasValidVersion msg \<and> ID msg = None \<and> Method msg \<noteq> ''''"

definition isCall :: "jsonrpcMessage \<Rightarrow> bool" where
  "isCall msg \<longleftrightarrow> hasValidVersion msg \<and> hasValidID msg \<and> Method msg \<noteq> ''''"

definition isResponse :: "jsonrpcMessage \<Rightarrow> bool" where
  "isResponse msg \<longleftrightarrow>
     hasValidVersion msg \<and> hasValidID msg \<and> Method msg = '''' \<and> Params msg = None \<and>
     (Result msg \<noteq> None \<or> Error msg \<noteq> None)"

definition isSubscribe :: "jsonrpcMessage \<Rightarrow> bool" where
  "isSubscribe msg \<longleftrightarrow> strings_HasSuffix (Method msg) subscribeMethodSuffix"

definition isUnsubscribe :: "jsonrpcMessage \<Rightarrow> bool" where
  "isUnsubscribe msg \<longleftrightarrow> strings_HasSuffix (Method msg) unsubscribeMethodSuffix"

definition namespace_of :: "jsonrpcMessage \<Rightarrow> string" where
  "namespace_of msg = fst (strings_Cut (Method msg) serviceMethodSeparator)"

lemmas msg_class_defs = isNotification_def isCall_def isResponse_def hasValidVersion_def hasValidID_def

section \<open>The user's types\<close>

text \<open>Reflected types, as far as the package inspects them: a type of kind string with its
  name, context.Context, the interface error, rpc.Subscription, a pointer, and any other type.
  The flag of the last two tells whether the type implements error.\<close>

datatype rtype =
    TStr string
  | TContext
  | TError
  | TSubscription
  | TPtr rtype bool
  | TOther nat bool

fun is_ptr :: "rtype \<Rightarrow> bool" where
  "is_ptr (TPtr _ _) = True"
| "is_ptr _ = False"

record usertypes =
  user_marshal :: "goval \<Rightarrow> string + json"
  user_unmarshal :: "rtype \<Rightarrow> json \<Rightarrow> string + goval"

section \<open>Encoding\<close>

text \<open>A map[string]string is an object with its keys in order.\<close>

definition marshal_member :: "string \<times> string \<Rightarrow> string" where
  "marshal_member kv = quote_string (fst kv) @ '':'' @ quote_string (snd kv)"

fun join_comma :: "string list \<Rightarrow> string" where
  "join_comma [] = []"
| "join_comma [s] = s"
| "join_comma (s # t # ts) = s @ '','' @ join_comma (t # ts)"

definition marshal_map :: "(string \<times> string) list \<Rightarrow> json" where
  "marshal_map m =
     (let kvs = sort_key fst m in
      JObj (''{'' @ join_comma (map marshal_member kvs) @ ''}'')
        (map (\<lambda>kv. (quote_string (fst kv), JStr (quote_string (snd kv)))) kvs))"

definition json_Marshal :: "usertypes \<Rightarrow> goval \<Rightarrow> string + json" where
  "json_Marshal ut v =
     (case v of
        GoNil \<Rightarrow> Inr JNull
      | GoBool b \<Rightarrow> Inr (JBool b)
      | GoStr s \<Rightarrow> Inr (JStr (quote_string s))
      | GoSub subid \<Rightarrow> Inr (JStr (quote_string subid))
      | GoMap m \<Rightarrow> Inr (marshal_map m)
      | _ \<Rightarrow> user_marshal ut v)"

section \<open>Responses\<close>

definition errorMessage :: "goerr \<Rightarrow> jsonrpcMessage" where
  "errorMessage err =
     (let e0 = \<lparr>Code = errcodeDefault, Message = ErrorString err, Data = GoNil\<rparr>;
          e1 = (case ErrorCode err of Some c \<Rightarrow> e0\<lparr>Code := c\<rparr> | None \<Rightarrow> e0);
          e2 = (case ErrorData err of Some d \<Rightarrow> e1\<lparr>Data := d\<rparr> | None \<Rightarrow> e1)
      in new_jsonrpcMessage\<lparr>Version := vsn, ID := Some JNull, Error := Some e2\<rparr>)"

definition errorResponse :: "jsonrpcMessage \<Rightarrow> goerr \<Rightarrow> jsonrpcMessage" where
  "errorResponse msg err = (errorMessage err)\<lparr>ID := ID msg\<rparr>"

definition response :: "usertypes \<Rightarrow> jsonrpcMessage \<Rightarrow> goval \<Rightarrow> jsonrpcMessage" where
  "response ut msg result =
     (case json_Marshal ut result of
        Inl err \<Rightarrow> errorResponse msg (InternalServerError errcodeMarshalError err)
      | Inr enc \<Rightarrow> new_jsonrpcMessage\<lparr>Version := vsn, ID := ID msg, Result := Some enc\<rparr>)"

section \<open>Decoding messages\<close>

text \<open>Field names are matched without regard to case; U+017F and U+212A fold to s and k.\<close>

fun fold_name :: "string \<Rightarrow> string" where
  "fold_name [] = []"
| "fold_name (c # cs) =
     (if strings_HasPrefix (c # cs) [CHR 0xC5, CHR 0xBF] then CHR ''S'' # fold_name (drop 1 cs)
      else if strings_HasPrefix (c # cs) [CHR 0xE2, CHR 0x84, CHR 0xAA] then CHR ''K'' # fold_name (drop 2 cs)
      else (if in_range 97 122 (byte c) then char_of (byte c - 32) else c) # fold_name cs)"

definition field_matches :: "string \<Rightarrow> string \<Rightarrow> bool" where
  "field_matches keylit name \<longleftrightarrow> fold_name (unquote_string keylit) = fold_name name"

text \<open>Decoding into a string field: null has no effect, another kind of value is a type error
  that leaves the field alone.\<close>

definition decode_string :: "string \<Rightarrow> json \<Rightarrow> string" where
  "decode_string old j = (case j of JStr lit \<Rightarrow> unquote_string lit | _ \<Rightarrow> old)"

text \<open>strconv.ParseInt of a number literal into a 64-bit int.\<close>

definition parse_int64 :: "string \<Rightarrow> int option" where
  "parse_int64 lit =
     (let neg = strings_HasPrefix lit ''-''; ds = (if neg then drop 1 lit else lit);
          v = (if neg then - int (dec_val ds) else int (dec_val ds))
      in if ds \<noteq> [] \<and> list_all is_digit ds \<and> - (2 ^ 63) \<le> v \<and> v < 2 ^ 63 then Some v else None)"

definition decode_int :: "int \<Rightarrow> json \<Rightarrow> int" where
  "decode_int old j =
     (case j of JNum lit \<Rightarrow> (case parse_int64 lit of Some i \<Rightarrow> i | None \<Rightarrow> old) | _ \<Rightarrow> old)"

definition decode_any :: "json \<Rightarrow> goval" where
  "decode_any j = (if j = JNull then GoNil else GoJSON j)"

definition decode_error_member :: "string \<times> json \<Rightarrow> jsonError \<Rightarrow> jsonError" where
  "decode_error_member kv e =
     (if field_matches (fst kv) ''code'' then e\<lparr>Code := decode_int (Code e) (snd kv)\<rparr>
      else if field_matches (fst kv) ''message'' then e\<lparr>Message := decode_string (Message e) (snd kv)\<rparr>
      else if field_matches (fst kv) ''data'' then e\<lparr>Data := decode_any (snd kv)\<rparr>
      else e)"

definition new_jsonError :: jsonError where
  "new_jsonError = \<lparr>Code = 0, Message = '''', Data = GoNil\<rparr>"

text \<open>Decoding into a *jsonError: null clears the pointer; any other value allocates the struct
  if there is none, even when it then turns out to have the wrong kind.\<close>

definition decode_jsonError :: "jsonError option \<Rightarrow> json \<Rightarrow> jsonError option" where
  "decode_jsonError old j =
     (let e = (case old of Some e \<Rightarrow> e | None \<Rightarrow> new_jsonError) in
      case j of
        JNull \<Rightarrow> None
      | JObj _ kvs \<Rightarrow> Some (fold decode_error_member kvs e)
      | _ \<Rightarrow> Some e)"

definition decode_member :: "string \<times> json \<Rightarrow> jsonrpcMessage \<Rightarrow> jsonrpcMessage" where
  "decode_member kv m =
     (if field_matches (fst kv) ''jsonrpc'' then m\<lparr>Version := decode_string (Version m) (snd kv)\<rparr>
      else if field_matches (fst kv) ''id'' then m\<lparr>ID := Some (snd kv)\<rparr>
      else if field_matches (fst kv) ''method'' then m\<lparr>Method := decode_string (Method m) (snd kv)\<rparr>
      else if field_matches (fst kv) ''params'' then m\<lparr>Params := Some (snd kv)\<rparr>
      else if field_matches (fst kv) ''error'' then m\<lparr>Error := decode_jsonError (Error m) (snd kv)\<rparr>
      else if field_matches (fst kv) ''result'' then m\<lparr>Result := Some (snd kv)\<rparr>
      else m)"

text \<open>Decoding into a *jsonrpcMessage that points to a zero message; \<^const>\<open>None\<close> is the nil pointer.\<close>

definition decode_message :: "json \<Rightarrow> jsonrpcMessage option" where
  "decode_message j =
     (case j of
        JNull \<Rightarrow> None
      | JObj _ kvs \<Rightarrow> Some (fold decode_member kvs new_jsonrpcMessage)
      | _ \<Rightarrow> Some new_jsonrpcMessage)"

fun isBatch :: "string \<Rightarrow> bool" where
  "isBatch [] = False"
| "isBatch (c # cs) =
     (if c = CHR 0x20 \<or> c = CHR 0x09 \<or> c = CHR 0x0A \<or> c = CHR 0x0D then isBatch cs else c = CHR ''['')"

definition array_elems :: "json \<Rightarrow> json list" where
  "array_elems j = (case j of JArr _ es \<Rightarrow> es | _ \<Rightarrow> [])"

definition parseMessage :: "json \<Rightarrow> jsonrpcMessage option list \<times> bool" where
  "parseMessage raw =
     (if \<not> isBatch (raw_of raw) then ([decode_message raw], False)
      else (map decode_message (array_elems raw), True))"

text \<open>jsonCodec.readBatch on what the decoder of the codec returned.\<close>

definition readBatch :: "goerr + json \<Rightarrow> goerr + jsonrpcMessage list \<times> bool" where
  "readBatch dec =
     (case dec of
        Inl err \<Rightarrow> Inl err
      | Inr rawmsg \<Rightarrow>
          (case parseMessage rawmsg of
             (messages, batch) \<Rightarrow>
               Inr (map (\<lambda>m. case m of None \<Rightarrow> new_jsonrpcMessage | Some msg \<Rightarrow> msg) messages, batch)))"

section \<open>Decoding arguments\<close>

fun json_kind :: "json \<Rightarrow> string" where
  "json_kind JNull = ''null''"
| "json_kind (JBool _) = ''bool''"
| "json_kind (JNum _) = ''number''"
| "json_kind (JStr _) = ''string''"
| "json_kind (JArr _ _) = ''array''"
| "json_kind (JObj _ _) = ''object''"

text \<open>Decoder.Decode into a new value of a type: null sets a pointer to nil and leaves a string
  at its zero value.\<close>

definition json_Unmarshal :: "usertypes \<Rightarrow> rtype \<Rightarrow> json \<Rightarrow> string + goval" where
  "json_Unmarshal ut t j =
     (case t of
        TStr name \<Rightarrow>
          (case j of
             JStr lit \<Rightarrow> Inr (GoStr (unquote_string lit))
           | JNull \<Rightarrow> Inr (GoStr '''')
           | _ \<Rightarrow> Inl (''json: cannot unmarshal '' @ json_kind j @ '' into Go value of type '' @ name))
      | TPtr _ _ \<Rightarrow> (if j = JNull then Inr GoNil else user_unmarshal ut t j)
      | _ \<Rightarrow> user_unmarshal ut t j)"

text \<open>reflect.New returns a non-nil pointer, so IsNil on it is false.\<close>

definition argval_IsNil :: bool where
  "argval_IsNil = False"

fun parseArgumentArray ::
    "usertypes \<Rightarrow> rtype list \<Rightarrow> nat \<Rightarrow> json list \<Rightarrow> goval list \<Rightarrow> string + goval list" where
  "parseArgumentArray ut types i [] args = Inr args"
| "parseArgumentArray ut types i (j # js) args =
     (if length types \<le> i then Inl (''too many arguments, want at most '' @ dec_digits (length types))
      else case json_Unmarshal ut (types ! i) j of
        Inl err \<Rightarrow> Inl (''invalid argument '' @ dec_digits i @ '': '' @ err)
      | Inr v \<Rightarrow>
          (if argval_IsNil \<and> \<not> is_ptr (types ! i)
           then Inl (''missing value for required argument '' @ dec_digits i)
           else parseArgumentArray ut types (Suc i) js (args @ [v])))"

text \<open>The loop that sets missing arguments to nil; its list is the types that are left.\<close>

fun fillMissing :: "nat \<Rightarrow> rtype list \<Rightarrow> goval list \<Rightarrow> string + goval list" where
  "fillMissing i [] args = Inr args"
| "fillMissing i (t # ts) args =
     (if \<not> is_ptr t then Inl (''missing value for required argument '' @ dec_digits i)
      else fillMissing (Suc i) ts (args @ [GoNil]))"

definition parsePositionalArguments :: "usertypes \<Rightarrow> raw_message \<Rightarrow> rtype list \<Rightarrow> string + goval list" where
  "parsePositionalArguments ut rawArgs types =
     (let parsed =
        (case rawArgs of
           None \<Rightarrow> Inr []
         | Some JNull \<Rightarrow> Inr []
         | Some (JArr _ es) \<Rightarrow> parseArgumentArray ut types 0 es []
         | Some _ \<Rightarrow> Inl ''non-array args'')
      in case parsed of
           Inl err \<Rightarrow> Inl err
         | Inr args \<Rightarrow> fillMissing (length args) (drop (length args) types) args)"

definition parseSubscriptionName :: "raw_message \<Rightarrow> string + string" where
  "parseSubscriptionName rawArgs =
     (case rawArgs of
        Some (JArr _ es) \<Rightarrow>
          (case es of
             JStr lit # _ \<Rightarrow> Inr (unquote_string lit)
           | _ \<Rightarrow> Inl ''expected subscription name as first argument'')
      | _ \<Rightarrow> Inl ''non-array args'')"

section \<open>The codec\<close>

text \<open>jsonCodec: the once guard of close, the channel close closes, how often the connection was
  closed and the write deadline of the connection, in nanoseconds.\<close>

record jsonCodec =
  remote :: string
  closer_done :: bool
  closeCh :: "unit chan"
  conn_closes :: nat
  write_deadline :: int

definition NewFuncCodec :: "string option \<Rightarrow> jsonCodec" where
  "NewFuncCodec remoteAddr =
     \<lparr>remote = (case remoteAddr of Some r \<Rightarrow> r | None \<Rightarrow> ''''), closer_done = False,
      closeCh = make_chan 0, conn_closes = 0, write_deadline = 0\<rparr>"

definition codec_close :: "jsonCodec \<Rightarrow> jsonCodec option" where
  "codec_close c =
     (if closer_done c then Some c
      else do { ch \<leftarrow> chan_close (closeCh c);
                Some (c\<lparr>closer_done := True, closeCh := ch, conn_closes := Suc (conn_closes c)\<rparr>) })"

definition defaultWriteTimeout :: int where
  "defaultWriteTimeout = 10 * 1000000000"

text \<open>jsonCodec.writeJSON with the encoder as a parameter: the deadline of the context, or the
  default one, is set before the value is encoded.\<close>

definition codec_writeJSON ::
    "('v \<Rightarrow> bool \<Rightarrow> 'e option) \<Rightarrow> int option \<Rightarrow> int \<Rightarrow> 'v \<Rightarrow> bool \<Rightarrow> jsonCodec \<Rightarrow> 'e option \<times> jsonCodec" where
  "codec_writeJSON encode ctxDeadline now v isErrorResponse c =
     (let deadline = (case ctxDeadline of Some d \<Rightarrow> d | None \<Rightarrow> now + defaultWriteTimeout)
      in (encode v isErrorResponse, c\<lparr>write_deadline := deadline\<rparr>))"

section \<open>Classification\<close>

text \<open>No message is two of notification, call and response at once.\<close>

lemma message_classes_disjoint:
  "\<not> (isNotification m \<and> isCall m)" "\<not> (isNotification m \<and> isResponse m)" "\<not> (isCall m \<and> isResponse m)"
  by (auto simp: msg_class_defs raw_string_def split: option.splits)

lemma hasValidID_Some: "hasValidID m \<Longrightarrow> \<exists>j. ID m = Some j \<and> raw_of j \<noteq> []"
  by (auto simp: hasValidID_def raw_string_def split: option.splits list.splits)

lemma isNotification_ID [simp]: "isNotification m \<Longrightarrow> ID m = None"
  by (simp add: isNotification_def)

lemma isCall_notNotification [simp]: "isCall m \<Longrightarrow> \<not> isNotification m"
  using message_classes_disjoint(1) by blast

section \<open>Responses\<close>

lemma errorMessage_fields [simp]:
  "Version (errorMessage err) = vsn" "ID (errorMessage err) = Some JNull" "Method (errorMessage err) = ''''"
  "Params (errorMessage err) = None" "Result (errorMessage err) = None" "Error (errorMessage err) \<noteq> None"
  by (simp_all add: errorMessage_def new_jsonrpcMessage_def Let_def)

lemma errorResponse_fields [simp]:
  "Version (errorResponse m err) = vsn" "ID (errorResponse m err) = ID m" "Method (errorResponse m err) = ''''"
  "Params (errorResponse m err) = None" "Result (errorResponse m err) = None"
  "Error (errorResponse m err) = Error (errorMessage err)"
  by (simp_all add: errorResponse_def)

lemma errorMessage_Error:
  "Error (errorMessage err) =
     Some \<lparr>Code = (case ErrorCode err of Some c \<Rightarrow> c | None \<Rightarrow> errcodeDefault), Message = ErrorString err,
           Data = (case ErrorData err of Some d \<Rightarrow> d | None \<Rightarrow> GoNil)\<rparr>"
  by (simp add: errorMessage_def Let_def split: option.splits)

lemma response_fields [simp]:
  "Version (response ut m v) = vsn" "ID (response ut m v) = ID m" "Method (response ut m v) = ''''"
  "Params (response ut m v) = None"
  by (simp_all add: response_def new_jsonrpcMessage_def split: sum.splits)

lemma response_Result_or_Error: "Result (response ut m v) \<noteq> None \<or> Error (response ut m v) \<noteq> None"
  by (simp add: response_def new_jsonrpcMessage_def errorMessage_Error split: sum.splits)

lemma response_hasError_iff: "Error (response ut m v) \<noteq> None \<longleftrightarrow> (\<exists>e. json_Marshal ut v = Inl e)"
  by (auto simp: response_def new_jsonrpcMessage_def errorMessage_Error split: sum.splits)

lemma hasValidID_cong: "ID a = ID b \<Longrightarrow> hasValidID a = hasValidID b"
  by (simp add: hasValidID_def)

lemma isResponse_errorResponse: "hasValidID m \<Longrightarrow> isResponse (errorResponse m err)"
  using hasValidID_cong [of "errorResponse m err" m] by (simp add: isResponse_def hasValidVersion_def)

lemma isResponse_response: "hasValidID m \<Longrightarrow> isResponse (response ut m v)"
  using hasValidID_cong [of "response ut m v" m] response_Result_or_Error [of ut m v]
  by (simp add: isResponse_def hasValidVersion_def)

lemma isResponse_errorMessage: "isResponse (errorMessage err)"
  by (simp add: isResponse_def hasValidVersion_def hasValidID_def raw_string_def)

section \<open>Batches\<close>

lemma isBatch_hd: "s \<noteq> [] \<Longrightarrow> \<not> is_space (hd s) \<Longrightarrow> isBatch s \<longleftrightarrow> hd s = CHR ''[''"
  by (cases s) (auto simp: is_space_def)

text \<open>The first byte of a decoded value tells arrays from the rest.\<close>

lemma scan_number_hd: "scan_number (c # cs) = Some (lit, rest) \<Longrightarrow> c = CHR ''-'' \<or> is_digit c"
  by (auto simp: scan_number_def scan_int_def scan_digits1_def span_def HasPrefix1 bind_eq_Some_conv Let_def
      is_digit_def byte_def in_range_def split: if_splits prod.splits)

lemma parse_value_hd:
  assumes "parse_value n (c # cs) = Some (j, rest)"
  shows "hd (raw_of j) = c" and "\<not> is_space c"
    and "c = CHR ''['' \<longleftrightarrow> (\<exists>raw es. j = JArr raw es)"
proof -
  obtain k where n: "n = Suc k" using assms by (cases n) auto
  show "hd (raw_of j) = c"
    using parse_suffix(1) [OF assms] by (metis hd_append2 list.sel(1))
  show "\<not> is_space c"
    using assms scan_number_hd [of c cs]
    by (auto simp: n is_space_def is_digit_def byte_def in_range_def)
  show "c = CHR ''['' \<longleftrightarrow> (\<exists>raw es. j = JArr raw es)"
    using assms
    by (auto simp: n bind_eq_Some_conv scan_literal_def split: list.splits if_splits)
qed

lemma isBatch_iff_array:
  assumes "json_parse s = Some (j, rest)"
  shows "isBatch (raw_of j) \<longleftrightarrow> (\<exists>raw es. j = JArr raw es)"
proof -
  obtain c cs where c: "skip_ws s = c # cs"
    using assms by (cases "skip_ws s") (auto simp: json_parse_def)
  have p: "parse_value (Suc (2 * length s)) (c # cs) = Some (j, rest)"
    using assms c by (simp only: json_parse_def)
  show ?thesis
    using parse_value_hd [OF p] parse_suffix(1) [OF p] isBatch_hd [of "raw_of j"] by simp
qed

lemma readBatch_single: "readBatch d = Inr (msgs, False) \<Longrightarrow> length msgs = 1"
  by (auto simp: readBatch_def parseMessage_def split: sum.splits if_splits)

section \<open>Arguments\<close>

text \<open>The reference: every element decodes at its type, there are not more elements than types,
  and the types left over are pointers.\<close>

definition args_ok :: "usertypes \<Rightarrow> json list \<Rightarrow> rtype list \<Rightarrow> goval list \<Rightarrow> bool" where
  "args_ok ut es types vs \<longleftrightarrow>
     length es \<le> length types \<and> length vs = length types \<and>
     (\<forall>i < length es. json_Unmarshal ut (types ! i) (es ! i) = Inr (vs ! i)) \<and>
     (\<forall>i < length types. length es \<le> i \<longrightarrow> is_ptr (types ! i) \<and> vs ! i = GoNil)"

lemma parseArgumentArray_append:
  "parseArgumentArray ut types i js args =
     (case parseArgumentArray ut types i js [] of Inl e \<Rightarrow> Inl e | Inr vs \<Rightarrow> Inr (args @ vs))"
proof (induction js arbitrary: i args)
  case (Cons j js)
  have IH: "parseArgumentArray ut types (Suc i) js (args @ [v]) =
      (case parseArgumentArray ut types (Suc i) js [v] of Inl e \<Rightarrow> Inl e | Inr vs \<Rightarrow> Inr (args @ vs))" for v
    using Cons.IH [of "Suc i" "args @ [v]"] Cons.IH [of "Suc i" "[v]"] by (simp split: sum.splits)
  show ?case by (simp add: IH argval_IsNil_def split: sum.splits)
qed simp

lemma parseArgumentArray_Inr_iff:
  "parseArgumentArray ut types i js [] = Inr vs \<longleftrightarrow>
     length vs = length js \<and> (\<forall>k < length js. i + k < length types \<and>
       json_Unmarshal ut (types ! (i + k)) (js ! k) = Inr (vs ! k))"
proof (induction js arbitrary: i vs)
  case (Cons j js)
  have step: "parseArgumentArray ut types i (j # js) [] = Inr vs \<longleftrightarrow>
      i < length types \<and> (\<exists>v ws. json_Unmarshal ut (types ! i) j = Inr v \<and>
        parseArgumentArray ut types (Suc i) js [] = Inr ws \<and> vs = v # ws)"
    using parseArgumentArray_append [of ut types "Suc i" js "[x]" for x]
    by (auto simp: argval_IsNil_def not_le split: sum.splits)
  show ?case
    unfolding step Cons.IH by (cases vs) (auto simp: All_less_Suc2)
qed auto

lemma fillMissing_Inr_iff:
  "fillMissing i ts args = Inr vs \<longleftrightarrow> list_all is_ptr ts \<and> vs = args @ replicate (length ts) GoNil"
  by (induction ts arbitrary: i args) (auto simp: replicate_append_same [symmetric])

lemma args_ok_iff:
  "args_ok ut es types vs \<longleftrightarrow>
     (\<exists>ws. parseArgumentArray ut types 0 es [] = Inr ws \<and> list_all is_ptr (drop (length es) types) \<and>
           vs = ws @ replicate (length types - length es) GoNil)"
proof
  assume ok: "args_ok ut es types vs"
  then have len: "length es \<le> length types" "length vs = length types" by (auto simp: args_ok_def)
  have "parseArgumentArray ut types 0 es [] = Inr (take (length es) vs)"
    using ok len by (auto simp: args_ok_def parseArgumentArray_Inr_iff)
  moreover have "list_all is_ptr (drop (length es) types)"
    using ok by (auto simp: args_ok_def list_all_length)
  moreover have "vs = take (length es) vs @ replicate (length types - length es) GoNil"
    using ok len by (intro nth_equalityI) (auto simp: args_ok_def nth_append)
  ultimately show "\<exists>ws. parseArgumentArray ut types 0 es [] = Inr ws \<and>
      list_all is_ptr (drop (length es) types) \<and> vs = ws @ replicate (length types - length es) GoNil"
    by blast
next
  assume "\<exists>ws. parseArgumentArray ut types 0 es [] = Inr ws \<and>
      list_all is_ptr (drop (length es) types) \<and> vs = ws @ replicate (length types - length es) GoNil"
  then obtain ws where ws: "length ws = length es"
      "\<And>k. k < length es \<Longrightarrow> k < length types \<and> json_Unmarshal ut (types ! k) (es ! k) = Inr (ws ! k)"
    and ptr: "list_all is_ptr (drop (length es) types)"
    and vs: "vs = ws @ replicate (length types - length es) GoNil"
    by (auto simp: parseArgumentArray_Inr_iff)
  have len: "length es \<le> length types"
    using ws(2) [of "length types"] by (metis linorder_not_less nat_less_le)
  have "is_ptr (types ! i)" if "i < length types" "length es \<le> i" for i
    using ptr that unfolding list_all_length
    by (metis add_diff_inverse_nat diff_less_mono length_drop linorder_not_less nth_drop len)
  then show "args_ok ut es types vs"
    using ws vs len by (auto simp: args_ok_def nth_append)
qed

text \<open>What parsePositionalArguments does on an argument array, on a missing or null params field
  and on any other value.\<close>

lemma parsePositionalArguments_array:
  "parsePositionalArguments ut (Some (JArr raw es)) types = Inr vs \<longleftrightarrow> args_ok ut es types vs"
proof -
  have "length ws = length es" if "parseArgumentArray ut types 0 es [] = Inr ws" for ws
    using that by (simp add: parseArgumentArray_Inr_iff)
  then show ?thesis
    by (auto simp: parsePositionalArguments_def args_ok_iff fillMissing_Inr_iff split: sum.splits)
qed

lemma parsePositionalArguments_absent:
  "parsePositionalArguments ut None types = Inr vs \<longleftrightarrow> args_ok ut [] types vs"
  "parsePositionalArguments ut (Some JNull) types = Inr vs \<longleftrightarrow> args_ok ut [] types vs"
  by (auto simp: parsePositionalArguments_def args_ok_iff fillMissing_Inr_iff)

definition params_elems :: "raw_message \<Rightarrow> json list option" where
  "params_elems r =
     (case r of None \<Rightarrow> Some [] | Some JNull \<Rightarrow> Some [] | Some (JArr _ es) \<Rightarrow> Some es | Some _ \<Rightarrow> None)"

lemma parsePositionalArguments_none:
  "params_elems r = None \<Longrightarrow> parsePositionalArguments ut r types = Inl ''non-array args''"
  by (auto simp: params_elems_def parsePositionalArguments_def split: option.splits json.splits)

lemma parsePositionalArguments_Inr_length:
  "parsePositionalArguments ut r types = Inr vs \<Longrightarrow> length vs = length types"
  by (cases "params_elems r")
    (auto simp: parsePositionalArguments_none parsePositionalArguments_array parsePositionalArguments_absent
       params_elems_def args_ok_def split: option.splits json.splits)

section \<open>Properties\<close>

text \<open>A message that arrives is at most one of notification, call and response, and each reply the
  server builds, a result or an error, is a response with the id of the request, which the
  peer's isResponse accepts whenever the request's id is valid.\<close>

theorem replies_are_responses:
  assumes "hasValidID msg"
  shows "isResponse (response ut msg v) \<and> ID (response ut msg v) = ID msg \<and>
         isResponse (errorResponse msg err) \<and> ID (errorResponse msg err) = ID msg \<and>
         \<not> isCall (response ut msg v) \<and> \<not> isNotification (errorResponse msg err)"
  using isResponse_response [OF assms, of ut v] isResponse_errorResponse [OF assms, of err]
    message_classes_disjoint(3) [of "response ut msg v"] message_classes_disjoint(2) [of "errorResponse msg err"]
  by simp

theorem replies_are_responses_witness:
  "hasValidID (new_jsonrpcMessage\<lparr>ID := Some (JNum ''7'')\<rparr>) \<and>
   isResponse (errorResponse (new_jsonrpcMessage\<lparr>ID := Some (JNum ''7'')\<rparr>) ErrNoResult)"
proof -
  have h: "hasValidID (new_jsonrpcMessage\<lparr>ID := Some (JNum ''7'')\<rparr>)"
    by (simp add: hasValidID_def raw_string_def)
  show ?thesis using h replies_are_responses [OF h] by blast
qed

text \<open>C32. parsePositionalArguments succeeds exactly when params is absent, null or an array, every
  element decodes at the type of its position, there are no more elements than parameters
  and every parameter without an element is a pointer; it then returns one value per
  parameter, with nil for the missing ones.\<close>

theorem parsePositionalArguments_correct:
  "parsePositionalArguments ut rawArgs types = Inr vs \<longleftrightarrow>
     (\<exists>es. params_elems rawArgs = Some es \<and> args_ok ut es types vs)"
  by (cases "params_elems rawArgs")
    (auto simp: parsePositionalArguments_none params_elems_def parsePositionalArguments_array
      parsePositionalArguments_absent split: option.splits json.splits)

text \<open>An explicit null is not rejected for a required string argument: the check for a missing
  value looks at the pointer reflect.New returned, which is never nil, so the method gets
  the zero value of the parameter.\<close>

theorem null_argument_accepted:
  "parsePositionalArguments ut (Some (JArr ''[null]'' [JNull])) [TStr ''string''] = Inr [GoStr '''']"
  by (simp add: parsePositionalArguments_def json_Unmarshal_def argval_IsNil_def)

text \<open>readBatch never returns a nil message, and a message that is not a batch comes back as
  exactly one message, so the callers' index 0 is in range; for a value the decoder read, the
  batch flag says that it is an array, with one message per element.\<close>

theorem readBatch_shape:
  assumes "json_parse s = Some (raw, rest)"
  shows "\<exists>msgs. readBatch (Inr raw) = Inr (msgs, \<exists>t es. raw = JArr t es) \<and>
           length msgs = (if \<exists>t es. raw = JArr t es then length (array_elems raw) else 1)"
  using isBatch_iff_array [OF assms] by (auto simp: readBatch_def parseMessage_def)

theorem readBatch_shape_witness:
  "json_parse '' [1,null] '' = Some (JArr ''[1,null]'' [JNum ''1'', JNull], '' '') \<and>
   (\<exists>msgs. readBatch (Inr (JArr ''[1,null]'' [JNum ''1'', JNull])) = Inr (msgs, True) \<and> length msgs = 2)"
proof -
  have p: "json_parse '' [1,null] '' = Some (JArr ''[1,null]'' [JNum ''1'', JNull], '' '')"
    by code_simp
  show ?thesis using p readBatch_shape [OF p] by (auto simp: array_elems_def)
qed

text \<open>Closing a codec twice, or any number of times, closes the channel and the connection exactly
  once and never panics.\<close>

theorem codec_close_once:
  "\<exists>c1. codec_close (NewFuncCodec r) = Some c1 \<and> chclosed (closeCh c1) \<and> conn_closes c1 = 1 \<and>
        (\<forall>n. ((\<lambda>m. Option.bind m codec_close) ^^ n) (Some c1) = Some c1)"
proof -
  define c1 where "c1 = (NewFuncCodec r)\<lparr>closer_done := True,
    closeCh := (make_chan 0)\<lparr>chclosed := True\<rparr>, conn_closes := 1\<rparr>"
  have "codec_close (NewFuncCodec r) = Some c1"
    by (simp add: codec_close_def NewFuncCodec_def chan_close_def make_chan_def c1_def)
  moreover have "codec_close c1 = Some c1" by (simp add: codec_close_def c1_def)
  then have "((\<lambda>m. Option.bind m codec_close) ^^ n) (Some c1) = Some c1" for n
    by (induction n) simp_all
  ultimately show ?thesis by (auto simp: c1_def)
qed

end
