(* ===== verification/Rpc_Encoding.thy ===== *)
theory Rpc_Encoding
  imports Rpc_Message
begin

text \<open>
  The text of messages: json.Marshal of a jsonrpcMessage and of a batch, as writeJSON and doRequest
  use it, and the proof that the text is read back as the same message.
\<close>

section \<open>Encoding\<close>

text \<open>The encoder compacts the text of a RawMessage: it drops white space between tokens and
  escapes the characters less than, greater than and ampersand, and the runes U+2028 and U+2029, in strings. The flag tells whether the
  position is inside a string literal.\<close>

fun compact :: "bool \<Rightarrow> string \<Rightarrow> string" where
  "compact q [] = []"
| "compact False (c # cs) =
     (if is_space c then compact False cs else c # compact (c = CHR 0x22) cs)"
| "compact True (c # cs) =
     (if c = CHR 0x5C then (case cs of [] \<Rightarrow> [c] | d # ds \<Rightarrow> c # d # compact True ds)
      else if byte c \<in> {0x26, 0x3C, 0x3E} then escape_u (byte c) @ compact True cs
      else if strings_HasPrefix (c # cs) [CHR 0xE2, CHR 0x80, CHR 0xA8] then escape_u 0x2028 @ compact True (drop 2 cs)
      else if strings_HasPrefix (c # cs) [CHR 0xE2, CHR 0x80, CHR 0xA9] then escape_u 0x2029 @ compact True (drop 2 cs)
      else c # compact (c \<noteq> CHR 0x22) cs)"

definition encode_raw :: "json \<Rightarrow> string" where
  "encode_raw j = compact False (raw_of j)"

text \<open>The members of an object with their literals.\<close>

definition encode_member :: "string \<times> string \<Rightarrow> string" where
  "encode_member kv = quote_string (fst kv) @ CHR '':'' # snd kv"

definition encode_object :: "(string \<times> string) list \<Rightarrow> string" where
  "encode_object kvs = ''{'' @ join_comma (map encode_member kvs) @ ''}''"

definition encode_array :: "string list \<Rightarrow> string" where
  "encode_array es = ''['' @ join_comma es @ '']''"

text \<open>Members with the tag omitempty are left out when they are empty; the data of an error is
  any value and may fail to encode.\<close>

definition opt_member :: "bool \<Rightarrow> string \<Rightarrow> string \<Rightarrow> (string \<times> string) list" where
  "opt_member present key v = (if present then [(key, v)] else [])"

definition raw_member :: "string \<Rightarrow> raw_message \<Rightarrow> (string \<times> string) list" where
  "raw_member key r = (case r of None \<Rightarrow> [] | Some j \<Rightarrow> [(key, encode_raw j)])"

definition encode_jsonError :: "usertypes \<Rightarrow> jsonError \<Rightarrow> string + string" where
  "encode_jsonError ut e =
     (let kvs = [(''code'', strconv_Itoa (Code e)), (''message'', quote_string (Message e))] in
      if Data e = GoNil then Inr (encode_object kvs)
      else case json_Marshal ut (Data e) of
        Inl err \<Rightarrow> Inl err
      | Inr j \<Rightarrow> Inr (encode_object (kvs @ [(''data'', encode_raw j)])))"

definition encode_message :: "usertypes \<Rightarrow> jsonrpcMessage \<Rightarrow> string + string" where
  "encode_message ut m =
     (let pre = opt_member (Version m \<noteq> []) ''jsonrpc'' (quote_string (Version m)) @ raw_member ''id'' (ID m) @
                opt_member (Method m \<noteq> []) ''method'' (quote_string (Method m)) @ raw_member ''params'' (Params m);
          post = raw_member ''result'' (Result m) in
      case Error m of
        None \<Rightarrow> Inr (encode_object (pre @ post))
      | Some e \<Rightarrow>
          (case encode_jsonError ut e of
             Inl err \<Rightarrow> Inl err
           | Inr t \<Rightarrow> Inr (encode_object (pre @ [(''error'', t)] @ post))))"

fun encode_messages :: "usertypes \<Rightarrow> jsonrpcMessage list \<Rightarrow> string + string list" where
  "encode_messages ut [] = Inr []"
| "encode_messages ut (m # ms) =
     (case encode_message ut m of
        Inl err \<Rightarrow> Inl err
      | Inr t \<Rightarrow> (case encode_messages ut ms of Inl err \<Rightarrow> Inl err | Inr ts \<Rightarrow> Inr (t # ts)))"

definition encode_batch :: "usertypes \<Rightarrow> jsonrpcMessage list \<Rightarrow> string + string" where
  "encode_batch ut ms = (case encode_messages ut ms of Inl err \<Rightarrow> Inl err | Inr ts \<Rightarrow> Inr (encode_array ts))"

section \<open>Reading a value that is followed by other text\<close>

text \<open>A number ends at the end of the input or before a byte that cannot continue it.\<close>

definition delim :: "string \<Rightarrow> bool" where
  "delim t \<longleftrightarrow> (case t of [] \<Rightarrow> True | c # _ \<Rightarrow> \<not> is_digit c \<and> c \<noteq> CHR ''.'' \<and> c \<noteq> CHR ''e'' \<and> c \<noteq> CHR ''E'')"

abbreviation ends :: "string \<Rightarrow> string \<Rightarrow> bool" where
  "ends r t \<equiv> r \<noteq> [] \<or> delim t"

lemma delim_Cons [simp]: "delim (c # cs) \<longleftrightarrow> \<not> is_digit c \<and> c \<noteq> CHR ''.'' \<and> c \<noteq> CHR ''e'' \<and> c \<noteq> CHR ''E''"
  by (simp add: delim_def)

lemma hex4_append: "hex4 s \<noteq> None \<Longrightarrow> hex4 (s @ t) \<noteq> None"
  by (induction s rule: hex4.induct) (auto split: option.splits)

lemma valid_escape_append: "valid_escape s \<Longrightarrow> valid_escape (s @ t)"
  using hex4_append by (cases s) (auto simp: valid_escape_def)

lemma scan_string_body_append: "scan_string_body s = Some (lit, r) \<Longrightarrow> scan_string_body (s @ t) = Some (lit, r @ t)"
proof (induction s arbitrary: lit r rule: scan_string_body.induct)
  case (2 c cs)
  show ?case
  proof (cases "c = CHR 0x5C")
    case True
    then have v: "valid_escape cs" using "2.prems" by (auto split: if_splits)
    then have ne: "cs \<noteq> []" by (auto simp: valid_escape_def)
    obtain l where l: "scan_string_body (drop 1 cs) = Some (l, r)" "lit = c # take 1 cs @ l"
      using "2.prems" True v by (auto simp: byte_def)
    have "scan_string_body (drop 1 cs @ t) = Some (l, r @ t)"
      using "2.IH"(1) [OF _ _ True v l(1)] True by (simp add: byte_def)
    moreover have "drop 1 (cs @ t) = drop 1 cs @ t" "take 1 (cs @ t) = take 1 cs" using ne by (cases cs; simp)+
    ultimately show ?thesis using True v valid_escape_append [OF v, of t] l(2) by (simp add: byte_def)
  next
    case False
    then show ?thesis using "2.prems" "2.IH"(2) by (auto split: if_splits)
  qed
qed simp

lemma scan_digits1_append:
  assumes "scan_digits1 s = Some (ds, r)" and "ends r t"
  shows "scan_digits1 (s @ t) = Some (ds, r @ t)"
proof -
  have d: "ds = takeWhile is_digit s" "r = dropWhile is_digit s" "ds \<noteq> []"
    using assms(1) by (auto simp: scan_digits1_def span_def split: if_splits)
  show ?thesis
  proof (cases "r = []")
    case True
    then have "\<forall>c \<in> set s. is_digit c" using d(2) by simp
    moreover have "takeWhile is_digit t = [] \<and> dropWhile is_digit t = t"
      using assms(2) True by (cases t) auto
    moreover have "ds = s" "s \<noteq> []" using d \<open>\<forall>c \<in> set s. is_digit c\<close> by (auto simp: takeWhile_eq_all_conv)
    ultimately show ?thesis using True by (simp add: scan_digits1_def span_def takeWhile_append2 dropWhile_append2)
  next
    case False
    then obtain c where "c \<in> set s" "\<not> is_digit c" using d(2) by auto
    then show ?thesis using d by (simp add: scan_digits1_def span_def takeWhile_append1 dropWhile_append1)
  qed
qed

lemma HasPrefix1_append: "s \<noteq> [] \<Longrightarrow> strings_HasPrefix (s @ t) [c] = strings_HasPrefix s [c]"
  by (cases s) (simp_all add: strings_HasPrefix_def)

lemma scan_int_append:
  assumes "scan_int s = Some (ds, r)" and "ends r t"
  shows "scan_int (s @ t) = Some (ds, r @ t)"
proof -
  have "s \<noteq> []" using scan_int_lossless [OF assms(1)] by auto
  then show ?thesis
    using assms scan_digits1_append [of s ds r t] by (cases s) (auto simp: scan_int_def strings_HasPrefix_def split: if_splits)
qed

lemma scan_frac_append:
  assumes "scan_frac s = Some (fp, r)" and "ends r t"
  shows "scan_frac (s @ t) = Some (fp, r @ t)"
proof (cases s)
  case Nil
  then have "fp = []" "r = []" using assms(1) by (auto simp: scan_frac_def strings_HasPrefix_def)
  moreover from this have "\<not> strings_HasPrefix t ''.''" using assms(2) by (cases t) (auto simp: strings_HasPrefix_def)
  ultimately show ?thesis using Nil by (simp add: scan_frac_def)
next
  case (Cons c cs)
  then show ?thesis
    using assms scan_digits1_append [of cs "tl fp" r t]
    by (auto simp: scan_frac_def strings_HasPrefix_def split: if_splits)
qed

lemma scan_exp_append:
  assumes "scan_exp s = Some (ep, r)" and "ends r t"
  shows "scan_exp (s @ t) = Some (ep, r @ t)"
proof (cases s)
  case Nil
  then have "ep = []" "r = []" using assms(1) by (auto simp: scan_exp_def)
  then show ?thesis using Nil assms(2) by (cases t) (auto simp: scan_exp_def)
next
  case (Cons c cs)
  show ?thesis
  proof (cases "c = CHR ''e'' \<or> c = CHR ''E''")
    case False
    then show ?thesis using Cons assms by (auto simp: scan_exp_def)
  next
    case True
    then obtain d ds where d: "cs = d # ds" using assms(1) Cons by (cases cs) (auto simp: scan_exp_def)
    show ?thesis
    proof (cases "d = CHR ''+'' \<or> d = CHR ''-''")
      case pm: True
      obtain l where "scan_digits1 ds = Some (l, r)" "ep = c # d # l"
        using assms(1) Cons True d pm by (auto simp: scan_exp_def)
      then show ?thesis using Cons True d pm scan_digits1_append [of ds l r t] assms(2) by (simp add: scan_exp_def)
    next
      case pm: False
      obtain l where "scan_digits1 cs = Some (l, r)" "ep = c # l"
        using assms(1) Cons True d pm by (auto simp: scan_exp_def)
      then show ?thesis using Cons True d pm scan_digits1_append [of cs l r t] assms(2) by (simp add: scan_exp_def)
    qed
  qed
qed

lemma scan_number_append:
  assumes "scan_number s = Some (lit, r)" and "ends r t"
  shows "scan_number (s @ t) = Some (lit, r @ t)"
proof -
  define neg where "neg = strings_HasPrefix s ''-''"
  define s1 where "s1 = (if neg then drop 1 s else s)"
  define sign where "sign = (if neg then ''-'' else [])"
  obtain ip s2 fp s3 ep where p: "scan_int s1 = Some (ip, s2)" "scan_frac s2 = Some (fp, s3)" "scan_exp s3 = Some (ep, r)"
    "lit = sign @ ip @ fp @ ep"
    using assms(1) by (auto simp: scan_number_def neg_def s1_def sign_def bind_eq_Some_conv split: if_splits)
  have e: "ends s3 t" "ends s2 t"
    using assms(2) scan_exp_lossless [OF p(3)] scan_frac_lossless [OF p(2)] by auto
  have "s \<noteq> []" using scan_number_lossless [OF assms(1)] by auto
  then have "strings_HasPrefix (s @ t) ''-'' = neg" "(if neg then drop 1 (s @ t) else s @ t) = s1 @ t"
    by (simp_all add: neg_def HasPrefix1_append s1_def) (cases s; simp)
  then show ?thesis
    using scan_int_append [OF p(1) e(2)] scan_frac_append [OF p(2) e(1)] scan_exp_append [OF p(3) assms(2)] p(4)
    by (simp add: scan_number_def sign_def split: if_splits)
qed

lemma skip_ws_append_Cons: "skip_ws s = d # ds \<Longrightarrow> skip_ws (s @ t) = d # ds @ t"
  unfolding skip_ws_def by (induction s) (auto split: if_splits)

lemma consumed_append_both: "length r \<le> length s \<Longrightarrow> consumed (s @ t) (r @ t) = consumed s r"
  by (simp add: consumed_def)

lemma scan_literal_append:
  assumes "scan_literal w j s = Some (j', r)"
  shows "scan_literal w j (s @ t) = Some (j', r @ t)"
proof -
  have p: "take (length w) s = w" "j' = j" "r = drop (length w) s"
    using assms by (auto simp: scan_literal_def strings_HasPrefix_def split: if_splits)
  then have "s = w @ r" by (metis append_take_drop_id)
  then show ?thesis using p(2) by (simp add: scan_literal_def strings_HasPrefix_def)
qed

lemma parse_append:
  "parse_value n s = Some (j, r) \<Longrightarrow> ends r t \<Longrightarrow> parse_value n (s @ t) = Some (j, r @ t)"
  "parse_elems n s = Some (js, r) \<Longrightarrow> parse_elems n (s @ t) = Some (js, r @ t)"
  "parse_members n s = Some (ms, r) \<Longrightarrow> parse_members n (s @ t) = Some (ms, r @ t)"
proof (induction n s and n s and n s arbitrary: j r and js r and ms r rule: parse_value_parse_elems_parse_members.induct)
  case (3 n c cs)
  have c1: "\<exists>d ds. skip_ws cs = d # ds \<and> skip_ws (cs @ t) = d # ds @ t" if "c = CHR ''{'' \<or> c = CHR ''[''"
    using "3.prems"(1) that skip_ws_append_Cons by (cases "skip_ws cs") auto
  consider (obj) "c = CHR ''{''" | (arr) "c = CHR ''[''" | (other) "c \<noteq> CHR ''{''" "c \<noteq> CHR ''[''" by blast
  then show ?case
  proof cases
    case obj
    then obtain d ds where d: "skip_ws cs = d # ds" "skip_ws (cs @ t) = d # ds @ t" using c1 by blast
    show ?thesis
    proof (cases "d = CHR ''}''")
      case True
      then show ?thesis using "3.prems"(1) obj d skip_ws_shorter [OF d(1)] consumed_append_both [of ds "c # cs" t] by auto
    next
      case False
      obtain ms where ms: "parse_members n (d # ds) = Some (ms, r)" "j = JObj (consumed (c # cs) r) ms"
        using "3.prems"(1) obj d False by (auto simp: bind_eq_Some_conv)
      have "length r \<le> length (c # cs)" using parse_suffix(3) [OF ms(1)] skip_ws_shorter [OF d(1)] by (auto dest!: arg_cong [where f = length])
      then show ?thesis
        using "3.IH"(1) [OF obj d(1) False ms(1)] obj d False ms(2) consumed_append_both [of r "c # cs" t] by simp
    qed
  next
    case arr
    then obtain d ds where d: "skip_ws cs = d # ds" "skip_ws (cs @ t) = d # ds @ t" using c1 by blast
    show ?thesis
    proof (cases "d = CHR '']''")
      case True
      then show ?thesis using "3.prems"(1) arr d skip_ws_shorter [OF d(1)] consumed_append_both [of ds "c # cs" t] by auto
    next
      case False
      obtain es where es: "parse_elems n (d # ds) = Some (es, r)" "j = JArr (consumed (c # cs) r) es"
        using "3.prems"(1) arr d False by (auto simp: bind_eq_Some_conv)
      have "length r \<le> length (c # cs)" using parse_suffix(2) [OF es(1)] skip_ws_shorter [OF d(1)] by (auto dest!: arg_cong [where f = length])
      then show ?thesis
        using "3.IH"(2) [OF _ arr d(1) False es(1)] arr d False es(2) consumed_append_both [of r "c # cs" t] by simp
    qed
  next
    case other
    then show ?thesis
      using "3.prems" scan_string_body_append [of cs _ r t] scan_number_append [of "c # cs" _ r t]
        scan_literal_append [of _ _ "c # cs" j r t]
      by (auto split: if_splits)
  qed
next
  case (5 n s)
  from parse_elems_SomeD [OF "5.prems"] obtain j s1 d ds where
    v: "parse_value n s = Some (j, s1)" and d: "skip_ws s1 = d # ds" and
    c: "d = CHR '']'' \<and> js = [j] \<and> ds = r \<or>
     d \<noteq> CHR '']'' \<and> d = CHR '','' \<and> (\<exists>js'. parse_elems n (skip_ws ds) = Some (js', r) \<and> js = j # js')" by blast
  have "s1 \<noteq> []" using d by (auto simp: skip_ws_def)
  then have v': "parse_value n (s @ t) = Some (j, s1 @ t)" using "5.IH"(1) [OF v] by blast
  note d' = skip_ws_append_Cons [OF d, of t]
  from c show ?case
  proof (elim disjE conjE exE)
    assume "d \<noteq> CHR '']''" "d = CHR '',''"
    fix js' assume js: "parse_elems n (skip_ws ds) = Some (js', r)" "js = j # js'"
    have "skip_ws ds \<noteq> []" using parse_suffix(2) [OF js(1)] by auto
    then obtain x xs where "skip_ws ds = x # xs" by (cases "skip_ws ds") auto
    from "5.IH"(2) [OF v refl d \<open>d \<noteq> CHR '']''\<close> \<open>d = CHR '',''\<close> js(1)] skip_ws_append_Cons [OF this, of t] this
    have "parse_elems n (skip_ws (ds @ t)) = Some (js', r @ t)" by simp
    then show ?thesis using v' d' js(2) \<open>d = CHR '',''\<close> by simp
  qed (use v' d' in simp)
next
  case (8 n q s)
  from parse_members_SomeD [OF "8.prems"] obtain lit s1 e s2 j s3 d ds where
    q: "\<not> q \<noteq> CHR 0x22" and l: "scan_string_body s = Some (lit, s1)" and e: "skip_ws s1 = e # s2" "\<not> e \<noteq> CHR '':''" and
    v: "parse_value n (skip_ws s2) = Some (j, s3)" and d: "skip_ws s3 = d # ds" and
    c: "d = CHR ''}'' \<and> ms = [(q # lit, j)] \<and> ds = r \<or>
     d \<noteq> CHR ''}'' \<and> d = CHR '','' \<and> (\<exists>ms'. parse_members n (skip_ws ds) = Some (ms', r) \<and> ms = (q # lit, j) # ms')" by blast
  have "s3 \<noteq> []" using d by (auto simp: skip_ws_def)
  then have "parse_value n (skip_ws s2 @ t) = Some (j, s3 @ t)" using "8.IH"(1) [OF q l refl e v] by blast
  moreover have "skip_ws s2 \<noteq> []" using v by (cases n) auto
  then have "skip_ws (s2 @ t) = skip_ws s2 @ t" using skip_ws_append_Cons [of s2 _ _ t] by (cases "skip_ws s2") auto
  ultimately have v': "parse_value n (skip_ws (s2 @ t)) = Some (j, s3 @ t)" by simp
  note pre = scan_string_body_append [OF l, of t] skip_ws_append_Cons [OF e(1), of t] skip_ws_append_Cons [OF d, of t] v'
  from c show ?case
  proof (elim disjE conjE exE)
    assume dd: "d \<noteq> CHR ''}''" "d = CHR '',''"
    fix ms' assume ms': "parse_members n (skip_ws ds) = Some (ms', r)" "ms = (q # lit, j) # ms'"
    have "skip_ws ds \<noteq> []" using ms'(1) by (cases n) auto
    then obtain x xs where "skip_ws ds = x # xs" by (cases "skip_ws ds") auto
    from "8.IH"(2) [OF q l refl e v refl d dd ms'(1)] skip_ws_append_Cons [OF this, of t] this
    have "parse_members n (skip_ws (ds @ t)) = Some (ms', r @ t)" by simp
    then show ?thesis using pre q e ms'(2) dd by simp
  qed (use pre q e in simp)
qed simp_all

section \<open>Values and objects\<close>

text \<open>A tree that holds the text of one JSON value without white space around it, as every
  RawMessage of a decoded or encoded message does, and whose text the encoder keeps.\<close>

definition json_text :: "json \<Rightarrow> bool" where
  "json_text j \<longleftrightarrow> json_parse (raw_of j) = Some (j, [])"

definition compacted :: "json \<Rightarrow> bool" where
  "compacted j \<longleftrightarrow> json_text j \<and> encode_raw j = raw_of j"

lemma json_text_skip: "json_text j \<Longrightarrow> skip_ws (raw_of j @ t) = raw_of j @ t"
proof -
  assume "json_text j"
  then have "skip_ws (raw_of j) = raw_of j" "raw_of j \<noteq> []"
    using parse_suffix(1) [of "Suc (2 * length (raw_of j))" "skip_ws (raw_of j)" j "[]"] by (auto simp: json_text_def json_parse_def)
  then show ?thesis by (metis neq_Nil_conv skip_ws_append_Cons append_Cons)
qed

lemma parse_value_at:
  assumes "json_text j" and "delim t" and "2 * length (raw_of j) < n"
  shows "parse_value n (raw_of j @ t) = Some (j, t)"
proof -
  have "parse_value (Suc (2 * length (raw_of j))) (raw_of j) = Some (j, [])"
    using assms(1) json_text_skip [OF assms(1), of "[]"] by (simp add: json_text_def json_parse_def del: parse_value.simps)
  then have "parse_value n (raw_of j) = Some (j, [])" using parse_value_enough [OF assms(3)] by simp
  from parse_append(1) [OF this, of t] assms(2) show ?thesis by simp
qed

lemma json_text_Nil: "json_text j \<Longrightarrow> raw_of j \<noteq> []"
  using parse_suffix(1) by (auto simp: json_text_def json_parse_def)

text \<open>A list of members with their literal keys.\<close>

definition member_text :: "string \<times> json \<Rightarrow> string" where
  "member_text kj = fst kj @ CHR '':'' # raw_of (snd kj)"

definition key_lit :: "string \<Rightarrow> bool" where
  "key_lit k \<longleftrightarrow> (\<exists>b. k = CHR 0x22 # b \<and> (\<forall>t. scan_string_body (b @ t) = Some (b, t)))"

lemma delims [simp]: "delim (CHR '','' # t)" "delim (CHR ''}'' # t)" "delim (CHR '']'' # t)"
  by (simp_all add: is_digit_def in_range_def byte_def)

lemma skip_ws_tokens [simp]:
  "skip_ws (CHR '','' # t) = CHR '','' # t" "skip_ws (CHR ''}'' # t) = CHR ''}'' # t" "skip_ws (CHR '']'' # t) = CHR '']'' # t"
  "skip_ws (CHR '':'' # t) = CHR '':'' # t" "skip_ws (CHR 0x22 # t) = CHR 0x22 # t" "skip_ws (CHR ''{'' # t) = CHR ''{'' # t"
  by (simp_all add: skip_ws_def is_space_def)

lemma join_comma_Cons: "join_comma (x # xs) = x @ (if xs = [] then [] else CHR '','' # join_comma xs)"
  by (cases xs) simp_all

lemma parse_members_text:
  assumes "kjs \<noteq> []" and "\<forall>kj \<in> set kjs. key_lit (fst kj) \<and> json_text (snd kj)"
    and "2 * length (join_comma (map member_text kjs)) < n"
  shows "parse_members n (join_comma (map member_text kjs) @ CHR ''}'' # t) = Some (kjs, t)"
  using assms
proof (induction kjs arbitrary: n)
  case (Cons kj kjs)
  obtain k j where kj: "kj = (k, j)" by fastforce
  obtain b where b: "k = CHR 0x22 # b" "\<And>t. scan_string_body (b @ t) = Some (b, t)"
    using Cons.prems(2) kj by (auto simp: key_lit_def)
  have jt: "json_text j" using Cons.prems(2) kj by simp
  define rest where "rest = (if kjs = [] then [] else CHR '','' # join_comma (map member_text kjs)) @ CHR ''}'' # t"
  have len: "2 * (length k + Suc (length (raw_of j)) + length (if kjs = [] then [] else CHR '','' # join_comma (map member_text kjs))) < n"
    using Cons.prems(3) kj by (simp add: join_comma_Cons member_text_def [of "(k, j)"])
  then obtain m where n: "n = Suc m" by (cases n) auto
  have v: "parse_value m (skip_ws (raw_of j @ rest)) = Some (j, rest)"
    unfolding json_text_skip [OF jt]
    by (rule parse_value_at [OF jt]) (use len n b in \<open>auto simp: rest_def simp del: delim_Cons\<close>)
  have eq: "join_comma (map member_text (kj # kjs)) @ CHR ''}'' # t = CHR 0x22 # b @ CHR '':'' # raw_of j @ rest"
    using member_text_def [of "(k, j)"] by (simp add: join_comma_Cons kj b(1) rest_def)
  show ?case
  proof (cases "kjs = []")
    case True
    then have "skip_ws rest = CHR ''}'' # t" by (simp add: rest_def)
    then show ?thesis unfolding eq n using v b True kj by simp
  next
    case False
    let ?more = "join_comma (map member_text kjs) @ CHR ''}'' # t"
    have sk: "skip_ws rest = CHR '','' # ?more" using False by (simp add: rest_def)
    obtain kj' kjs' where k': "kjs = kj' # kjs'" using False by (cases kjs) auto
    then obtain b' where "fst kj' = CHR 0x22 # b'" using Cons.prems(2) by (auto simp: key_lit_def)
    then have "skip_ws ?more = ?more" using k' by (simp add: join_comma_Cons member_text_def)
    moreover have "parse_members m ?more = Some (kjs, t)"
      by (rule Cons.IH) (use False Cons.prems(2) len n b in auto)
    ultimately show ?thesis unfolding eq n using v b sk kj by simp
  qed
qed simp

lemma parse_object_text:
  assumes "\<forall>kj \<in> set kjs. key_lit (fst kj) \<and> json_text (snd kj)"
  defines "txt \<equiv> CHR ''{'' # join_comma (map member_text kjs) @ ''}''"
  shows "json_text (JObj txt kjs)"
proof (cases kjs)
  case Nil
  moreover have "json_text (JObj ''{}'' [])" by code_simp
  ultimately show ?thesis by (simp add: txt_def)
next
  case (Cons kj kjs')
  then obtain b where "fst kj = CHR 0x22 # b" using assms(1) by (auto simp: key_lit_def)
  then obtain u where u: "join_comma (map member_text kjs) @ ''}'' = CHR 0x22 # u"
    using Cons by (auto simp: join_comma_Cons member_text_def)
  let ?n = "2 * length txt"
  have "parse_members ?n (join_comma (map member_text kjs) @ CHR ''}'' # []) = Some (kjs, [])"
    by (rule parse_members_text) (use Cons assms(1) in \<open>auto simp: txt_def\<close>)
  then have "parse_value (Suc ?n) txt = Some (JObj txt kjs, [])"
    unfolding txt_def u by (simp add: consumed_def del: parse_members.simps)
  then show ?thesis by (simp add: json_text_def json_parse_def txt_def)
qed

section \<open>Strings and numbers\<close>

lemma scan_hex_digit: "d < 16 \<Longrightarrow> scan_string_body (hex_digit d # t) = map_option (\<lambda>(l, r). (hex_digit d # l, r)) (scan_string_body t)"
proof -
  assume d: "d < 16"
  have b: "byte (hex_digit d) = (if d < 10 then 48 + d else 87 + d)" using d by (simp add: hex_digit_def byte_def)
  have "byte CHR 0x22 = 34" "byte CHR 0x5C = 92" by (simp_all add: byte_def)
  moreover have "byte (hex_digit d) \<noteq> 34" "byte (hex_digit d) \<noteq> 92" "\<not> byte (hex_digit d) < 0x20"
    using b d by (simp_all split: if_splits)
  ultimately have "hex_digit d \<noteq> CHR 0x22" "hex_digit d \<noteq> CHR 0x5C" "\<not> byte (hex_digit d) < 0x20" by metis+
  then show ?thesis by simp
qed

lemma scan_escape:
  "valid_escape (e # cs) \<Longrightarrow>
   scan_string_body (CHR 0x5C # e # cs) = map_option (\<lambda>(l, r). (CHR 0x5C # e # l, r)) (scan_string_body cs)"
  by (subst scan_string_body.simps(2)) (simp add: byte_def del: scan_string_body.simps)

lemma scan_escape_u:
  assumes "scan_string_body u = Some (l, r)"
  shows "scan_string_body (escape_u n @ u) = Some (escape_u n @ l, r)"
proof -
  have "valid_escape (CHR ''u'' # hex_digit (n div 4096 mod 16) # hex_digit (n div 256 mod 16) #
      hex_digit (n div 16 mod 16) # hex_digit (n mod 16) # u)" by (simp add: valid_escape_def)
  from scan_escape [OF this] show ?thesis
    using assms by (simp add: escape_u_def scan_hex_digit del: scan_string_body.simps)
qed

lemma scan_plain:
  assumes "scan_string_body u = Some (l, r)" and "c \<noteq> CHR 0x22" "c \<noteq> CHR 0x5C" "\<not> byte c < 0x20"
  shows "scan_string_body (c # u) = Some (c # l, r)"
  using assms by simp

lemma scan_escape_ascii:
  assumes "scan_string_body u = Some (l, r)"
  shows "scan_string_body (escape_ascii c @ u) = Some (escape_ascii c @ l, r)"
proof -
  have simple: "scan_string_body (CHR 0x5C # e # u) = Some (CHR 0x5C # e # l, r)" if "simple_escape e \<noteq> None" "e \<noteq> CHR ''u''" for e
    using scan_escape [of e u] assms that by (simp add: valid_escape_def del: scan_string_body.simps)
  show ?thesis
    unfolding escape_ascii_def
    using scan_escape_u [OF assms, of "byte c"] scan_plain [OF assms, of c]
    by (simp add: simple simple_escape_def del: scan_string_body.simps)
qed

lemma scan_quote_body: "ascii s \<Longrightarrow> scan_string_body (quote_body s @ CHR 0x22 # t) = Some (quote_body s @ [CHR 0x22], t)"
proof (induction s)
  case (Cons c s)
  then have "scan_string_body (quote_body s @ CHR 0x22 # t) = Some (quote_body s @ [CHR 0x22], t)" by (simp add: ascii_def)
  from scan_escape_ascii [OF this, of c] show ?case using Cons.prems by (simp add: ascii_def del: scan_string_body.simps)
qed simp

lemma key_lit_quote: "ascii s \<Longrightarrow> key_lit (quote_string s)"
  using scan_quote_body by (simp add: key_lit_def quote_string_def)

lemma json_text_quote: "ascii s \<Longrightarrow> json_text (JStr (quote_string s))"
  using scan_quote_body [of s "[]"] by (simp add: json_text_def json_parse_def quote_string_def)

lemma is_digit_digit_char: "d < 10 \<Longrightarrow> is_digit (digit_char d)"
  by (simp add: is_digit_def in_range_def byte_def of_char_digit)

lemma dec_digits_all_digits: "list_all is_digit (dec_digits n)"
  using set_dec_digits [of n] is_digit_digit_char by (fastforce simp: list_all_iff)

lemma dec_digits_hd_0: "hd (dec_digits n) = CHR ''0'' \<Longrightarrow> n = 0"
proof (induction n rule: dec_digits.induct)
  case (1 n)
  show ?case
  proof (cases "n < 10")
    case True
    then have "of_char (digit_char n) = (of_char CHR ''0'' :: nat)" using 1(2) by (simp add: dec_digits.simps [of n])
    then show ?thesis using True by (simp add: of_char_digit)
  next
    case False
    then have "hd (dec_digits (n div 10)) = CHR ''0''" using 1(2) by (simp add: dec_digits.simps [of n])
    with 1(1) [OF False] have "n div 10 = 0" by simp
    then show ?thesis using False by simp
  qed
qed

lemma dec_digits_0: "dec_digits 0 = ''0''"
  by (simp add: dec_digits.simps digit_char_def) code_simp

lemma scan_int_dec: "scan_int (dec_digits n) = Some (dec_digits n, [])"
proof (cases "n = 0")
  case True
  then show ?thesis by (simp add: dec_digits_0 scan_int_def strings_HasPrefix_def)
next
  case False
  then have "\<not> strings_HasPrefix (dec_digits n) ''0''"
    using dec_digits_hd_0 [of n] by (cases "dec_digits n") (auto simp: strings_HasPrefix_def)
  moreover have tw: "takeWhile is_digit (dec_digits n) = dec_digits n" "dropWhile is_digit (dec_digits n) = []"
    using dec_digits_all_digits [of n] by (simp_all add: list_all_iff takeWhile_eq_all_conv)
  have "scan_digits1 (dec_digits n) = Some (dec_digits n, [])" unfolding scan_digits1_def span_def tw by simp
  ultimately show ?thesis by (simp add: scan_int_def)
qed

lemma scan_number_dec: "scan_number (dec_digits n) = Some (dec_digits n, [])"
proof -
  have "\<not> strings_HasPrefix (dec_digits n) ''-''"
    using dec_digits_all_digits [of n] by (cases "dec_digits n") (auto simp: strings_HasPrefix_def is_digit_def in_range_def byte_def)
  then show ?thesis using scan_int_dec [of n] by (simp add: scan_number_def scan_frac_def scan_exp_def strings_HasPrefix_def)
qed

lemma scan_number_Itoa: "scan_number (strconv_Itoa i) = Some (strconv_Itoa i, [])"
proof (cases "i < 0")
  case True
  then show ?thesis using scan_int_dec [of "nat (- i)"]
    by (simp add: strconv_Itoa_def scan_number_def scan_frac_def scan_exp_def strings_HasPrefix_def)
qed (simp add: strconv_Itoa_def scan_number_dec)

lemma json_text_Itoa: "json_text (JNum (strconv_Itoa i))"
proof -
  obtain c cs where c: "strconv_Itoa i = c # cs" using scan_number_lossless [OF scan_number_Itoa, of i] by (cases "strconv_Itoa i") auto
  then have "c = CHR ''-'' \<or> is_digit c" using scan_number_hd scan_number_Itoa [of i] by metis
  then have "\<not> is_space c \<and> c \<noteq> CHR ''{'' \<and> c \<noteq> CHR ''['' \<and> c \<noteq> CHR 0x22 \<and> c \<noteq> CHR ''t'' \<and> c \<noteq> CHR ''f'' \<and> c \<noteq> CHR ''n''"
    by (auto simp: is_space_def is_digit_def in_range_def byte_def)
  then show ?thesis
    using scan_number_Itoa [of i] by (simp add: json_text_def json_parse_def c skip_ws_def)
qed

lemma parse_int64_Itoa: "- (2 ^ 63) \<le> i \<Longrightarrow> i < 2 ^ 63 \<Longrightarrow> parse_int64 (strconv_Itoa i) = Some i"
proof -
  assume i: "- (2 ^ 63) \<le> i" "i < 2 ^ 63"
  have "\<not> strings_HasPrefix (dec_digits n) ''-''" for n
    using dec_digits_all_digits [of n] by (cases "dec_digits n") (auto simp: strings_HasPrefix_def is_digit_def in_range_def byte_def)
  then show ?thesis
    using i dec_digits_all_digits by (simp add: parse_int64_def strconv_Itoa_def Let_def) (auto simp: strings_HasPrefix_def)
qed

text \<open>An array of values.\<close>

lemma parse_elems_text:
  assumes "js \<noteq> []" and "\<forall>j \<in> set js. json_text j" and "2 * length (join_comma (map raw_of js)) + 1 < n"
  shows "parse_elems n (join_comma (map raw_of js) @ CHR '']'' # t) = Some (js, t)"
  using assms
proof (induction js arbitrary: n)
  case (Cons j js)
  have jt: "json_text j" using Cons.prems(2) by simp
  define rest where "rest = (if js = [] then [] else CHR '','' # join_comma (map raw_of js)) @ CHR '']'' # t"
  have len: "2 * (length (raw_of j) + length (if js = [] then [] else CHR '','' # join_comma (map raw_of js))) + 1 < n"
    using Cons.prems(3) by (simp add: join_comma_Cons)
  then obtain m where n: "n = Suc m" by (cases n) auto
  have v: "parse_value m (raw_of j @ rest) = Some (j, rest)"
    by (rule parse_value_at [OF jt]) (use len n in \<open>auto simp: rest_def simp del: delim_Cons\<close>)
  have eq: "join_comma (map raw_of (j # js)) @ CHR '']'' # t = raw_of j @ rest"
    by (simp add: join_comma_Cons rest_def)
  show ?case
  proof (cases "js = []")
    case True
    then have "skip_ws rest = CHR '']'' # t" by (simp add: rest_def)
    then show ?thesis unfolding eq n using v True by (simp del: parse_value.simps)
  next
    case False
    let ?more = "join_comma (map raw_of js) @ CHR '']'' # t"
    have sk: "skip_ws rest = CHR '','' # ?more" using False by (simp add: rest_def)
    obtain j' js' where j': "js = j' # js'" using False by (cases js) auto
    have "skip_ws ?more = ?more"
      using json_text_skip [of j'] Cons.prems(2) j' by (simp add: join_comma_Cons)
    moreover have "parse_elems m ?more = Some (js, t)"
      by (rule Cons.IH) (use False Cons.prems(2) len n in auto)
    ultimately show ?thesis unfolding eq n using v sk by (simp del: parse_value.simps)
  qed
qed simp

lemma json_text_array:
  assumes "\<forall>j \<in> set js. json_text j"
  shows "json_text (JArr (encode_array (map raw_of js)) js)"
proof (cases js)
  case Nil
  moreover have "json_text (JArr ''[]'' [])" by code_simp
  ultimately show ?thesis by (simp add: encode_array_def)
next
  case (Cons j js')
  let ?txt = "CHR ''['' # join_comma (map raw_of js) @ '']''"
  obtain d ds where d: "join_comma (map raw_of js) @ '']'' = d # ds" by (cases "join_comma (map raw_of js) @ '']''") auto
  have "skip_ws (d # ds) = d # ds"
    unfolding d [symmetric] using json_text_skip [of j] assms Cons by (simp add: join_comma_Cons)
  moreover have "d \<noteq> CHR '']''"
  proof -
    have "parse_value (Suc (2 * length (raw_of j))) (raw_of j) = Some (j, [])"
      using assms Cons json_text_skip [of j "[]"] by (simp add: json_text_def json_parse_def del: parse_value.simps)
    moreover have "raw_of j \<noteq> []" "hd (raw_of j) = d"
      using assms Cons json_text_Nil [of j] d by (auto simp: join_comma_Cons) (metis hd_append2 list.sel(1))+
    ultimately have "d = CHR '']'' \<Longrightarrow> \<exists>cs lit. scan_number (CHR '']'' # cs) = Some (lit, [])" by (cases "raw_of j") auto
    moreover have "\<not> (CHR '']'' = CHR ''-'' \<or> is_digit CHR '']'')" by (simp add: is_digit_def in_range_def byte_def)
    ultimately show ?thesis using scan_number_hd by blast
  qed
  moreover have "parse_elems (2 * length ?txt) (join_comma (map raw_of js) @ CHR '']'' # []) = Some (js, [])"
    by (rule parse_elems_text) (use Cons assms in auto)
  ultimately have "parse_value (Suc (2 * length ?txt)) ?txt = Some (JArr ?txt js, [])"
    using d by (simp add: consumed_def del: parse_elems.simps)
  then show ?thesis by (simp add: json_text_def json_parse_def encode_array_def skip_ws_def is_space_def del: parse_value.simps)
qed

section \<open>Messages\<close>

text \<open>The members of an encoded message, as trees.\<close>

definition opt_tree :: "bool \<Rightarrow> string \<Rightarrow> json \<Rightarrow> (string \<times> json) list" where
  "opt_tree present key j = (if present then [(key, j)] else [])"

definition raw_tree :: "string \<Rightarrow> raw_message \<Rightarrow> (string \<times> json) list" where
  "raw_tree key r = (case r of None \<Rightarrow> [] | Some j \<Rightarrow> [(key, j)])"

abbreviation str_json :: "string \<Rightarrow> json" where
  "str_json s \<equiv> JStr (quote_string s)"

definition object_tree :: "(string \<times> json) list \<Rightarrow> json" where
  "object_tree kjs = JObj (encode_object (map (\<lambda>kj. (fst kj, raw_of (snd kj))) kjs)) (map (\<lambda>kj. (quote_string (fst kj), snd kj)) kjs)"

definition data_tree :: "usertypes \<Rightarrow> goval \<Rightarrow> (string \<times> json) list" where
  "data_tree ut d = (if d = GoNil then [] else case json_Marshal ut d of Inl _ \<Rightarrow> [] | Inr j \<Rightarrow> [(''data'', j)])"

definition error_tree :: "usertypes \<Rightarrow> jsonError \<Rightarrow> json" where
  "error_tree ut e =
     object_tree ([(''code'', JNum (strconv_Itoa (Code e))), (''message'', str_json (Message e))] @ data_tree ut (Data e))"

definition message_tree :: "usertypes \<Rightarrow> jsonrpcMessage \<Rightarrow> json" where
  "message_tree ut m =
     object_tree (opt_tree (Version m \<noteq> []) ''jsonrpc'' (str_json (Version m)) @ raw_tree ''id'' (ID m) @
       opt_tree (Method m \<noteq> []) ''method'' (str_json (Method m)) @ raw_tree ''params'' (Params m) @
       (case Error m of None \<Rightarrow> [] | Some e \<Rightarrow> [(''error'', error_tree ut e)]) @ raw_tree ''result'' (Result m))"

text \<open>A message whose texts the encoder keeps: the strings are ASCII, the raw members and the
  encoded data are compact values, and the code fits the int of a 64-bit platform.\<close>

definition error_ok :: "usertypes \<Rightarrow> jsonError \<Rightarrow> bool" where
  "error_ok ut e \<longleftrightarrow>
     ascii (Message e) \<and> - (2 ^ 63) \<le> Code e \<and> Code e < 2 ^ 63 \<and>
     (\<forall>j. json_Marshal ut (Data e) = Inr j \<longrightarrow> compacted j)"

definition msg_ok :: "usertypes \<Rightarrow> jsonrpcMessage \<Rightarrow> bool" where
  "msg_ok ut m \<longleftrightarrow>
     ascii (Version m) \<and> ascii (Method m) \<and>
     (\<forall>j. ID m = Some j \<or> Params m = Some j \<or> Result m = Some j \<longrightarrow> compacted j) \<and>
     (\<forall>e. Error m = Some e \<longrightarrow> error_ok ut e)"

text \<open>What the receiver sees: the data of an error is decoded from its encoding.\<close>

definition sent_data :: "usertypes \<Rightarrow> goval \<Rightarrow> goval" where
  "sent_data ut d = (if d = GoNil then GoNil else case json_Marshal ut d of Inl _ \<Rightarrow> d | Inr j \<Rightarrow> decode_any j)"

definition received :: "usertypes \<Rightarrow> jsonrpcMessage \<Rightarrow> jsonrpcMessage" where
  "received ut m = m\<lparr>Error := map_option (\<lambda>e. e\<lparr>Data := sent_data ut (Data e)\<rparr>) (Error m)\<rparr>"

lemma json_text_object:
  assumes "\<forall>kj \<in> set kjs. ascii (fst kj) \<and> json_text (snd kj)"
  shows "json_text (object_tree kjs)"
proof -
  let ?k = "map (\<lambda>kj. (quote_string (fst kj), snd kj)) kjs"
  have "\<forall>kj \<in> set ?k. key_lit (fst kj) \<and> json_text (snd kj)" using assms key_lit_quote by auto
  from parse_object_text [OF this] show ?thesis
    by (simp add: object_tree_def encode_object_def encode_member_def member_text_def comp_def)
qed

lemma ascii_literal [simp]:
  "ascii ''jsonrpc''" "ascii ''id''" "ascii ''method''" "ascii ''params''" "ascii ''error''" "ascii ''result''"
  "ascii ''code''" "ascii ''message''" "ascii ''data''"
  by code_simp+

lemma raw_object_tree: "raw_of (object_tree kjs) = encode_object (map (\<lambda>kj. (fst kj, raw_of (snd kj))) kjs)"
  by (simp add: object_tree_def)

lemma encode_jsonError_tree:
  assumes "error_ok ut e" and "encode_jsonError ut e = Inr t"
  shows "t = raw_of (error_tree ut e)" and "json_text (error_tree ut e)"
proof -
  show "t = raw_of (error_tree ut e)"
    using assms by (auto simp: encode_jsonError_def error_tree_def raw_object_tree data_tree_def Let_def error_ok_def compacted_def
      split: if_splits sum.splits)
  show "json_text (error_tree ut e)"
    unfolding error_tree_def
    using assms(1) json_text_Itoa json_text_quote
    by (intro json_text_object) (auto simp: data_tree_def error_ok_def compacted_def split: if_splits sum.splits)
qed

lemma raw_member_tree:
  assumes "\<forall>j. r = Some j \<longrightarrow> compacted j"
  shows "raw_member key r = map (\<lambda>kj. (fst kj, raw_of (snd kj))) (raw_tree key r)"
  using assms by (cases r) (simp_all add: raw_member_def raw_tree_def compacted_def)

lemma encode_message_error: "encode_message ut m = Inr t \<Longrightarrow> Error m = Some e \<Longrightarrow> \<exists>u. encode_jsonError ut e = Inr u"
  by (auto simp: encode_message_def Let_def split: sum.splits)

lemma encode_message_tree:
  assumes "msg_ok ut m" and "encode_message ut m = Inr t"
  shows "t = raw_of (message_tree ut m)" and "json_text (message_tree ut m)"
proof -
  have raw: "raw_member key r = map (\<lambda>kj. (fst kj, raw_of (snd kj))) (raw_tree key r)" if "r \<in> {ID m, Params m, Result m}" for key r
    by (rule raw_member_tree) (use assms(1) that in \<open>auto simp: msg_ok_def\<close>)
  have opt: "opt_member b key (raw_of j) = map (\<lambda>kj. (fst kj, raw_of (snd kj))) (opt_tree b key j)" for b key j
    by (simp add: opt_member_def opt_tree_def)
  note opt' = opt [where j = "str_json s" for s, simplified]
  have e: "\<exists>u. encode_jsonError ut e = Inr u \<and> u = raw_of (error_tree ut e) \<and> json_text (error_tree ut e)" if "Error m = Some e" for e
    using encode_message_error [OF assms(2) that] encode_jsonError_tree [of ut e] assms(1) that by (auto simp: msg_ok_def)
  show "t = raw_of (message_tree ut m)"
  proof (cases "Error m")
    case None
    then show ?thesis using assms(2) by (simp add: encode_message_def message_tree_def raw_object_tree raw opt')
  next
    case (Some x)
    then show ?thesis using assms(2) e [OF Some] by (auto simp: encode_message_def message_tree_def raw_object_tree raw opt')
  qed
  have rt: "\<forall>kj \<in> set (raw_tree key r). fst kj = key \<and> json_text (snd kj)" if "r \<in> {ID m, Params m, Result m}" for key r
    using assms(1) that by (cases r) (auto simp: raw_tree_def msg_ok_def compacted_def)
  have et: "json_text (error_tree ut x)" if "Some x = Error m" for x
    using e that by metis
  show "json_text (message_tree ut m)"
    unfolding message_tree_def
    using rt [of "ID m" "''id''"] rt [of "Params m" "''params''"] rt [of "Result m" "''result''"] et assms(1) json_text_quote
    by (intro json_text_object) (auto simp: opt_tree_def msg_ok_def)
qed

text \<open>Decoding the members.\<close>

lemma field_matches_quote: "ascii k \<Longrightarrow> field_matches (quote_string k) name \<longleftrightarrow> fold_name k = fold_name name"
  by (simp add: field_matches_def)

lemma fold_name_literal:
  "fold_name ''jsonrpc'' = ''JSONRPC''" "fold_name ''id'' = ''ID''" "fold_name ''method'' = ''METHOD''"
  "fold_name ''params'' = ''PARAMS''" "fold_name ''error'' = ''ERROR''" "fold_name ''result'' = ''RESULT''"
  "fold_name ''code'' = ''CODE''" "fold_name ''message'' = ''MESSAGE''" "fold_name ''data'' = ''DATA''"
  by code_simp+

lemmas decode_key = field_matches_quote fold_name_literal

lemma decode_error_member_key:
  "decode_error_member (quote_string ''code'', j) e = e\<lparr>Code := decode_int (Code e) j\<rparr>"
  "decode_error_member (quote_string ''message'', j) e = e\<lparr>Message := decode_string (Message e) j\<rparr>"
  "decode_error_member (quote_string ''data'', j) e = e\<lparr>Data := decode_any j\<rparr>"
  by (simp_all add: decode_error_member_def decode_key del: fold_name.simps)

lemma decode_member_key:
  "decode_member (quote_string ''jsonrpc'', j) m = m\<lparr>Version := decode_string (Version m) j\<rparr>"
  "decode_member (quote_string ''id'', j) m = m\<lparr>ID := Some j\<rparr>"
  "decode_member (quote_string ''method'', j) m = m\<lparr>Method := decode_string (Method m) j\<rparr>"
  "decode_member (quote_string ''params'', j) m = m\<lparr>Params := Some j\<rparr>"
  "decode_member (quote_string ''error'', j) m = m\<lparr>Error := decode_jsonError (Error m) j\<rparr>"
  "decode_member (quote_string ''result'', j) m = m\<lparr>Result := Some j\<rparr>"
  by (simp_all add: decode_member_def decode_key del: fold_name.simps)

lemma decode_error_tree:
  assumes "error_ok ut e" and "encode_jsonError ut e = Inr t"
  shows "decode_jsonError None (error_tree ut e) = Some (e\<lparr>Data := sent_data ut (Data e)\<rparr>)"
proof -
  have d: "fold decode_error_member (map (\<lambda>kj. (quote_string (fst kj), snd kj)) (data_tree ut (Data e))) x =
      x\<lparr>Data := sent_data ut (Data e)\<rparr>" if "Data x = GoNil" for x
  proof (cases "Data e = GoNil")
    case True
    then show ?thesis using that by (simp add: data_tree_def sent_data_def)
  next
    case False
    then obtain j where "json_Marshal ut (Data e) = Inr j"
      using assms(2) by (auto simp: encode_jsonError_def Let_def split: sum.splits)
    then show ?thesis using False by (simp add: data_tree_def sent_data_def decode_error_member_key)
  qed
  have ok: "ascii (Message e)" "parse_int64 (strconv_Itoa (Code e)) = Some (Code e)"
    using assms(1) parse_int64_Itoa [of "Code e"] by (simp_all add: error_ok_def)
  show ?thesis
    by (simp add: error_tree_def object_tree_def decode_jsonError_def decode_error_member_key decode_int_def decode_string_def
        ok d new_jsonError_def)
qed

lemma decode_message_tree:
  assumes "msg_ok ut m" and "encode_message ut m = Inr t"
  shows "decode_message (message_tree ut m) = Some (received ut m)"
proof -
  have raw: "fold decode_member (map (\<lambda>kj. (quote_string (fst kj), snd kj)) (raw_tree key r)) x =
      (case r of None \<Rightarrow> x | Some j \<Rightarrow> decode_member (quote_string key, j) x)" for key r x
    by (cases r) (simp_all add: raw_tree_def)
  have opt: "fold decode_member (map (\<lambda>kj. (quote_string (fst kj), snd kj)) (opt_tree b key j)) x =
      (if b then decode_member (quote_string key, j) x else x)" for b key j x
    by (simp add: opt_tree_def)
  have e: "decode_jsonError None (error_tree ut e) = Some (e\<lparr>Data := sent_data ut (Data e)\<rparr>)" if "Error m = Some e" for e
  proof -
    from encode_message_error [OF assms(2) that] obtain u where "encode_jsonError ut e = Inr u" by blast
    then show ?thesis using decode_error_tree [of ut e u] assms(1) that by (simp add: msg_ok_def)
  qed
  have asc: "ascii (Version m)" "ascii (Method m)" using assms(1) by (simp_all add: msg_ok_def)
  show ?thesis
    unfolding message_tree_def object_tree_def decode_message_def map_append
    by (simp add: raw opt decode_member_key new_jsonrpcMessage_def received_def decode_string_def asc e split: option.split)
qed

lemma encode_messages_tree:
  assumes "\<forall>m \<in> set ms. msg_ok ut m" and "encode_messages ut ms = Inr ts"
  shows "ts = map raw_of (map (message_tree ut) ms) \<and> (\<forall>j \<in> set (map (message_tree ut) ms). json_text j) \<and>
    map decode_message (map (message_tree ut) ms) = map (\<lambda>m. Some (received ut m)) ms"
  using assms
proof (induction ms arbitrary: ts)
  case (Cons m ms)
  obtain t ts' where t: "encode_message ut m = Inr t" "encode_messages ut ms = Inr ts'" "ts = t # ts'"
    using Cons.prems(2) by (auto split: sum.splits)
  then show ?case
    using Cons.IH [of ts'] Cons.prems(1) encode_message_tree [of ut m t] decode_message_tree [of ut m t] by simp
qed simp

lemma json_parse_text:
  assumes "json_text j" and "delim rest"
  shows "json_parse (raw_of j @ rest) = Some (j, rest)"
  unfolding json_parse_def json_text_skip [OF assms(1)] by (rule parse_value_at [OF assms]) simp

lemma isBatch_object: "isBatch (raw_of (object_tree kjs)) = False" and isBatch_array: "isBatch (encode_array es) = True"
  by (simp_all add: object_tree_def encode_object_def encode_array_def)

text \<open>The text of a message is read as its tree, and the tree as the message.\<close>

lemma encoded_message_read:
  assumes "msg_ok ut m" and "encode_message ut m = Inr t" and "delim rest"
  shows "json_parse (t @ rest) = Some (message_tree ut m, rest)"
    and "readBatch (Inr (message_tree ut m)) = Inr ([received ut m], False)"
proof -
  note t = encode_message_tree [OF assms(1,2)]
  show "json_parse (t @ rest) = Some (message_tree ut m, rest)" using json_parse_text [OF t(2) assms(3)] t(1) by simp
  show "readBatch (Inr (message_tree ut m)) = Inr ([received ut m], False)"
    using decode_message_tree [OF assms(1,2)] isBatch_object
    by (simp add: readBatch_def parseMessage_def message_tree_def)
qed

section \<open>Properties\<close>

text \<open>A call and an error response, for the witnesses.\<close>

definition no_types :: usertypes where
  "no_types = \<lparr>user_marshal = (\<lambda>_. Inl ''unsupported''), user_unmarshal = (\<lambda>_ _. Inl ''unsupported'')\<rparr>"

definition enc_call :: jsonrpcMessage where
  "enc_call = new_jsonrpcMessage\<lparr>Version := vsn, ID := Some (JNum ''1''), Method := ''calc_add'', Params := Some (JArr ''[1,2]'' [JNum ''1'', JNum ''2''])\<rparr>"

definition enc_error :: jsonrpcMessage where
  "enc_error = errorResponse enc_call (MethodNotFoundError ''calc_add'')"

lemma enc_demo_ok: "msg_ok no_types enc_call" "msg_ok no_types enc_error"
proof -
  have "compacted (JNum ''1'')" "compacted (JArr ''[1,2]'' [JNum ''1'', JNum ''2''])" "compacted JNull" by code_simp+
  moreover have "ascii vsn" "ascii ''calc_add''" "ascii ''''" "ascii (ErrorString (MethodNotFoundError ''calc_add''))" by code_simp+
  ultimately show "msg_ok no_types enc_call" "msg_ok no_types enc_error"
    by (auto simp: msg_ok_def error_ok_def enc_call_def enc_error_def new_jsonrpcMessage_def errorResponse_def errorMessage_def json_Marshal_def
        simp del: ErrorString.simps)
qed

text \<open>C8. Round trip of a message: the text json.Marshal writes for a message whose strings are ASCII and whose
  raw members are compact JSON is read back by readBatch as the same single message, whatever follows it in the stream; only the data of
  an error comes back as decoded JSON. The text that follows is left in the stream.\<close>

theorem message_round_trip:
  assumes "msg_ok ut m" and "encode_message ut m = Inr txt" and "delim rest"
  shows "\<exists>j. json_parse (txt @ rest) = Some (j, rest) \<and> readBatch (Inr j) = Inr ([received ut m], False)"
  using encoded_message_read [OF assms] by blast

theorem message_round_trip_witness:
  "\<exists>txt j. encode_message no_types enc_call = Inr txt \<and> json_parse (txt @ [CHR 0x0A]) = Some (j, [CHR 0x0A]) \<and>
     readBatch (Inr j) = Inr ([received no_types enc_call], False)"
proof -
  have "\<exists>txt. encode_message no_types enc_call = Inr txt" by (simp add: encode_message_def enc_call_def new_jsonrpcMessage_def)
  then obtain w where enc: "encode_message no_types enc_call = Inr w" by blast
  have "delim [CHR 0x0A]" by code_simp
  from message_round_trip [OF enc_demo_ok(1) enc this] enc show ?thesis by blast
qed

text \<open>C30. Round trip of a batch: the text of a batch is read back as a batch of the same messages in the same
  order.\<close>

theorem batch_round_trip:
  assumes "\<forall>m \<in> set ms. msg_ok ut m" and "encode_batch ut ms = Inr txt" and "delim rest"
  shows "\<exists>j. json_parse (txt @ rest) = Some (j, rest) \<and> readBatch (Inr j) = Inr (map (received ut) ms, True)"
proof -
  obtain ts where ts: "encode_messages ut ms = Inr ts" "txt = encode_array ts"
    using assms(2) by (auto simp: encode_batch_def split: sum.splits)
  note t = encode_messages_tree [OF assms(1) ts(1)]
  let ?j = "JArr (encode_array (map raw_of (map (message_tree ut) ms))) (map (message_tree ut) ms)"
  have "json_text ?j" using t by (intro json_text_array) blast
  from json_parse_text [OF this assms(3)] have "json_parse (txt @ rest) = Some (?j, rest)" using t ts(2) by simp
  moreover have "readBatch (Inr ?j) = Inr (map (received ut) ms, True)"
    using t isBatch_array by (simp add: readBatch_def parseMessage_def array_elems_def comp_def)
  ultimately show ?thesis by blast
qed

theorem batch_round_trip_witness:
  "\<exists>txt j. encode_batch no_types [enc_call, enc_error] = Inr txt \<and> json_parse (txt @ '''') = Some (j, '''') \<and>
     readBatch (Inr j) = Inr (map (received no_types) [enc_call, enc_error], True)"
proof -
  have d: "\<exists>e. Error enc_error = Some e \<and> Data e = GoNil" "Error enc_call = None"
    by (simp_all add: enc_error_def errorResponse_def errorMessage_def enc_call_def new_jsonrpcMessage_def)
  have "\<exists>txt. encode_batch no_types [enc_call, enc_error] = Inr txt"
    using d by (auto simp: encode_batch_def encode_message_def encode_jsonError_def Let_def)
  then obtain w where enc: "encode_batch no_types [enc_call, enc_error] = Inr w" by blast
  have "delim ''''" by (simp add: delim_def)
  moreover have "\<forall>m \<in> set [enc_call, enc_error]. msg_ok no_types m" using enc_demo_ok by simp
  ultimately show ?thesis using batch_round_trip [OF _ enc, of "''''"] enc by blast
qed

end
