(* ===== verification/Rpc_Types.thy ===== *)
theory Rpc_Types
  imports Rpc_Encoding
begin

text \<open>
  types.go: block numbers and BlockNumberOrHash with their JSON forms.

  A BlockNumber is an int64, a word of 64 bits. Packages hexutil and common of go-ethereum are
  not part of this repository: their functions are the fields of \<open>ethlib\<close>, and \<open>ethlib_ok\<close> states what their documentation says
  about them. A hash is the string of its bytes.
\<close>

section \<open>The library\<close>

record ethlib =
  DecodeUint64 :: "string \<Rightarrow> goerr + 64 word"
  Uint64_String :: "64 word \<Rightarrow> string"
  Hash_UnmarshalText :: "string \<Rightarrow> goerr + string"
  Hash_UnmarshalJSON :: "json \<Rightarrow> goerr + string"
  Hash_String :: "string \<Rightarrow> string"

text \<open>A quantity is the prefix 0x and at most 16 digits and is decoded to the number it was made from; text without the
  prefix is no quantity. A hash has 32 bytes, its text has 66 characters and is decoded to the hash.\<close>

definition hex_chars :: "char set" where
  "hex_chars = set ''0123456789abcdefx''"

definition ethlib_ok :: "ethlib \<Rightarrow> bool" where
  "ethlib_ok L \<longleftrightarrow>
     (\<forall>n. DecodeUint64 L (Uint64_String L n) = Inr n) \<and>
     (\<forall>n. strings_HasPrefix (Uint64_String L n) ''0x'' \<and> set (Uint64_String L n) \<subseteq> hex_chars \<and> length (Uint64_String L n) \<le> 18) \<and>
     (\<forall>s n. DecodeUint64 L s = Inr n \<longrightarrow> strings_HasPrefix s ''0x'' \<or> strings_HasPrefix s ''0X'') \<and>
     (\<forall>h. length h = 32 \<longrightarrow> Hash_UnmarshalText L (Hash_String L h) = Inr h \<and>
          Hash_UnmarshalJSON L (JStr (quote_string (Hash_String L h))) = Inr h \<and>
          length (Hash_String L h) = 66 \<and> set (Hash_String L h) \<subseteq> hex_chars)"

section \<open>Block numbers\<close>

type_synonym BlockNumber = "64 word"

definition SafeBlockNumber :: BlockNumber where "SafeBlockNumber = -4"
definition FinalizedBlockNumber :: BlockNumber where "FinalizedBlockNumber = -3"
definition LatestBlockNumber :: BlockNumber where "LatestBlockNumber = -2"
definition PendingBlockNumber :: BlockNumber where "PendingBlockNumber = -1"
definition EarliestBlockNumber :: BlockNumber where "EarliestBlockNumber = 0"

lemmas block_tags = SafeBlockNumber_def FinalizedBlockNumber_def LatestBlockNumber_def PendingBlockNumber_def EarliestBlockNumber_def

definition math_MaxInt64 :: "64 word" where
  "math_MaxInt64 = 0x7FFFFFFFFFFFFFFF"

text \<open>The switch over the tags, which occurs twice in the source.\<close>

definition block_tag :: "string \<Rightarrow> BlockNumber option" where
  "block_tag s =
     (if s = ''earliest'' then Some EarliestBlockNumber
      else if s = ''latest'' then Some LatestBlockNumber
      else if s = ''pending'' then Some PendingBlockNumber
      else if s = ''finalized'' then Some FinalizedBlockNumber
      else if s = ''safe'' then Some SafeBlockNumber
      else None)"

definition trim_quotes :: "string \<Rightarrow> string" where
  "trim_quotes s = (if 2 \<le> length s \<and> hd s = CHR 0x22 \<and> last s = CHR 0x22 then butlast (tl s) else s)"

definition BlockNumber_UnmarshalJSON :: "ethlib \<Rightarrow> string \<Rightarrow> goerr + BlockNumber" where
  "BlockNumber_UnmarshalJSON L data =
     (let input = trim_quotes (strings_TrimSpace data) in
      case block_tag input of
        Some bn \<Rightarrow> Inr bn
      | None \<Rightarrow>
          (case DecodeUint64 L input of
             Inl err \<Rightarrow> Inl err
           | Inr blckNum \<Rightarrow>
               (if math_MaxInt64 < blckNum then Inl (PlainErr ''block number larger than int64'') else Inr blckNum)))"

definition BlockNumber_Int64 :: "BlockNumber \<Rightarrow> int" where
  "BlockNumber_Int64 bn = sint bn"

definition BlockNumber_String :: "ethlib \<Rightarrow> BlockNumber \<Rightarrow> string" where
  "BlockNumber_String L bn =
     (if bn = EarliestBlockNumber then ''earliest''
      else if bn = LatestBlockNumber then ''latest''
      else if bn = PendingBlockNumber then ''pending''
      else if bn = FinalizedBlockNumber then ''finalized''
      else if bn = SafeBlockNumber then ''safe''
      else if sint bn < 0 then ''<invalid '' @ strconv_Itoa (sint bn) @ ''>''
      else Uint64_String L bn)"

definition BlockNumber_MarshalText :: "ethlib \<Rightarrow> BlockNumber \<Rightarrow> goerr + string" where
  "BlockNumber_MarshalText L bn = Inr (BlockNumber_String L bn)"

section \<open>Block number or hash\<close>

record BlockNumberOrHash =
  bnh_BlockNumber :: "BlockNumber option"
  bnh_BlockHash :: "string option"
  bnh_RequireCanonical :: bool

definition new_BlockNumberOrHash :: BlockNumberOrHash where
  "new_BlockNumberOrHash = \<lparr>bnh_BlockNumber = None, bnh_BlockHash = None, bnh_RequireCanonical = False\<rparr>"

text \<open>json.Unmarshal into the struct: a member that cannot be decoded is left alone and makes the whole
  fail; the flag is the error that is remembered.\<close>

definition decode_bnh_member :: "ethlib \<Rightarrow> string \<times> json \<Rightarrow> BlockNumberOrHash \<times> bool \<Rightarrow> BlockNumberOrHash \<times> bool" where
  "decode_bnh_member L kv eb =
     (case eb of (e, bad) \<Rightarrow>
      (if field_matches (fst kv) ''blockNumber'' then
         (if snd kv = JNull then (e\<lparr>bnh_BlockNumber := None\<rparr>, bad)
          else case BlockNumber_UnmarshalJSON L (raw_of (snd kv)) of
            Inl _ \<Rightarrow> (e, True)
          | Inr bn \<Rightarrow> (e\<lparr>bnh_BlockNumber := Some bn\<rparr>, bad))
       else if field_matches (fst kv) ''blockHash'' then
         (if snd kv = JNull then (e\<lparr>bnh_BlockHash := None\<rparr>, bad)
          else case Hash_UnmarshalJSON L (snd kv) of
            Inl _ \<Rightarrow> (e, True)
          | Inr h \<Rightarrow> (e\<lparr>bnh_BlockHash := Some h\<rparr>, bad))
       else if field_matches (fst kv) ''requireCanonical'' then
         (case snd kv of JNull \<Rightarrow> (e, bad) | JBool b \<Rightarrow> (e\<lparr>bnh_RequireCanonical := b\<rparr>, bad) | _ \<Rightarrow> (e, True))
       else (e, bad)))"

definition decode_bnh :: "ethlib \<Rightarrow> json \<Rightarrow> BlockNumberOrHash option" where
  "decode_bnh L j =
     (case j of
        JNull \<Rightarrow> Some new_BlockNumberOrHash
      | JObj _ kvs \<Rightarrow> (case fold (decode_bnh_member L) kvs (new_BlockNumberOrHash, False) of (e, bad) \<Rightarrow> if bad then None else Some e)
      | _ \<Rightarrow> None)"

definition BlockNumberOrHash_UnmarshalJSON :: "ethlib \<Rightarrow> string \<Rightarrow> BlockNumberOrHash \<Rightarrow> goerr + BlockNumberOrHash" where
  "BlockNumberOrHash_UnmarshalJSON L data bnh =
     (case json_parse data of
        None \<Rightarrow> Inl (SyntaxErr ''unexpected end of JSON input'')
      | Some (j, rest) \<Rightarrow>
          (if skip_ws rest \<noteq> [] then Inl (SyntaxErr ''invalid character after top-level value'')
           else case decode_bnh L j of
             Some e \<Rightarrow>
               (if bnh_BlockNumber e \<noteq> None \<and> bnh_BlockHash e \<noteq> None
                then Inl (PlainErr ''cannot specify both BlockHash and BlockNumber, choose one or the other'')
                else Inr (bnh\<lparr>bnh_BlockNumber := bnh_BlockNumber e, bnh_BlockHash := bnh_BlockHash e,
                              bnh_RequireCanonical := bnh_RequireCanonical e\<rparr>))
           | None \<Rightarrow>
               (case j of
                  JStr lit \<Rightarrow>
                    (let input = unquote_string lit in
                     case block_tag input of
                       Some bn \<Rightarrow> Inr (bnh\<lparr>bnh_BlockNumber := Some bn\<rparr>)
                     | None \<Rightarrow>
                         (if length input = 66 then
                            (case Hash_UnmarshalText L input of
                               Inl err \<Rightarrow> Inl err
                             | Inr h \<Rightarrow> Inr (bnh\<lparr>bnh_BlockHash := Some h\<rparr>))
                          else
                            (case DecodeUint64 L input of
                               Inl err \<Rightarrow> Inl err
                             | Inr blckNum \<Rightarrow>
                                 (if math_MaxInt64 < blckNum then Inl (PlainErr ''blocknumber too high'')
                                  else Inr (bnh\<lparr>bnh_BlockNumber := Some blckNum\<rparr>)))))
                | _ \<Rightarrow> Inl (PlainErr (''json: cannot unmarshal '' @ json_kind j @ '' into Go value of type string'')))))"

definition bnh_Number :: "BlockNumberOrHash \<Rightarrow> BlockNumber \<times> bool" where
  "bnh_Number bnh = (case bnh_BlockNumber bnh of Some bn \<Rightarrow> (bn, True) | None \<Rightarrow> (0, False))"

definition bnh_String :: "ethlib \<Rightarrow> BlockNumberOrHash \<Rightarrow> string" where
  "bnh_String L bnh =
     (case bnh_BlockNumber bnh of
        Some bn \<Rightarrow> BlockNumber_String L bn
      | None \<Rightarrow> (case bnh_BlockHash bnh of Some h \<Rightarrow> Hash_String L h | None \<Rightarrow> ''nil''))"

definition bnh_Hash :: "BlockNumberOrHash \<Rightarrow> string \<times> bool" where
  "bnh_Hash bnh = (case bnh_BlockHash bnh of Some h \<Rightarrow> (h, True) | None \<Rightarrow> (replicate 32 (CHR 0x00), False))"

definition BlockNumberOrHashWithNumber :: "BlockNumber \<Rightarrow> BlockNumberOrHash" where
  "BlockNumberOrHashWithNumber bn = \<lparr>bnh_BlockNumber = Some bn, bnh_BlockHash = None, bnh_RequireCanonical = False\<rparr>"

definition BlockNumberOrHashWithHash :: "string \<Rightarrow> bool \<Rightarrow> BlockNumberOrHash" where
  "BlockNumberOrHashWithHash h canonical = \<lparr>bnh_BlockNumber = None, bnh_BlockHash = Some h, bnh_RequireCanonical = canonical\<rparr>"

text \<open>json.Marshal of the struct, by its tags; a block number is encoded by its MarshalText, a hash as its text.\<close>

definition encode_bnh :: "ethlib \<Rightarrow> BlockNumberOrHash \<Rightarrow> string" where
  "encode_bnh L bnh =
     encode_object
       ((case bnh_BlockNumber bnh of Some bn \<Rightarrow> [(''blockNumber'', quote_string (BlockNumber_String L bn))] | None \<Rightarrow> []) @
        (case bnh_BlockHash bnh of Some h \<Rightarrow> [(''blockHash'', quote_string (Hash_String L h))] | None \<Rightarrow> []) @
        opt_member (bnh_RequireCanonical bnh) ''requireCanonical'' ''true'')"

section \<open>Texts without escapes\<close>

lemma hex_chars_plain: "c \<in> hex_chars \<Longrightarrow> byte c < 0x80 \<and> escape_ascii c = [c]"
proof -
  have "\<forall>c \<in> set ''0123456789abcdefx''. byte c < 0x80 \<and> escape_ascii c = [c]" by code_simp
  then show "c \<in> hex_chars \<Longrightarrow> byte c < 0x80 \<and> escape_ascii c = [c]" by (simp only: hex_chars_def)
qed

lemma hex_text_plain: "set s \<subseteq> hex_chars \<Longrightarrow> ascii s \<and> quote_body s = s"
  by (induction s) (use hex_chars_plain in \<open>auto simp: ascii_def\<close>)

text \<open>The text between the quotes.\<close>

lemma trim_quoted: "trim_quotes (strings_TrimSpace (CHR 0x22 # s @ [CHR 0x22])) = s"
proof -
  have sp: "\<not> unicode_space CHR 0x22" by code_simp
  then have "strings_TrimSpace (CHR 0x22 # s @ [CHR 0x22]) = CHR 0x22 # s @ [CHR 0x22]" by (simp add: strings_TrimSpace_def)
  then show ?thesis by (simp add: trim_quotes_def)
qed

lemma block_tag_prefix: "strings_HasPrefix s ''0x'' \<Longrightarrow> block_tag s = None"
proof -
  assume "strings_HasPrefix s ''0x''"
  then obtain t where "s = CHR ''0'' # t" by (cases s) (simp_all add: strings_HasPrefix_def)
  then show ?thesis by (simp add: block_tag_def)
qed

lemma not_prefix_brackets: "\<not> strings_HasPrefix (quote_body (CHR ''<'' # s)) ''0x''" "\<not> strings_HasPrefix (quote_body (CHR ''<'' # s)) ''0X''"
  "block_tag (quote_body (CHR ''<'' # s)) = None"
proof -
  have "escape_ascii CHR ''<'' = CHR 0x5C # tl (escape_ascii CHR ''<'')" "byte CHR ''<'' < 0x80" by code_simp+
  then obtain u where "quote_body (CHR ''<'' # s) = CHR 0x5C # u" by (metis append_Cons quote_body.simps(2))
  then show "\<not> strings_HasPrefix (quote_body (CHR ''<'' # s)) ''0x''" "\<not> strings_HasPrefix (quote_body (CHR ''<'' # s)) ''0X''"
    "block_tag (quote_body (CHR ''<'' # s)) = None"
    by (simp_all add: strings_HasPrefix_def block_tag_def)
qed

section \<open>The range of block numbers\<close>

lemma sint_small: "\<not> math_MaxInt64 < w \<Longrightarrow> sint w = uint w"
proof -
  assume "\<not> math_MaxInt64 < w"
  then have "uint w \<le> 2 ^ 63 - 1" by (simp add: math_MaxInt64_def word_less_def)
  then have "signed_take_bit 63 (uint w) = uint w"
    by (intro signed_take_bit_int_eq_self) (use uint_ge_0 [of w] in linarith)+
  then show "sint w = uint w" by (simp add: sint_uint)
qed

lemma sint_nonneg: "\<not> math_MaxInt64 < w \<Longrightarrow> 0 \<le> sint w"
  using sint_small [of w] uint_ge_0 [of w] by simp

lemma sint_nonneg_small: "0 \<le> sint w \<Longrightarrow> \<not> math_MaxInt64 < w"
proof
  assume "0 \<le> sint w" "math_MaxInt64 < w"
  have b: "2 ^ 63 \<le> uint w" using \<open>math_MaxInt64 < w\<close> by (simp add: math_MaxInt64_def word_less_def)
  have "sint w = uint w - 2 ^ 64"
  proof -
    have "uint w < 2 ^ 64" using uint_lt2p [of w] by simp
    then have "signed_take_bit 63 (uint w - 2 ^ 64) = uint w - 2 ^ 64" using b by (intro signed_take_bit_int_eq_self) simp_all
    moreover have "signed_take_bit 63 (uint w - 2 ^ 64) = signed_take_bit 63 (uint w)"
      by (simp add: signed_take_bit_eq_iff_take_bit_eq take_bit_eq_mod)
    ultimately show ?thesis by (simp add: sint_uint)
  qed
  then show False using \<open>0 \<le> sint w\<close> uint_lt2p [of w] by simp
qed

lemma block_tag_range: "block_tag s = Some bn \<Longrightarrow> -4 \<le> sint bn \<and> sint bn \<le> 0"
  by (auto simp: block_tag_def block_tags split: if_splits)

lemma sint_bounds: "sint (bn :: 64 word) < 2 ^ 63"
  using sint_lt [of bn] by simp

lemma BlockNumber_UnmarshalJSON_range:
  assumes "BlockNumber_UnmarshalJSON L data = Inr bn"
  shows "-4 \<le> sint bn" and "sint bn < 0 \<Longrightarrow> block_tag (trim_quotes (strings_TrimSpace data)) = Some bn"
  using assms block_tag_range [of _ bn] sint_nonneg [of bn]
  by (auto simp: BlockNumber_UnmarshalJSON_def Let_def split: option.splits sum.splits if_splits)

text \<open>The text of a block number in JSON.\<close>

lemma tag_texts:
  "quote_body ''earliest'' = ''earliest''" "quote_body ''latest'' = ''latest''" "quote_body ''pending'' = ''pending''"
  "quote_body ''finalized'' = ''finalized''" "quote_body ''safe'' = ''safe''"
  by code_simp+

lemma BlockNumber_String_cases:
  assumes "ethlib_ok L"
  shows "block_tag (BlockNumber_String L bn) = Some bn \<and> quote_body (BlockNumber_String L bn) = BlockNumber_String L bn \<and> -4 \<le> sint bn \<and> sint bn \<le> 0 \<or>
    0 \<le> sint bn \<and> BlockNumber_String L bn = Uint64_String L bn \<or>
    sint bn < -4 \<and> (\<exists>s. BlockNumber_String L bn = CHR ''<'' # s)"
proof -
  have tags: "block_tag (BlockNumber_String L bn) = Some bn \<and> quote_body (BlockNumber_String L bn) = BlockNumber_String L bn"
    if "bn \<in> {EarliestBlockNumber, LatestBlockNumber, PendingBlockNumber, FinalizedBlockNumber, SafeBlockNumber}"
    using that by (elim insertE emptyE) (simp_all add: BlockNumber_String_def block_tag_def block_tags tag_texts del: quote_body.simps)
  show ?thesis
  proof (cases "bn \<in> {EarliestBlockNumber, LatestBlockNumber, PendingBlockNumber, FinalizedBlockNumber, SafeBlockNumber}")
    case True
    then show ?thesis using tags [OF True] block_tag_range [of "BlockNumber_String L bn" bn] by blast
  next
    case False
    then have eq: "BlockNumber_String L bn = (if sint bn < 0 then ''<invalid '' @ strconv_Itoa (sint bn) @ ''>'' else Uint64_String L bn)"
      by (simp add: BlockNumber_String_def)
    have "sint bn \<noteq> -1 \<and> sint bn \<noteq> -2 \<and> sint bn \<noteq> -3 \<and> sint bn \<noteq> -4"
    proof -
      have "sint (-1 :: 64 word) = -1" "sint (-2 :: 64 word) = -2" "sint (-3 :: 64 word) = -3" "sint (-4 :: 64 word) = -4" by simp_all
      then show ?thesis using False by (metis block_tags(1-4) insertCI signed_word_eqI)
    qed
    then show ?thesis unfolding eq by (cases "sint bn < 0") auto
  qed
qed

section \<open>BlockNumberOrHash\<close>

text \<open>At most one of number and hash, and a number in range.\<close>

definition bnh_ok :: "BlockNumberOrHash \<Rightarrow> bool" where
  "bnh_ok bnh \<longleftrightarrow>
     (bnh_BlockNumber bnh = None \<or> bnh_BlockHash bnh = None) \<and>
     (\<forall>bn. bnh_BlockNumber bnh = Some bn \<longrightarrow> -4 \<le> sint bn)"

lemma decode_bnh_member_range:
  assumes "\<forall>bn. bnh_BlockNumber (fst eb) = Some bn \<longrightarrow> -4 \<le> sint bn"
  shows "\<forall>bn. bnh_BlockNumber (fst (decode_bnh_member L kv eb)) = Some bn \<longrightarrow> -4 \<le> sint bn"
proof -
  obtain e b where eb: "eb = (e, b)" by fastforce
  have "bnh_BlockNumber (fst (decode_bnh_member L kv (e, b))) = bnh_BlockNumber e \<or>
      bnh_BlockNumber (fst (decode_bnh_member L kv (e, b))) = None \<or>
      (\<exists>bn. bnh_BlockNumber (fst (decode_bnh_member L kv (e, b))) = Some bn \<and> BlockNumber_UnmarshalJSON L (raw_of (snd kv)) = Inr bn)"
    by (simp add: decode_bnh_member_def split: sum.split json.split)
  then show ?thesis using assms BlockNumber_UnmarshalJSON_range(1) [of L "raw_of (snd kv)"] unfolding eb by auto
qed

lemma decode_bnh_range:
  assumes "decode_bnh L j = Some e"
  shows "\<forall>bn. bnh_BlockNumber e = Some bn \<longrightarrow> -4 \<le> sint bn"
proof -
  have "\<forall>bn. bnh_BlockNumber (fst (fold (decode_bnh_member L) kvs eb)) = Some bn \<longrightarrow> -4 \<le> sint bn"
    if "\<forall>bn. bnh_BlockNumber (fst eb) = Some bn \<longrightarrow> -4 \<le> sint bn" for kvs eb
    by (rule fold_invariant [where Q = "\<lambda>_. True"]) (use that decode_bnh_member_range in blast)+
  note r = this
  have "e = new_BlockNumberOrHash \<or> (\<exists>kvs b. fold (decode_bnh_member L) kvs (new_BlockNumberOrHash, False) = (e, b))"
    using assms by (auto simp: decode_bnh_def split: json.splits if_splits prod.splits)
  then show ?thesis
  proof (elim disjE exE)
    fix kvs b assume "fold (decode_bnh_member L) kvs (new_BlockNumberOrHash, False) = (e, b)"
    with r [of "(new_BlockNumberOrHash, False)" kvs] show ?thesis by (simp add: new_BlockNumberOrHash_def)
  qed (simp add: new_BlockNumberOrHash_def)
qed

text \<open>The member names.\<close>

lemma bnh_names:
  "ascii ''blockNumber''" "ascii ''blockHash''" "ascii ''requireCanonical''"
  "fold_name ''blockNumber'' = ''BLOCKNUMBER''" "fold_name ''blockHash'' = ''BLOCKHASH''" "fold_name ''requireCanonical'' = ''REQUIRECANONICAL''"
  by code_simp+

lemma decode_bnh_key:
  "bn \<noteq> JNull \<Longrightarrow> BlockNumber_UnmarshalJSON L (raw_of bn) = Inr n \<Longrightarrow>
     decode_bnh_member L (quote_string ''blockNumber'', bn) (e, b) = (e\<lparr>bnh_BlockNumber := Some n\<rparr>, b)"
  "h \<noteq> JNull \<Longrightarrow> Hash_UnmarshalJSON L h = Inr x \<Longrightarrow>
     decode_bnh_member L (quote_string ''blockHash'', h) (e, b) = (e\<lparr>bnh_BlockHash := Some x\<rparr>, b)"
  "decode_bnh_member L (quote_string ''requireCanonical'', JBool True) (e, b) = (e\<lparr>bnh_RequireCanonical := True\<rparr>, b)"
  by (simp_all add: decode_bnh_member_def field_matches_quote bnh_names del: fold_name.simps)

definition bnh_members :: "ethlib \<Rightarrow> BlockNumberOrHash \<Rightarrow> (string \<times> json) list" where
  "bnh_members L bnh =
     (case bnh_BlockNumber bnh of Some bn \<Rightarrow> [(''blockNumber'', str_json (BlockNumber_String L bn))] | None \<Rightarrow> []) @
     (case bnh_BlockHash bnh of Some h \<Rightarrow> [(''blockHash'', str_json (Hash_String L h))] | None \<Rightarrow> []) @
     opt_tree (bnh_RequireCanonical bnh) ''requireCanonical'' (JBool True)"

lemma encode_bnh_tree: "encode_bnh L bnh = raw_of (object_tree (bnh_members L bnh))"
  by (simp add: encode_bnh_def bnh_members_def raw_object_tree opt_member_def opt_tree_def split: option.split)

lemma BlockNumber_String_ascii: "ethlib_ok L \<Longrightarrow> -4 \<le> sint bn \<Longrightarrow> ascii (BlockNumber_String L bn)"
proof -
  assume L: "ethlib_ok L" and r: "-4 \<le> sint bn"
  have "ascii (BlockNumber_String L bn)" if "block_tag (BlockNumber_String L bn) = Some bn"
  proof -
    have "BlockNumber_String L bn \<in> {''earliest'', ''latest'', ''pending'', ''finalized'', ''safe''}"
      using that by (auto simp: block_tag_def split: if_splits)
    moreover have "\<forall>s \<in> {''earliest'', ''latest'', ''pending'', ''finalized'', ''safe''}. ascii s" by code_simp
    ultimately show ?thesis by blast
  qed
  moreover have "ascii (Uint64_String L bn)" using L hex_text_plain by (simp add: ethlib_ok_def)
  ultimately show ?thesis using BlockNumber_String_cases [OF L, of bn] r by auto
qed

lemma bnh_members_text:
  assumes "ethlib_ok L" and "bnh_ok bnh" and "\<forall>h. bnh_BlockHash bnh = Some h \<longrightarrow> length h = 32"
  shows "json_text (object_tree (bnh_members L bnh))"
proof -
  have "json_text (JBool True)" by code_simp
  moreover have "ascii (Hash_String L h)" if "bnh_BlockHash bnh = Some h" for h
    using assms(1,3) that hex_text_plain by (simp add: ethlib_ok_def)
  moreover have "ascii (BlockNumber_String L bn)" if "bnh_BlockNumber bnh = Some bn" for bn
    using BlockNumber_String_ascii [OF assms(1)] assms(2) that by (simp add: bnh_ok_def)
  ultimately show ?thesis
    by (intro json_text_object) (auto simp: bnh_members_def opt_tree_def bnh_names json_text_quote split: option.splits if_splits)
qed

lemma block_number_read:
  assumes "ethlib_ok L"
  shows "BlockNumber_UnmarshalJSON L (quote_string (BlockNumber_String L bn)) = Inr bn \<longleftrightarrow> -4 \<le> sint bn"
proof -
  have u: "BlockNumber_UnmarshalJSON L (quote_string t) =
      (case block_tag (quote_body t) of Some bn \<Rightarrow> Inr bn | None \<Rightarrow>
        (case DecodeUint64 L (quote_body t) of Inl err \<Rightarrow> Inl err | Inr n \<Rightarrow>
          if math_MaxInt64 < n then Inl (PlainErr ''block number larger than int64'') else Inr n))" for t
    by (simp add: BlockNumber_UnmarshalJSON_def quote_string_def trim_quoted Let_def)
  show ?thesis
    using BlockNumber_String_cases [OF assms, of bn]
  proof (elim disjE conjE exE)
    assume "0 \<le> sint bn" "BlockNumber_String L bn = Uint64_String L bn"
    moreover have "quote_body (Uint64_String L bn) = Uint64_String L bn" "block_tag (Uint64_String L bn) = None"
      "DecodeUint64 L (Uint64_String L bn) = Inr bn"
      using assms hex_text_plain block_tag_prefix by (simp_all add: ethlib_ok_def)
    ultimately show ?thesis using sint_nonneg_small [of bn] by (simp add: u)
  next
    fix s assume neg: "sint bn < -4" and eq: "BlockNumber_String L bn = CHR ''<'' # s"
    have "\<exists>e. DecodeUint64 L (quote_body (CHR ''<'' # s)) = Inl e"
      using assms not_prefix_brackets(1,2) [of s] by (cases "DecodeUint64 L (quote_body (CHR ''<'' # s))") (auto simp: ethlib_ok_def)
    then show ?thesis using neg eq not_prefix_brackets(3) [of s] by (auto simp: u)
  qed (simp add: u)
qed

lemma decode_bnh_members:
  assumes "ethlib_ok L" and "bnh_ok bnh" and "\<forall>h. bnh_BlockHash bnh = Some h \<longrightarrow> length h = 32"
  shows "decode_bnh L (object_tree (bnh_members L bnh)) = Some bnh"
proof -
  have n: "BlockNumber_UnmarshalJSON L (quote_string (BlockNumber_String L bn)) = Inr bn" if "bnh_BlockNumber bnh = Some bn" for bn
    using block_number_read [OF assms(1), of bn] assms(2) that by (simp add: bnh_ok_def)
  have h: "Hash_UnmarshalJSON L (str_json (Hash_String L h)) = Inr h" if "bnh_BlockHash bnh = Some h" for h
    using assms(1,3) that by (simp add: ethlib_ok_def)
  obtain num hash canon where b: "bnh = \<lparr>bnh_BlockNumber = num, bnh_BlockHash = hash, bnh_RequireCanonical = canon\<rparr>" by (cases bnh)
  show ?thesis
    using n h unfolding b
    by (cases num; cases hash; cases canon)
      (simp_all add: object_tree_def bnh_members_def opt_tree_def decode_bnh_def decode_bnh_key new_BlockNumberOrHash_def)
qed

section \<open>A library that behaves as documented\<close>

fun hex_nat :: "nat \<Rightarrow> string" where
  "hex_nat n = (if n < 16 then [hex_digit n] else hex_nat (n div 16) @ [hex_digit (n mod 16)])"

declare hex_nat.simps [simp del]

definition hex_value :: "string \<Rightarrow> nat" where
  "hex_value s = foldl (\<lambda>a c. 16 * a + the (hex_val c)) 0 s"

fun hex_bytes :: "string \<Rightarrow> string" where
  "hex_bytes [] = []"
| "hex_bytes (c # cs) = hex_digit (byte c div 16) # hex_digit (byte c mod 16) # hex_bytes cs"

fun unhex_bytes :: "string \<Rightarrow> string option" where
  "unhex_bytes [] = Some []"
| "unhex_bytes (a # b # cs) =
     (case (hex_val a, hex_val b, unhex_bytes cs) of
        (Some x, Some y, Some r) \<Rightarrow> Some (char_of (16 * x + y) # r)
      | _ \<Rightarrow> None)"
| "unhex_bytes _ = None"

definition demo_eth :: ethlib where
  "demo_eth =
     (let unmarshal = (\<lambda>s. if strings_HasPrefix s ''0x'' \<and> length s = 66
                           then (case unhex_bytes (drop 2 s) of Some h \<Rightarrow> Inr h | None \<Rightarrow> Inl (PlainErr ''invalid hex string''))
                           else Inl (PlainErr ''hex string has wrong length''))
      in \<lparr>DecodeUint64 = (\<lambda>s. if strings_HasPrefix s ''0x'' \<and> drop 2 s \<noteq> [] \<and> length s \<le> 18 \<and> (\<forall>c \<in> set (drop 2 s). hex_val c \<noteq> None)
                               then Inr (of_nat (hex_value (drop 2 s))) else Inl (PlainErr ''invalid hex string'')),
          Uint64_String = (\<lambda>n. ''0x'' @ hex_nat (unat n)),
          Hash_UnmarshalText = unmarshal,
          Hash_UnmarshalJSON = (\<lambda>j. case j of JStr lit \<Rightarrow> unmarshal (unquote_string lit) | _ \<Rightarrow> Inl (PlainErr ''non-string'')),
          Hash_String = (\<lambda>h. ''0x'' @ hex_bytes h)\<rparr>)"

lemma hex_digit_chars: "d < 16 \<Longrightarrow> hex_digit d \<in> hex_chars"
proof -
  have "\<forall>d < 16. hex_digit d \<in> set ''0123456789abcdefx''" by code_simp
  then show "d < 16 \<Longrightarrow> hex_digit d \<in> hex_chars" by (simp only: hex_chars_def)
qed

lemma hex_nat_props: "hex_value (hex_nat n) = n \<and> hex_nat n \<noteq> [] \<and> set (hex_nat n) \<subseteq> hex_digit ` {..<16}"
proof (induction n rule: hex_nat.induct)
  case (1 n)
  show ?case
  proof (cases "n < 16")
    case True
    then show ?thesis by (simp add: hex_nat.simps [of n] hex_value_def)
  next
    case False
    have s: "hex_nat n = hex_nat (n div 16) @ [hex_digit (n mod 16)]" using False by (simp add: hex_nat.simps [of n])
    show ?thesis unfolding s using 1 [OF False] by (simp add: hex_value_def)
  qed
qed

lemma hex_nat_length: "n < 16 ^ Suc k \<Longrightarrow> length (hex_nat n) \<le> Suc k"
proof (induction k arbitrary: n)
  case (Suc k)
  then have "n div 16 < 16 ^ Suc k" by (simp add: div_less_iff_less_mult mult.commute)
  then show ?case using Suc.IH [of "n div 16"] by (simp add: hex_nat.simps [of n])
qed (simp add: hex_nat.simps)

lemma unhex_hex_bytes: "unhex_bytes (hex_bytes h) = Some h"
proof (induction h)
  case (Cons c h)
  have "byte c < 256" by (simp add: byte_def)
  then have "byte c div 16 < 16" by (simp add: div_less_iff_less_mult)
  moreover have "char_of (16 * (byte c div 16) + byte c mod 16) = c" by (simp add: byte_def)
  ultimately show ?case using Cons by simp
qed simp

lemma hex_bytes_props: "length (hex_bytes h) = 2 * length h \<and> set (hex_bytes h) \<subseteq> hex_chars"
proof (induction h)
  case (Cons c h)
  have "byte c < 256" by (simp add: byte_def)
  then have "byte c div 16 < 16" by (simp add: div_less_iff_less_mult)
  then show ?case using Cons hex_digit_chars by simp
qed simp

lemma demo_eth_ok: "ethlib_ok demo_eth"
proof -
  have x: "set ''0x'' \<subseteq> hex_chars" by (simp add: hex_chars_def)
  have n: "set (hex_nat (unat m)) \<subseteq> hex_chars" for m :: "64 word"
    using hex_nat_props [of "unat m"] hex_digit_chars by (auto simp: image_subset_iff)
  have len: "length (hex_nat (unat m)) \<le> 16" for m :: "64 word"
    using hex_nat_length [of "unat m" 15] unsigned_less [of m, where 'a = nat] by simp
  have v: "\<forall>c \<in> set (hex_nat (unat m)). hex_val c \<noteq> None" for m :: "64 word"
    using hex_nat_props [of "unat m"] by (auto simp: image_subset_iff subset_iff)
  have h: "ascii (''0x'' @ hex_bytes g)" for g
    using hex_text_plain [of "''0x'' @ hex_bytes g"] hex_bytes_props [of g] x by auto
  have q: "unquote_string (quote_string (''0x'' @ hex_bytes g)) = ''0x'' @ hex_bytes g" for g by (rule unquote_quote_string [OF h])
  show ?thesis
    unfolding ethlib_ok_def demo_eth_def Let_def ethlib.simps
  proof (intro conjI allI impI)
    fix m :: "64 word"
    show "(if strings_HasPrefix (''0x'' @ hex_nat (unat m)) ''0x'' \<and> drop 2 (''0x'' @ hex_nat (unat m)) \<noteq> [] \<and>
        length (''0x'' @ hex_nat (unat m)) \<le> 18 \<and> (\<forall>c \<in> set (drop 2 (''0x'' @ hex_nat (unat m))). hex_val c \<noteq> None)
        then Inr (of_nat (hex_value (drop 2 (''0x'' @ hex_nat (unat m))))) else Inl (PlainErr ''invalid hex string'')) = Inr m"
      using len [of m] v [of m] hex_nat_props [of "unat m"] by (simp add: strings_HasPrefix_def)
  qed (use n len x q hex_bytes_props unhex_hex_bytes in \<open>auto simp: strings_HasPrefix_def simp del: unquote_quote_string split: if_splits\<close>)
qed

section \<open>Properties\<close>

text \<open>The numbers that JSON can name: whatever the text, UnmarshalJSON yields a block number between the five tags and
  the largest int64; a negative one only for its tag.\<close>

theorem block_number_range:
  assumes "BlockNumber_UnmarshalJSON L data = Inr bn"
  shows "-4 \<le> BlockNumber_Int64 bn \<and> BlockNumber_Int64 bn < 2 ^ 63 \<and>
    (BlockNumber_Int64 bn < 0 \<longrightarrow> block_tag (trim_quotes (strings_TrimSpace data)) = Some bn)"
  using BlockNumber_UnmarshalJSON_range [OF assms] sint_bounds [of bn] by (simp add: BlockNumber_Int64_def)

theorem block_number_range_witness:
  "\<exists>bn. BlockNumber_UnmarshalJSON demo_eth (quote_string ''safe'') = Inr bn \<and> BlockNumber_Int64 bn = -4 \<and> -4 \<le> BlockNumber_Int64 bn"
proof -
  have "trim_quotes (strings_TrimSpace (quote_string ''safe'')) = ''safe''"
    unfolding quote_string_def tag_texts by (rule trim_quoted)
  then have "BlockNumber_UnmarshalJSON demo_eth (quote_string ''safe'') = Inr SafeBlockNumber"
    by (simp add: BlockNumber_UnmarshalJSON_def block_tag_def)
  from block_number_range [OF this] this show ?thesis by (simp add: BlockNumber_Int64_def SafeBlockNumber_def)
qed

text \<open>Round trip of a block number: the text MarshalText writes is read back as the same number exactly for the tags and the numbers
  that are not negative; the text for any other negative number is not accepted.\<close>

theorem block_number_round_trip:
  assumes "ethlib_ok L"
  shows "(\<exists>t. BlockNumber_MarshalText L bn = Inr t \<and> BlockNumber_UnmarshalJSON L (quote_string t) = Inr bn) \<longleftrightarrow> -4 \<le> BlockNumber_Int64 bn"
  using block_number_read [OF assms, of bn] by (simp add: BlockNumber_MarshalText_def BlockNumber_Int64_def)

theorem block_number_round_trip_witness:
  "\<exists>t. BlockNumber_MarshalText demo_eth 17 = Inr t \<and> BlockNumber_UnmarshalJSON demo_eth (quote_string t) = Inr 17"
  using block_number_round_trip [OF demo_eth_ok, of 17] by (simp add: BlockNumber_Int64_def)

text \<open>C33. Round trip of BlockNumberOrHash: what json.Marshal writes for a value with at most one of number and hash is read
  back as the same value, whatever the variable held before.\<close>

theorem block_number_or_hash_round_trip:
  assumes "ethlib_ok L" and "bnh_ok bnh" and "\<forall>h. bnh_BlockHash bnh = Some h \<longrightarrow> length h = 32"
  shows "BlockNumberOrHash_UnmarshalJSON L (encode_bnh L bnh) old = Inr bnh"
proof -
  have "json_parse (encode_bnh L bnh) = Some (object_tree (bnh_members L bnh), [])"
    using bnh_members_text [OF assms] by (simp add: encode_bnh_tree json_text_def)
  moreover have "bnh_BlockNumber bnh = None \<or> bnh_BlockHash bnh = None" using assms(2) by (simp add: bnh_ok_def)
  ultimately show ?thesis
    using decode_bnh_members [OF assms] by (auto simp: BlockNumberOrHash_UnmarshalJSON_def skip_ws_def)
qed

theorem block_number_or_hash_round_trip_witness:
  "BlockNumberOrHash_UnmarshalJSON demo_eth (encode_bnh demo_eth (BlockNumberOrHashWithHash (replicate 32 CHR ''a'') True))
     (BlockNumberOrHashWithNumber 5) = Inr (BlockNumberOrHashWithHash (replicate 32 CHR ''a'') True)"
  by (rule block_number_or_hash_round_trip [OF demo_eth_ok]) (simp_all add: BlockNumberOrHashWithHash_def bnh_ok_def)

text \<open>C35. A value read into a fresh variable holds at most one of number and hash, and its number is in
  range. A variable that is read twice can hold both: the path for strings does not reset the other field.\<close>

theorem block_number_or_hash_exclusive:
  assumes "BlockNumberOrHash_UnmarshalJSON L data new_BlockNumberOrHash = Inr bnh"
  shows "bnh_ok bnh \<and>
    (\<forall>h. \<exists>b. BlockNumberOrHash_UnmarshalJSON L (quote_string ''latest'') (BlockNumberOrHashWithHash h True) = Inr b \<and>
       bnh_BlockNumber b = Some LatestBlockNumber \<and> bnh_BlockHash b = Some h \<and> \<not> bnh_ok b)"
proof -
  have "bnh_ok bnh"
    using assms decode_bnh_range [of L] block_tag_range sint_nonneg
    by (fastforce simp: BlockNumberOrHash_UnmarshalJSON_def bnh_ok_def new_BlockNumberOrHash_def Let_def
        split: option.splits prod.splits if_splits json.splits sum.splits)
  moreover have "ascii ''latest''" by code_simp
  then have "json_parse (quote_string ''latest'') = Some (str_json ''latest'', [])" "unquote_string (quote_string ''latest'') = ''latest''"
    using json_text_quote [of "''latest''"] by (simp_all add: json_text_def)
  ultimately show ?thesis
    by (simp add: BlockNumberOrHash_UnmarshalJSON_def decode_bnh_def skip_ws_def block_tag_def BlockNumberOrHashWithHash_def bnh_ok_def)
qed

theorem block_number_or_hash_exclusive_witness:
  "\<exists>bnh b. BlockNumberOrHash_UnmarshalJSON demo_eth (encode_bnh demo_eth (BlockNumberOrHashWithNumber 5)) new_BlockNumberOrHash = Inr bnh \<and>
     bnh_ok bnh \<and> BlockNumberOrHash_UnmarshalJSON demo_eth (quote_string ''latest'') (BlockNumberOrHashWithHash '''' True) = Inr b \<and> \<not> bnh_ok b"
proof -
  have "json_text (object_tree (bnh_members demo_eth (BlockNumberOrHashWithNumber 5)))"
    "decode_bnh demo_eth (object_tree (bnh_members demo_eth (BlockNumberOrHashWithNumber 5))) = Some (BlockNumberOrHashWithNumber 5)"
    by (rule bnh_members_text [OF demo_eth_ok] decode_bnh_members [OF demo_eth_ok];
        simp add: BlockNumberOrHashWithNumber_def bnh_ok_def)+
  then have r: "BlockNumberOrHash_UnmarshalJSON demo_eth (encode_bnh demo_eth (BlockNumberOrHashWithNumber 5)) new_BlockNumberOrHash =
      Inr (BlockNumberOrHashWithNumber 5)"
    by (simp add: BlockNumberOrHash_UnmarshalJSON_def encode_bnh_tree json_text_def skip_ws_def BlockNumberOrHashWithNumber_def new_BlockNumberOrHash_def)
  from block_number_or_hash_exclusive [OF r] r show ?thesis by blast
qed

end
