(* ===== verification/Rpc_Service.thy ===== *)
theory Rpc_Service
  imports Rpc_Message
begin

text \<open>
  service.go: which methods of a receiver become RPC callbacks or subscriptions, the registry
  that maps "namespace_method" to a callback, and how a callback is called.

  A method body is user code. It is a parameter of the model: a function from the arguments it
  is called with to what it does with the notifier of its context (a list of \<open>notif_op\<close>) and how it
  ends (\<open>outcome\<close>). A middleware is user code too; its type is a parameter of the registry here and
  is fixed in Rpc_Handler.
\<close>

section \<open>Methods and callbacks\<close>

datatype notif_op =
    CreateSubscriptionOp
  | NotifyOp "string option" goval
    \<comment> \<open>Notify with the given id, or with the id of the subscription the method created\<close>

datatype goret =
    RVal goval
  | RErr "goerr option"
  | ROwnSub \<comment> \<open>the subscription the method created with its notifier\<close>

datatype outcome = Panicked | Returned "goret list"

datatype callarg = ARcvr | ACtx | AVal goval

type_synonym fnbody = "callarg list \<Rightarrow> notif_op list \<times> outcome"

text \<open>The reflected signature of a method or function; the receiver of a method is its first
  parameter.\<close>

record gofunc =
  ins :: "rtype list"
  outs :: "rtype list"
  body :: fnbody

record gomethod =
  mname :: string
  pkgPath :: string
  mfunc :: gofunc

record receiver =
  typeName :: string
  methods :: "gomethod list"

record callback =
  fn :: gofunc
  rcvr :: bool
  argTypes :: "rtype list"
  hasCtx :: bool
  errPos :: int
  isSubscribeCb :: bool

fun isErrorType :: "rtype \<Rightarrow> bool" where
  "isErrorType TError = True"
| "isErrorType (TPtr _ e) = e"
| "isErrorType (TOther _ e) = e"
| "isErrorType _ = False"

fun isSubscriptionType :: "rtype \<Rightarrow> bool" where
  "isSubscriptionType (TPtr t _) = isSubscriptionType t"
| "isSubscriptionType t = (t = TSubscription)"

definition isPubSub :: "gofunc \<Rightarrow> bool" where
  "isPubSub f =
     (if length (ins f) < 2 \<or> length (outs f) \<noteq> 2 then False
      else ins f ! 1 = TContext \<and> isSubscriptionType (outs f ! 0) \<and> isErrorType (outs f ! 1))"

text \<open>makeArgTypes skips the receiver and a leading context.Context.\<close>

definition makeArgTypes :: "callback \<Rightarrow> callback" where
  "makeArgTypes c =
     (let i = ins (fn c);
          firstArg = (if rcvr c then 1 else 0);
          ctx = firstArg < length i \<and> i ! firstArg = TContext;
          firstArg' = (if ctx then firstArg + 1 else firstArg)
      in c\<lparr>hasCtx := ctx, argTypes := drop firstArg' i\<rparr>)"

definition newCallback :: "bool \<Rightarrow> gofunc \<Rightarrow> callback option" where
  "newCallback hasRcvr f =
     (let c0 = \<lparr>fn = f, rcvr = hasRcvr, argTypes = [], hasCtx = False, errPos = -1, isSubscribeCb = isPubSub f\<rparr>;
          c = makeArgTypes c0; os = outs f
      in if 2 < length os then None
         else if length os = 1 \<and> isErrorType (os ! 0) then Some (c\<lparr>errPos := 0\<rparr>)
         else if length os = 2 then
           (if isErrorType (os ! 0) \<or> \<not> isErrorType (os ! 1) then None else Some (c\<lparr>errPos := 1\<rparr>))
         else Some c)"

text \<open>formatName lowers the first letter; method names that start with a letter outside ASCII
  are kept as they are.\<close>

definition formatName :: "string \<Rightarrow> string" where
  "formatName name =
     (case name of
        [] \<Rightarrow> []
      | c # cs \<Rightarrow> (if in_range 65 90 (byte c) then char_of (byte c + 32) else c) # cs)"

fun addSuitable :: "gomethod list \<Rightarrow> (string, callback) gomap \<Rightarrow> (string, callback) gomap" where
  "addSuitable [] callbacks = callbacks"
| "addSuitable (m # ms) callbacks =
     (if pkgPath m \<noteq> '''' then addSuitable ms callbacks
      else case newCallback True (mfunc m) of
        None \<Rightarrow> addSuitable ms callbacks
      | Some cb \<Rightarrow> addSuitable ms (map_set (formatName (mname m)) cb callbacks))"

definition suitableCallbacks :: "receiver \<Rightarrow> (string, callback) gomap" where
  "suitableCallbacks r = addSuitable (methods r) []"

section \<open>The registry\<close>

record service =
  service_name :: string
  callbacks :: "(string, callback) gomap"
  subscriptions :: "(string, callback) gomap"

record 'mw serviceRegistry =
  services :: "(string, service) gomap"
  middlewares :: "'mw list"

definition new_serviceRegistry :: "'mw serviceRegistry" where
  "new_serviceRegistry = \<lparr>services = [], middlewares = []\<rparr>"

definition newService :: "string \<Rightarrow> service" where
  "newService name = \<lparr>service_name = name, callbacks = [], subscriptions = []\<rparr>"

fun addCallbacks :: "(string \<times> callback) list \<Rightarrow> service \<Rightarrow> service" where
  "addCallbacks [] svc = svc"
| "addCallbacks ((name, cb) # cbs) svc =
     addCallbacks cbs
       (if isSubscribeCb cb then svc\<lparr>subscriptions := map_set name cb (subscriptions svc)\<rparr>
        else svc\<lparr>callbacks := map_set name cb (callbacks svc)\<rparr>)"

definition registerName ::
    "string \<Rightarrow> receiver \<Rightarrow> 'mw serviceRegistry \<Rightarrow> goerr + 'mw serviceRegistry" where
  "registerName name r reg =
     (if name = '''' then Inl (PlainErr (''no service name for type '' @ typeName r))
      else let cbs = suitableCallbacks r in
        if cbs = []
        then Inl (PlainErr (''service '' @ typeName r @ '' doesn't have any suitable methods/subscriptions to expose''))
        else let svc = (case map_get (services reg) name of Some s \<Rightarrow> s | None \<Rightarrow> newService name)
             in Inr (reg\<lparr>services := map_set name (addCallbacks cbs svc) (services reg)\<rparr>))"

definition registry_callback :: "'mw serviceRegistry \<Rightarrow> string \<Rightarrow> callback option" where
  "registry_callback reg meth =
     (case strings_Cut meth serviceMethodSeparator of
        (before, after, found) \<Rightarrow>
          if \<not> found then None
          else case map_get (services reg) before of
            None \<Rightarrow> None
          | Some svc \<Rightarrow> map_get (callbacks svc) after)"

definition registry_subscription :: "'mw serviceRegistry \<Rightarrow> string \<Rightarrow> string \<Rightarrow> callback option" where
  "registry_subscription reg service name =
     (case map_get (services reg) service of
        None \<Rightarrow> None
      | Some svc \<Rightarrow> map_get (subscriptions svc) name)"

definition setMiddlewares :: "'mw list \<Rightarrow> 'mw serviceRegistry \<Rightarrow> 'mw serviceRegistry" where
  "setMiddlewares mws reg = reg\<lparr>middlewares := mws\<rparr>"

section \<open>Calling a callback\<close>

text \<open>callback.call in two halves: the argument slice it builds and what it makes of the way the
  function ended. A panic of the function is recovered.\<close>

definition call_fullargs :: "callback \<Rightarrow> goval list \<Rightarrow> callarg list" where
  "call_fullargs c args =
     (if rcvr c then [ARcvr] else []) @ (if hasCtx c then [ACtx] else []) @ map AVal args"

definition crashed :: goerr where
  "crashed = InternalServerError errcodePanic ''method handler crashed''"

definition ret_interface :: "goret \<Rightarrow> goval" where
  "ret_interface r = (case r of RVal v \<Rightarrow> v | _ \<Rightarrow> GoNil)"

definition call_result :: "callback \<Rightarrow> outcome \<Rightarrow> goval \<times> goerr option" where
  "call_result c out =
     (case out of
        Panicked \<Rightarrow> (GoNil, Some crashed)
      | Returned results \<Rightarrow>
          (if results = [] then (GoNil, None)
           else if 0 \<le> errPos c then
             (if length results \<le> nat (errPos c) then (GoNil, Some crashed)
              else case results ! nat (errPos c) of
                RErr (Some err) \<Rightarrow> (GoNil, Some err)
              | _ \<Rightarrow> (ret_interface (results ! 0), None))
           else (ret_interface (results ! 0), None)))"

section \<open>Suitable methods\<close>

lemma newCallback_eq:
  "newCallback b f =
     (if length (outs f) \<le> 2 \<and> (length (outs f) = 2 \<longrightarrow> \<not> isErrorType (outs f ! 0) \<and> isErrorType (outs f ! 1))
      then Some ((makeArgTypes \<lparr>fn = f, rcvr = b, argTypes = [], hasCtx = False, errPos = -1, isSubscribeCb = isPubSub f\<rparr>)
             \<lparr>errPos := (if length (outs f) = 2 then 1 else if length (outs f) = 1 \<and> isErrorType (outs f ! 0) then 0 else -1)\<rparr>)
      else None)"
  by (auto simp: newCallback_def makeArgTypes_def Let_def)

lemma makeArgTypes_fields [simp]:
  "fn (makeArgTypes c) = fn c" "rcvr (makeArgTypes c) = rcvr c" "errPos (makeArgTypes c) = errPos c"
  "isSubscribeCb (makeArgTypes c) = isSubscribeCb c"
  by (simp_all add: makeArgTypes_def Let_def)

lemma newCallback_fields:
  assumes "newCallback b f = Some c"
  shows "fn c = f" "rcvr c = b" "isSubscribeCb c = isPubSub f"
  using assms by (auto simp: newCallback_eq split: if_splits)

lemma makeArgTypes_length:
  assumes "rcvr c \<Longrightarrow> ins (fn c) \<noteq> []"
  shows "length (argTypes (makeArgTypes c)) + (if rcvr c then 1 else 0) + (if hasCtx (makeArgTypes c) then 1 else 0) =
    length (ins (fn c))"
  using assms by (cases "ins (fn c)") (auto simp: makeArgTypes_def Let_def)

lemma newCallback_arity:
  assumes "newCallback b f = Some c" and "b \<Longrightarrow> ins f \<noteq> []" and "length args = length (argTypes c)"
  shows "length (call_fullargs c args) = length (ins f)"
proof -
  define c0 where "c0 = \<lparr>fn = f, rcvr = b, argTypes = [], hasCtx = False, errPos = -1 :: int, isSubscribeCb = isPubSub f\<rparr>"
  have "argTypes c = argTypes (makeArgTypes c0)" "hasCtx c = hasCtx (makeArgTypes c0)" "rcvr c = b"
    using assms(1) by (auto simp: newCallback_eq c0_def makeArgTypes_def Let_def split: if_splits)
  then show ?thesis
    using makeArgTypes_length [of c0] assms(2,3) by (auto simp: call_fullargs_def c0_def)
qed

text \<open>The exported, suitable methods of a receiver under their RPC names; the last method with a
  name counts.\<close>

definition exports :: "receiver \<Rightarrow> string \<Rightarrow> callback option" where
  "exports r name = map_get (suitableCallbacks r) name"

lemma wf_addSuitable: "wf_map m \<Longrightarrow> wf_map (addSuitable ms m)"
  by (induction ms m rule: addSuitable.induct) (auto split: option.splits)

lemma wf_suitableCallbacks [simp]: "wf_map (suitableCallbacks r)"
  by (simp add: suitableCallbacks_def wf_addSuitable)

lemma addSuitable_Some:
  "map_get (addSuitable ms m) name = Some cb \<Longrightarrow>
     map_get m name = Some cb \<or>
     (\<exists>x \<in> set ms. pkgPath x = '''' \<and> formatName (mname x) = name \<and> newCallback True (mfunc x) = Some cb)"
  by (induction ms m rule: addSuitable.induct) (auto simp: map_get_simps split: option.splits if_splits)

lemma exports_Some:
  assumes "exports r name = Some cb"
  shows "\<exists>x \<in> set (methods r). pkgPath x = '''' \<and> formatName (mname x) = name \<and> newCallback True (mfunc x) = Some cb"
  using assms addSuitable_Some [of "methods r" "[]"] by (auto simp: exports_def suitableCallbacks_def)

section \<open>Lookups after a registration\<close>

lemma addCallbacks_lookup:
  assumes "wf_map cbs"
  shows "map_get (callbacks (addCallbacks cbs svc)) m =
      (case map_get cbs m of Some cb \<Rightarrow> if isSubscribeCb cb then map_get (callbacks svc) m else Some cb
       | None \<Rightarrow> map_get (callbacks svc) m)"
    and "map_get (subscriptions (addCallbacks cbs svc)) m =
      (case map_get cbs m of Some cb \<Rightarrow> if isSubscribeCb cb then Some cb else map_get (subscriptions svc) m
       | None \<Rightarrow> map_get (subscriptions svc) m)"
  using assms
  by (induction cbs svc rule: addCallbacks.induct)
    (auto simp: map_get_simps wf_map_def map_of_eq_None_iff [symmetric] split: option.splits)

lemma registerName_Inr:
  assumes "registerName name r reg = Inr reg'"
  shows "name \<noteq> ''''" and "suitableCallbacks r \<noteq> []"
    and "middlewares reg' = middlewares reg"
    and "services reg' = map_set name
      (addCallbacks (suitableCallbacks r) (case map_get (services reg) name of Some s \<Rightarrow> s | None \<Rightarrow> newService name))
      (services reg)"
  using assms by (auto simp: registerName_def Let_def split: if_splits)

lemma Cut_separator [simp]:
  "CHR ''_'' \<notin> set ns \<Longrightarrow> strings_Cut (ns @ CHR ''_'' # m) serviceMethodSeparator = (ns, m, True)"
  using Cut_append [of "CHR ''_''" ns m] by (simp add: serviceMethodSeparator_def)

lemma registry_callback_qualified:
  "CHR ''_'' \<notin> set ns \<Longrightarrow> registry_callback reg (ns @ CHR ''_'' # m) =
     (case map_get (services reg) ns of None \<Rightarrow> None | Some svc \<Rightarrow> map_get (callbacks svc) m)"
  by (simp add: registry_callback_def)

text \<open>A looked-up method name is a namespace without separator, a separator and a name.\<close>

lemma registry_callback_None:
  assumes "\<And>ns m. meth = ns @ CHR ''_'' # m \<Longrightarrow> CHR ''_'' \<notin> set ns \<Longrightarrow> False"
  shows "registry_callback reg meth = None"
proof -
  have "CHR ''_'' \<notin> set meth"
    using assms by (auto dest!: split_list_first)
  then show ?thesis by (simp add: registry_callback_def serviceMethodSeparator_def Cut_not_found)
qed

definition method_export :: "receiver \<Rightarrow> string \<Rightarrow> callback option" where
  "method_export r m =
     (case exports r m of Some cb \<Rightarrow> if isSubscribeCb cb then None else Some cb | None \<Rightarrow> None)"

lemma register_same:
  assumes "registerName ns r reg = Inr reg'" and "CHR ''_'' \<notin> set ns"
  shows "registry_callback reg' (ns @ CHR ''_'' # m) =
     (case method_export r m of Some cb \<Rightarrow> Some cb | None \<Rightarrow> registry_callback reg (ns @ CHR ''_'' # m))"
  using registerName_Inr(4) [OF assms(1)]
  by (auto simp: registry_callback_qualified [OF assms(2)] map_get_set addCallbacks_lookup
      method_export_def exports_def newService_def split: option.splits)

lemma register_other:
  assumes "registerName ns r reg = Inr reg'" and "\<not> (\<exists>m. meth = ns @ CHR ''_'' # m \<and> CHR ''_'' \<notin> set ns)"
  shows "registry_callback reg' meth = registry_callback reg meth"
proof (cases "\<exists>a m. meth = a @ CHR ''_'' # m \<and> CHR ''_'' \<notin> set a")
  case True
  then obtain a m where "meth = a @ CHR ''_'' # m" "CHR ''_'' \<notin> set a" by blast
  moreover with assms(2) have "a \<noteq> ns" by blast
  ultimately show ?thesis
    using registerName_Inr(4) [OF assms(1)] by (simp add: registry_callback_qualified map_get_set)
next
  case False
  then show ?thesis by (metis registry_callback_None)
qed

text \<open>
  The interface the endpoints and the handler rely on: a table of methods by qualified name that
  grows by registrations.
\<close>

fun register_all :: "('n \<Rightarrow> 'v \<Rightarrow> 'r \<Rightarrow> 'e + 'r) \<Rightarrow> ('n \<times> 'v) list \<Rightarrow> 'r \<Rightarrow> 'e + 'r" where
  "register_all reg [] r = Inr r"
| "register_all reg ((n, v) # apis) r =
     (case reg n v r of Inl e \<Rightarrow> Inl e | Inr r' \<Rightarrow> register_all reg apis r')"

locale method_table =
  fixes lookup :: "'r \<Rightarrow> string \<Rightarrow> 'c option"
    and reg :: "string \<Rightarrow> 'v \<Rightarrow> 'r \<Rightarrow> 'e + 'r"
    and exported :: "'v \<Rightarrow> string \<Rightarrow> 'c option"
  assumes lookup_same: "reg ns v r = Inr r' \<Longrightarrow> CHR ''_'' \<notin> set ns \<Longrightarrow>
      lookup r' (ns @ CHR ''_'' # m) =
        (case exported v m of Some c \<Rightarrow> Some c | None \<Rightarrow> lookup r (ns @ CHR ''_'' # m))"
    and lookup_other: "reg ns v r = Inr r' \<Longrightarrow> \<not> (\<exists>m. meth = ns @ CHR ''_'' # m \<and> CHR ''_'' \<notin> set ns) \<Longrightarrow>
      lookup r' meth = lookup r meth"
begin

lemma lookup_mono:
  assumes "reg ns v r = Inr r'" and "lookup r meth \<noteq> None"
  shows "lookup r' meth \<noteq> None"
proof (cases "\<exists>m. meth = ns @ CHR ''_'' # m \<and> CHR ''_'' \<notin> set ns")
  case True
  then show ?thesis using lookup_same [OF assms(1)] assms(2) by (auto split: option.splits)
next
  case False
  then show ?thesis using lookup_other [OF assms(1) False] assms(2) by simp
qed

lemma register_all_mono: "register_all reg apis r = Inr r' \<Longrightarrow> lookup r meth \<noteq> None \<Longrightarrow> lookup r' meth \<noteq> None"
proof (induction apis arbitrary: r)
  case (Cons a apis)
  obtain n v where a: "a = (n, v)" by fastforce
  with Cons.prems obtain r1 where "reg n v r = Inr r1" "register_all reg apis r1 = Inr r'"
    by (auto split: sum.splits)
  then show ?case using Cons.IH lookup_mono Cons.prems(2) by blast
qed simp

text \<open>After a list of registrations every exported method of every receiver is found.\<close>

lemma register_all_found:
  assumes "register_all reg apis r = Inr r'" and "(ns, v) \<in> set apis" and "CHR ''_'' \<notin> set ns" and "exported v m \<noteq> None"
  shows "lookup r' (ns @ CHR ''_'' # m) \<noteq> None"
  using assms
proof (induction apis arbitrary: r)
  case (Cons a apis)
  obtain n w where a: "a = (n, w)" by fastforce
  with Cons.prems obtain r1 where r1: "reg n w r = Inr r1" and rest: "register_all reg apis r1 = Inr r'"
    by (auto split: sum.splits)
  show ?case
  proof (cases "(ns, v) = a")
    case True
    with a r1 Cons.prems have "lookup r1 (ns @ CHR ''_'' # m) \<noteq> None"
      using lookup_same [of ns v r r1 m] by auto
    then show ?thesis using register_all_mono [OF rest] by blast
  next
    case False
    then show ?thesis using Cons.IH [OF rest] Cons.prems by simp
  qed
qed simp

lemma registrations_commute:
  assumes "reg a v r = Inr r1" "reg b w r1 = Inr r12" "reg b w r = Inr r2" "reg a v r2 = Inr r21" "a \<noteq> b"
  shows "lookup r12 meth = lookup r21 meth"
proof -
  have sep: "x = y" if "x @ CHR ''_'' # m = y @ CHR ''_'' # k" "CHR ''_'' \<notin> set x" "CHR ''_'' \<notin> set y" for x y m k :: string
    using Cut_append [OF that(2), of m] Cut_append [OF that(3), of k] that(1) by (metis Pair_inject)
  let ?in = "\<lambda>n. \<exists>m. meth = n @ CHR ''_'' # m \<and> CHR ''_'' \<notin> set n"
  consider (a) "?in a" | (b) "?in b" | (o) "\<not> ?in a" "\<not> ?in b" by blast
  then show ?thesis
  proof cases
    case a
    then obtain m where m: "meth = a @ CHR ''_'' # m" "CHR ''_'' \<notin> set a" by blast
    then have o: "\<not> (\<exists>k. meth = b @ CHR ''_'' # k \<and> CHR ''_'' \<notin> set b)" using sep assms(5) by metis
    show ?thesis
      using lookup_other [OF assms(2) o] lookup_other [OF assms(3) o] lookup_same [OF assms(1) m(2), of m]
        lookup_same [OF assms(4) m(2), of m] m(1) by (simp split: option.split)
  next
    case b
    then obtain m where m: "meth = b @ CHR ''_'' # m" "CHR ''_'' \<notin> set b" by blast
    then have o: "\<not> (\<exists>k. meth = a @ CHR ''_'' # k \<and> CHR ''_'' \<notin> set a)" using sep assms(5) by metis
    show ?thesis
      using lookup_other [OF assms(1) o] lookup_other [OF assms(4) o] lookup_same [OF assms(2) m(2), of m]
        lookup_same [OF assms(3) m(2), of m] m(1) by (simp split: option.split)
  next
    case o
    then show ?thesis
      using lookup_other [OF assms(1)] lookup_other [OF assms(2)] lookup_other [OF assms(3)] lookup_other [OF assms(4)] by simp
  qed
qed

end

interpretation rpc_methods: method_table registry_callback registerName method_export
  by unfold_locales (rule register_same, assumption+, rule register_other, assumption+)

section \<open>Properties\<close>


text \<open>Registering a list of APIs, as StartIPCEndpoint does, makes every exported method of every
  receiver callable, whatever else is registered under the same or another namespace.\<close>

theorem registered_apis_found:
  assumes "register_all registerName apis reg = Inr reg'" and "(ns, r) \<in> set apis"
    and "CHR ''_'' \<notin> set ns" and "method_export r m \<noteq> None"
  shows "registry_callback reg' (ns @ CHR ''_'' # m) \<noteq> None"
  by (rule rpc_methods.register_all_found [OF assms])

text \<open>A namespace that contains an underscore is accepted by RegisterName, but no method name
  ever resolves to it: the lookup cuts the name at the first underscore.\<close>

theorem underscore_namespace_unreachable:
  assumes "registerName ns r reg = Inr reg'" and "CHR ''_'' \<in> set ns"
  shows "registry_callback reg' meth = registry_callback reg meth"
  by (rule rpc_methods.lookup_other [OF assms(1)]) (use assms(2) in blast)

text \<open>A receiver with one method \<^verbatim>\<open>Add(a string) (string, error)\<close>, for the witnesses.\<close>

definition calc_add :: gomethod where
  "calc_add = \<lparr>mname = ''Add'', pkgPath = '''',
     mfunc = \<lparr>ins = [TOther 0 False, TStr ''string''], outs = [TStr ''string'', TError],
       body = (\<lambda>args. ([], Returned [RVal (GoStr ''ok''), RErr None]))\<rparr>\<rparr>"

definition calc :: receiver where
  "calc = \<lparr>typeName = ''*rpc.Calc'', methods = [calc_add]\<rparr>"

definition calc_callback :: callback where
  "calc_callback = \<lparr>fn = mfunc calc_add, rcvr = True, argTypes = [TStr ''string''], hasCtx = False, errPos = 1,
     isSubscribeCb = False\<rparr>"

definition calc_registry :: "string \<Rightarrow> unit serviceRegistry" where
  "calc_registry ns = \<lparr>services = [(ns, \<lparr>service_name = ns, callbacks = [(''add'', calc_callback)], subscriptions = []\<rparr>)],
     middlewares = []\<rparr>"

lemma formatName_Add: "formatName ''Add'' = ''add''"
  by code_simp

lemma calc_callbacks: "suitableCallbacks calc = [(''add'', calc_callback)]"
  by (simp add: suitableCallbacks_def calc_def calc_add_def newCallback_def makeArgTypes_def Let_def isPubSub_def
      formatName_Add calc_callback_def)

lemma registerName_calc: "ns \<noteq> '''' \<Longrightarrow> registerName ns calc new_serviceRegistry = Inr (calc_registry ns)"
  by (simp add: registerName_def calc_callbacks new_serviceRegistry_def newService_def calc_registry_def calc_callback_def)


theorem registered_apis_found_witness:
  "register_all registerName [(''calc'', calc)] new_serviceRegistry = Inr (calc_registry ''calc'') \<and>
   registry_callback (calc_registry ''calc'') (''calc'' @ CHR ''_'' # ''add'') \<noteq> None"
proof -
  have r: "register_all registerName [(''calc'', calc)] new_serviceRegistry = Inr (calc_registry ''calc'')"
    by (simp add: registerName_calc)
  have e: "method_export calc ''add'' \<noteq> None"
    by (simp add: method_export_def exports_def calc_callbacks calc_callback_def)
  show ?thesis using r registered_apis_found [OF r, of "''calc''" calc "''add''"] e by simp
qed

theorem underscore_namespace_unreachable_witness:
  "registerName ''my_calc'' calc new_serviceRegistry = Inr (calc_registry ''my_calc'') \<and>
   registry_callback (calc_registry ''my_calc'') ''my_calc_add'' = None"
proof -
  have r: "registerName ''my_calc'' calc new_serviceRegistry = Inr (calc_registry ''my_calc'')"
    by (simp add: registerName_calc)
  have u: "CHR ''_'' \<in> set ''my_calc''" by simp
  show ?thesis
    using r underscore_namespace_unreachable [OF r u, of "''my_calc_add''"]
    by (simp add: registry_callback_def new_serviceRegistry_def split: prod.splits)
qed

text \<open>A function becomes a callback exactly when it returns nothing, one value, or a value and
  then an error; it is then always called with as many arguments as it has parameters, with
  the receiver first and the context second if it takes them.\<close>

theorem newCallback_criteria:
  "(newCallback b f \<noteq> None \<longleftrightarrow>
     length (outs f) \<le> 1 \<or>
     (\<exists>x y. outs f = [x, y] \<and> \<not> isErrorType x \<and> isErrorType y)) \<and>
   (\<forall>c args. newCallback True f = Some c \<and> ins f \<noteq> [] \<and> length args = length (argTypes c) \<longrightarrow>
     length (call_fullargs c args) = length (ins f) \<and> call_fullargs c args ! 0 = ARcvr \<and>
     (hasCtx c \<longleftrightarrow> 1 < length (ins f) \<and> ins f ! 1 = TContext) \<and>
     (hasCtx c \<longrightarrow> call_fullargs c args ! 1 = ACtx))"
proof -
  have "newCallback b f \<noteq> None \<longleftrightarrow> length (outs f) \<le> 1 \<or> (\<exists>x y. outs f = [x, y] \<and> \<not> isErrorType x \<and> isErrorType y)"
    by (cases "outs f"; cases "tl (outs f)"; cases "tl (tl (outs f))") (auto simp: newCallback_eq)
  moreover have "rcvr c \<and> (hasCtx c \<longleftrightarrow> 1 < length (ins f) \<and> ins f ! 1 = TContext)"
    if "newCallback True f = Some c" for c
    using that by (auto simp: newCallback_eq makeArgTypes_def Let_def split: if_splits)
  ultimately show ?thesis
    using newCallback_arity [of True f] by (auto simp: call_fullargs_def)
qed

theorem newCallback_criteria_witness:
  "newCallback True (mfunc calc_add) = Some calc_callback \<and>
   length (call_fullargs calc_callback [GoStr ''x'']) = 2"
proof -
  have n: "newCallback True (mfunc calc_add) = Some calc_callback"
    by (simp add: calc_add_def newCallback_def makeArgTypes_def Let_def isPubSub_def calc_callback_def)
  then have "length (call_fullargs calc_callback [GoStr ''x'']) = length (ins (mfunc calc_add))"
    using newCallback_criteria [of True "mfunc calc_add"]
    by (simp add: calc_callback_def calc_add_def)
  with n show ?thesis by (simp add: calc_add_def)
qed

end
