(* ===== verification/Rpc_Notifier.thy ===== *)
theory Rpc_Notifier
  imports Rpc_Service
begin

text \<open>
  The server side of subscription.go: subscription ids, the Notifier and the Subscription it
  creates, over the part of the handler's state they use.

  \<open>hstate\<close> is that state: the connection (the values written to it so far and the outcomes of
  the writes to come, so that a theorem for all \<open>wplan\<close> covers every pattern of write errors),
  the id generator (a stream of ids and how many were taken), the stores of Subscription and
  Notifier objects, the serverSubs map from ids to subscriptions, the allowSubscribe flag and the
  request counters of metrics.go.
\<close>

section \<open>Subscription ids\<close>

definition hex_EncodeToString :: "string \<Rightarrow> string" where
  "hex_EncodeToString b = concat (map (\<lambda>c. [hex_digit (byte c div 16), hex_digit (byte c mod 16)]) b)"

definition encodeID :: "string \<Rightarrow> string" where
  "encodeID b =
     (let hex = strings_TrimLeft (hex_EncodeToString b) (CHR ''0'');
          digits = (if hex = '''' then ''0'' else hex)
      in ''0x'' @ digits)"

text \<open>The generator behind NewID and the default of servers and clients: \<open>rng n\<close> is the 16 bytes of the n-th read from the
  pseudo random source.\<close>

definition randomIDGenerator :: "(nat \<Rightarrow> string) \<Rightarrow> nat \<Rightarrow> string" where
  "randomIDGenerator rng n = encodeID (rng n)"

section \<open>State\<close>

record subscriptionResultEnc =
  enc_ID :: string
  enc_Result :: goval

record jsonrpcSubscriptionNotification =
  nt_Version :: string
  nt_Method :: string
  nt_Params :: subscriptionResultEnc

text \<open>What writeJSON is called with.\<close>

datatype wire =
    WMsg jsonrpcMessage
  | WBatch "jsonrpcMessage list"
  | WNotif jsonrpcSubscriptionNotification

record write_entry =
  w_value :: wire
  w_isError :: bool
  w_err :: "goerr option"

record Subscription =
  sub_ID :: string
  sub_namespace :: string
  sub_err :: "goerr chan"

record Notifier =
  n_namespace :: string
  n_sub :: "nat option"
  n_buffer :: "goval list"
  callReturned :: bool
  activated :: bool

record hstate =
  wlog :: "write_entry list"
  wplan :: "goerr option list"
  idgen :: "nat \<Rightarrow> string"
  idnext :: nat
  srvSubs :: "Subscription list"
  notifs :: "Notifier list"
  serverSubs :: "(string, nat) gomap"
  allowSubscribe :: bool
  rpcRequestGauge :: nat
  successfulRequestGauge :: nat
  failedRequestGauge :: nat

definition new_hstate :: "(nat \<Rightarrow> string) \<Rightarrow> goerr option list \<Rightarrow> hstate" where
  "new_hstate gen plan =
     \<lparr>wlog = [], wplan = plan, idgen = gen, idnext = 0, srvSubs = [], notifs = [], serverSubs = [],
      allowSubscribe = True, rpcRequestGauge = 0, successfulRequestGauge = 0, failedRequestGauge = 0\<rparr>"

text \<open>conn.writeJSON: the write succeeds or fails as planned; with no plan left it succeeds.\<close>

definition writeJSON :: "wire \<Rightarrow> bool \<Rightarrow> hstate \<Rightarrow> goerr option \<times> hstate" where
  "writeJSON v isErr h =
     (let r = (case wplan h of [] \<Rightarrow> None | r # _ \<Rightarrow> r)
      in (r, h\<lparr>wlog := wlog h @ [\<lparr>w_value = v, w_isError = isErr, w_err = r\<rparr>], wplan := tl (wplan h)\<rparr>))"

section \<open>The Notifier\<close>

definition newNotifier :: "string \<Rightarrow> Notifier" where
  "newNotifier ns = \<lparr>n_namespace = ns, n_sub = None, n_buffer = [], callReturned = False, activated = False\<rparr>"

definition upd_notif :: "nat \<Rightarrow> (Notifier \<Rightarrow> Notifier) \<Rightarrow> hstate \<Rightarrow> hstate" where
  "upd_notif n f h = h\<lparr>notifs := (notifs h)[n := f (notifs h ! n)]\<rparr>"

definition CreateSubscription :: "nat \<Rightarrow> hstate \<Rightarrow> (nat \<times> hstate) option" where
  "CreateSubscription n h =
     (let nt = notifs h ! n in
      if n_sub nt \<noteq> None then None
      else if callReturned nt then None
      else let s = length (srvSubs h);
               sub = \<lparr>sub_ID = idgen h (idnext h), sub_namespace = n_namespace nt, sub_err = make_chan 1\<rparr>
           in Some (s, upd_notif n (\<lambda>x. x\<lparr>n_sub := Some s\<rparr>)
                         (h\<lparr>srvSubs := srvSubs h @ [sub], idnext := Suc (idnext h)\<rparr>)))"

definition notification :: "Notifier \<Rightarrow> Subscription \<Rightarrow> goval \<Rightarrow> jsonrpcSubscriptionNotification" where
  "notification nt sub data =
     \<lparr>nt_Version = vsn, nt_Method = n_namespace nt @ notificationMethodSuffix,
      nt_Params = \<lparr>enc_ID = sub_ID sub, enc_Result = data\<rparr>\<rparr>"

definition notifier_send :: "nat \<Rightarrow> nat \<Rightarrow> goval \<Rightarrow> hstate \<Rightarrow> goerr option \<times> hstate" where
  "notifier_send n s data h = writeJSON (WNotif (notification (notifs h ! n) (srvSubs h ! s) data)) False h"

definition Notify :: "nat \<Rightarrow> string \<Rightarrow> goval \<Rightarrow> hstate \<Rightarrow> (goerr option \<times> hstate) option" where
  "Notify n subid data h =
     (let nt = notifs h ! n in
      case n_sub nt of
        None \<Rightarrow> None
      | Some s \<Rightarrow>
          (if sub_ID (srvSubs h ! s) \<noteq> subid then None
           else if activated nt then Some (notifier_send n s data h)
           else Some (None, upd_notif n (\<lambda>x. x\<lparr>n_buffer := n_buffer x @ [data]\<rparr>) h)))"

definition takeSubscription :: "nat \<Rightarrow> hstate \<Rightarrow> nat option \<times> hstate" where
  "takeSubscription n h = (n_sub (notifs h ! n), upd_notif n (\<lambda>x. x\<lparr>callReturned := True\<rparr>) h)"

text \<open>The loop of activate stops at the first write error. A notifier without subscription has an
  empty buffer, because Notify panics before one is created.\<close>

fun sendAll :: "nat \<Rightarrow> nat \<Rightarrow> goval list \<Rightarrow> hstate \<Rightarrow> goerr option \<times> hstate" where
  "sendAll n s [] h = (None, h)"
| "sendAll n s (d # ds) h =
     (case notifier_send n s d h of
        (Some err, h') \<Rightarrow> (Some err, h')
      | (None, h') \<Rightarrow> sendAll n s ds h')"

definition activate :: "nat \<Rightarrow> hstate \<Rightarrow> (goerr option \<times> hstate) option" where
  "activate n h =
     (let nt = notifs h ! n in
      case n_sub nt of
        None \<Rightarrow> (if n_buffer nt = [] then Some (None, upd_notif n (\<lambda>x. x\<lparr>activated := True\<rparr>) h) else None)
      | Some s \<Rightarrow>
          (case sendAll n s (n_buffer nt) h of
             (Some err, h') \<Rightarrow> Some (Some err, h')
           | (None, h') \<Rightarrow> Some (None, upd_notif n (\<lambda>x. x\<lparr>activated := True\<rparr>) h')))"

section \<open>What a method body does with its notifier\<close>

text \<open>Running the notifier operations of a method body. The flag tells whether one of them
  panicked, which also happens when the context has no notifier.\<close>

fun runNotifOps :: "nat option \<Rightarrow> notif_op list \<Rightarrow> hstate \<Rightarrow> bool \<times> hstate" where
  "runNotifOps nf [] h = (False, h)"
| "runNotifOps None (x # xs) h = (True, h)"
| "runNotifOps (Some n) (CreateSubscriptionOp # xs) h =
     (case CreateSubscription n h of
        None \<Rightarrow> (True, h)
      | Some (_, h') \<Rightarrow> runNotifOps (Some n) xs h')"
| "runNotifOps (Some n) (NotifyOp which data # xs) h =
     (let own = (case n_sub (notifs h ! n) of Some s \<Rightarrow> sub_ID (srvSubs h ! s) | None \<Rightarrow> '''') in
      case Notify n (case which of Some i \<Rightarrow> i | None \<Rightarrow> own) data h of
        None \<Rightarrow> (True, h)
      | Some (_, h') \<Rightarrow> runNotifOps (Some n) xs h')"

section \<open>Subscriptions of the connection\<close>

text \<open>handler.addSubscriptions.\<close>

fun addSubscriptions :: "nat list \<Rightarrow> hstate \<Rightarrow> hstate" where
  "addSubscriptions [] h = h"
| "addSubscriptions (n # nn) h =
     (case takeSubscription n h of
        (None, h') \<Rightarrow> addSubscriptions nn h'
      | (Some s, h') \<Rightarrow> addSubscriptions nn (h'\<lparr>serverSubs := map_set (sub_ID (srvSubs h' ! s)) s (serverSubs h')\<rparr>))"

definition upd_sub_err :: "nat \<Rightarrow> (goerr chan \<Rightarrow> goerr chan option) \<Rightarrow> hstate \<Rightarrow> hstate option" where
  "upd_sub_err s f h =
     do { ch \<leftarrow> f (sub_err (srvSubs h ! s));
          Some (h\<lparr>srvSubs := (srvSubs h)[s := (srvSubs h ! s)\<lparr>sub_err := ch\<rparr>]\<rparr>) }"

text \<open>handler.unsubscribe; \<^const>\<open>None\<close> is a panic (a second close of the error channel).\<close>

definition unsubscribe :: "string \<Rightarrow> hstate \<Rightarrow> ((bool \<times> goerr option) \<times> hstate) option" where
  "unsubscribe subid h =
     (case map_get (serverSubs h) subid of
        None \<Rightarrow> Some ((False, Some ErrSubscriptionNotFound), h)
      | Some s \<Rightarrow>
          do { h' \<leftarrow> upd_sub_err s chan_close h;
               Some ((True, None), h'\<lparr>serverSubs := map_delete subid (serverSubs h')\<rparr>) })"

text \<open>handler.cancelServerSubscriptions: every subscription gets the error and is closed.\<close>

fun cancelSubs :: "goerr \<Rightarrow> (string \<times> nat) list \<Rightarrow> hstate \<Rightarrow> hstate option" where
  "cancelSubs err [] h = Some h"
| "cancelSubs err ((subid, s) # rest) h =
     do { h1 \<leftarrow> upd_sub_err s (chan_send err) h;
          h2 \<leftarrow> upd_sub_err s chan_close h1;
          cancelSubs err rest (h2\<lparr>serverSubs := map_delete subid (serverSubs h2)\<rparr>) }"

definition cancelServerSubscriptions :: "goerr \<Rightarrow> hstate \<Rightarrow> hstate option" where
  "cancelServerSubscriptions err h = cancelSubs err (serverSubs h) h"

text \<open>The notifiers of a call are activated in order; their errors are ignored.\<close>

fun activateAll :: "nat list \<Rightarrow> hstate \<Rightarrow> hstate option" where
  "activateAll [] h = Some h"
| "activateAll (n # nn) h = do { (_, h') \<leftarrow> activate n h; activateAll nn h' }"

section \<open>The invariant of the subscription tables\<close>

text \<open>Every registered subscription is stored under its own id with an open, empty error channel
  and belongs to a call that has returned; the subscription of a call that has not returned is
  untouched; no two notifiers share a subscription; a notifier without one has nothing buffered.\<close>

definition sub_fresh :: "hstate \<Rightarrow> nat \<Rightarrow> bool" where
  "sub_fresh h s \<longleftrightarrow> s < length (srvSubs h) \<and> chan_fresh (sub_err (srvSubs h ! s))"

definition owns_sub :: "hstate \<Rightarrow> nat \<Rightarrow> nat \<Rightarrow> bool" where
  "owns_sub h i s \<longleftrightarrow> i < length (notifs h) \<and> n_sub (notifs h ! i) = Some s"

definition hinv :: "hstate \<Rightarrow> bool" where
  "hinv h \<longleftrightarrow>
     wf_map (serverSubs h) \<and>
     (\<forall>k s. map_get (serverSubs h) k = Some s \<longrightarrow> sub_fresh h s \<and> sub_ID (srvSubs h ! s) = k) \<and>
     (\<forall>k s i. map_get (serverSubs h) k = Some s \<longrightarrow> owns_sub h i s \<longrightarrow> callReturned (notifs h ! i)) \<and>
     (\<forall>i s. owns_sub h i s \<longrightarrow> s < length (srvSubs h)) \<and>
     (\<forall>i s. owns_sub h i s \<longrightarrow> \<not> callReturned (notifs h ! i) \<longrightarrow> sub_fresh h s) \<and>
     (\<forall>i j s. owns_sub h i s \<longrightarrow> owns_sub h j s \<longrightarrow> i = j) \<and>
     (\<forall>i < length (notifs h). n_sub (notifs h ! i) = None \<longrightarrow> n_buffer (notifs h ! i) = [])"

lemma hinvI:
  assumes "wf_map (serverSubs h)"
    and "\<And>k s. map_get (serverSubs h) k = Some s \<Longrightarrow> sub_fresh h s \<and> sub_ID (srvSubs h ! s) = k"
    and "\<And>k s i. map_get (serverSubs h) k = Some s \<Longrightarrow> owns_sub h i s \<Longrightarrow> callReturned (notifs h ! i)"
    and "\<And>i s. owns_sub h i s \<Longrightarrow> s < length (srvSubs h)"
    and "\<And>i s. owns_sub h i s \<Longrightarrow> \<not> callReturned (notifs h ! i) \<Longrightarrow> sub_fresh h s"
    and "\<And>i j s. owns_sub h i s \<Longrightarrow> owns_sub h j s \<Longrightarrow> i = j"
    and "\<And>i. i < length (notifs h) \<Longrightarrow> n_sub (notifs h ! i) = None \<Longrightarrow> n_buffer (notifs h ! i) = []"
  shows "hinv h"
  using assms unfolding hinv_def by blast

lemma hinvD:
  assumes "hinv h"
  shows "wf_map (serverSubs h)"
    and "\<And>k s. map_get (serverSubs h) k = Some s \<Longrightarrow> sub_fresh h s"
    and "\<And>k s. map_get (serverSubs h) k = Some s \<Longrightarrow> sub_ID (srvSubs h ! s) = k"
    and "\<And>k s i. map_get (serverSubs h) k = Some s \<Longrightarrow> owns_sub h i s \<Longrightarrow> callReturned (notifs h ! i)"
    and "\<And>i s. owns_sub h i s \<Longrightarrow> s < length (srvSubs h)"
    and "\<And>i s. owns_sub h i s \<Longrightarrow> \<not> callReturned (notifs h ! i) \<Longrightarrow> sub_fresh h s"
    and "\<And>i j s. owns_sub h i s \<Longrightarrow> owns_sub h j s \<Longrightarrow> i = j"
    and "\<And>i. i < length (notifs h) \<Longrightarrow> n_sub (notifs h ! i) = None \<Longrightarrow> n_buffer (notifs h ! i) = []"
  using assms unfolding hinv_def by blast+

lemma hinv_new [simp]: "hinv (new_hstate gen plan)"
  by (simp add: hinv_def new_hstate_def owns_sub_def)

text \<open>The invariant reads only the three tables.\<close>

lemma hinv_cong:
  assumes "serverSubs h' = serverSubs h" "srvSubs h' = srvSubs h" "notifs h' = notifs h"
  shows "hinv h' = hinv h"
  by (simp add: hinv_def sub_fresh_def owns_sub_def assms)

lemma writeJSON_fields [simp]:
  "serverSubs (snd (writeJSON v e h)) = serverSubs h" "srvSubs (snd (writeJSON v e h)) = srvSubs h"
  "notifs (snd (writeJSON v e h)) = notifs h" "idgen (snd (writeJSON v e h)) = idgen h"
  "idnext (snd (writeJSON v e h)) = idnext h" "allowSubscribe (snd (writeJSON v e h)) = allowSubscribe h"
  by (simp_all add: writeJSON_def Let_def)

lemma writeJSON_hinv [simp]: "hinv (snd (writeJSON v e h)) = hinv h"
  by (rule hinv_cong) simp_all

lemma upd_notif_fields [simp]:
  "serverSubs (upd_notif n f h) = serverSubs h" "srvSubs (upd_notif n f h) = srvSubs h"
  "length (notifs (upd_notif n f h)) = length (notifs h)" "wlog (upd_notif n f h) = wlog h"
  "wplan (upd_notif n f h) = wplan h" "allowSubscribe (upd_notif n f h) = allowSubscribe h"
  by (simp_all add: upd_notif_def)

lemma upd_notif_nth:
  "n < length (notifs h) \<Longrightarrow>
     notifs (upd_notif n f h) ! i = (if i = n then f (notifs h ! n) else notifs h ! i)"
  by (simp add: upd_notif_def nth_list_update)

text \<open>A change of a notifier that keeps its subscription, only buffers when it has one and does
  not reopen the call keeps the invariant.\<close>

lemma upd_notif_hinv:
  assumes "hinv h" and "n < length (notifs h)"
    and "\<And>x. n_sub (f x) = n_sub x" and "\<And>x. callReturned x \<Longrightarrow> callReturned (f x)"
    and "n_sub (notifs h ! n) = None \<Longrightarrow> n_buffer (f (notifs h ! n)) = []"
  shows "hinv (upd_notif n f h)"
proof -
  have own: "owns_sub (upd_notif n f h) i s \<longleftrightarrow> owns_sub h i s" for i s
    using assms(2,3) by (simp add: owns_sub_def upd_notif_nth)
  have ret: "callReturned (notifs h ! i) \<Longrightarrow> callReturned (notifs (upd_notif n f h) ! i)" for i
    using assms(2,4) by (cases "i = n") (auto simp: upd_notif_nth)
  have fresh: "sub_fresh (upd_notif n f h) s = sub_fresh h s" for s
    by (simp add: sub_fresh_def)
  show ?thesis
  proof (rule hinvI, unfold own fresh upd_notif_fields)
    fix i s assume "owns_sub h i s" "\<not> callReturned (notifs (upd_notif n f h) ! i)"
    then show "sub_fresh h s" using hinvD(6) [OF assms(1)] ret by blast
  next
    fix k s i assume "map_get (serverSubs h) k = Some s" "owns_sub h i s"
    then show "callReturned (notifs (upd_notif n f h) ! i)" using hinvD(4) [OF assms(1)] ret by blast
  next
    fix i assume "i < length (notifs h)" "n_sub (notifs (upd_notif n f h) ! i) = None"
    then show "n_buffer (notifs (upd_notif n f h) ! i) = []"
      using hinvD(8) [OF assms(1)] assms(2,3,5) by (auto simp: upd_notif_nth split: if_splits)
  qed (use hinvD(1-3,5,7) [OF assms(1)] in auto)
qed

lemma CreateSubscription_SomeD:
  assumes "CreateSubscription n h = Some (s, h')"
  shows "n_sub (notifs h ! n) = None" "\<not> callReturned (notifs h ! n)" "s = length (srvSubs h)"
    "serverSubs h' = serverSubs h" "wlog h' = wlog h" "wplan h' = wplan h" "allowSubscribe h' = allowSubscribe h"
    "srvSubs h' = srvSubs h @ [\<lparr>sub_ID = idgen h (idnext h), sub_namespace = n_namespace (notifs h ! n), sub_err = make_chan 1\<rparr>]"
    "notifs h' = (notifs h)[n := (notifs h ! n)\<lparr>n_sub := Some s\<rparr>]"
  using assms by (auto simp: CreateSubscription_def upd_notif_def Let_def split: if_splits)

lemma CreateSubscription_hinv:
  assumes inv: "hinv h" and n: "n < length (notifs h)" and c: "CreateSubscription n h = Some (s, h')"
  shows "hinv h'"
proof -
  note c = CreateSubscription_SomeD [OF c]
  have own: "owns_sub h' i t \<longleftrightarrow> (if i = n then t = s else owns_sub h i t)" for i t
    using n by (auto simp: owns_sub_def c(9) nth_list_update)
  have ret: "callReturned (notifs h' ! i) = callReturned (notifs h ! i)" for i
    using n by (simp add: c(9) nth_list_update)
  have fresh: "sub_fresh h t \<Longrightarrow> sub_fresh h' t \<and> srvSubs h' ! t = srvSubs h ! t" for t
    by (auto simp: sub_fresh_def c(8) nth_append)
  have new: "sub_fresh h' s" by (simp add: sub_fresh_def c(3,8))
  have lt: "owns_sub h i t \<Longrightarrow> t < s" for i t using hinvD(5) [OF inv] c(3) by simp
  have reg: "map_get (serverSubs h) k = Some t \<Longrightarrow> t < s" for k t
    using hinvD(2) [OF inv] c(3) by (auto simp: sub_fresh_def)
  show ?thesis
  proof (rule hinvI)
    fix i assume "i < length (notifs h')" "n_sub (notifs h' ! i) = None"
    then show "n_buffer (notifs h' ! i) = []"
      using hinvD(8) [OF inv, of i] n by (auto simp: c(9) nth_list_update split: if_splits)
  next
    fix i t assume "owns_sub h' i t"
    then show "t < length (srvSubs h')"
      using lt c(3) by (auto simp: own c(8) less_Suc_eq split: if_splits)
  next
    fix i t assume "owns_sub h' i t" "\<not> callReturned (notifs h' ! i)"
    then show "sub_fresh h' t"
      using new hinvD(6) [OF inv] fresh by (auto simp: own ret split: if_splits)
  next
    fix i j t assume "owns_sub h' i t" "owns_sub h' j t"
    then show "i = j" using hinvD(7) [OF inv] lt [of _ s] by (auto simp: own split: if_splits)
  next
    fix k t i assume "map_get (serverSubs h') k = Some t" "owns_sub h' i t"
    then show "callReturned (notifs h' ! i)"
      using reg hinvD(4) [OF inv] by (auto simp: own ret c(4) split: if_splits)
  qed (use hinvD(1-3) [OF inv] fresh in \<open>auto simp: c(4)\<close>)
qed

lemma notifier_send_fields [simp]:
  "serverSubs (snd (notifier_send n s d h)) = serverSubs h" "srvSubs (snd (notifier_send n s d h)) = srvSubs h"
  "notifs (snd (notifier_send n s d h)) = notifs h"
  "allowSubscribe (snd (notifier_send n s d h)) = allowSubscribe h"
  by (simp_all add: notifier_send_def)

lemma notifier_send_hinv [simp]: "hinv (snd (notifier_send n s d h)) = hinv h"
  by (rule hinv_cong) simp_all

lemma Notify_hinv:
  assumes "hinv h" and "n < length (notifs h)" and "Notify n i d h = Some (e, h')"
  shows "hinv h'" and "length (notifs h') = length (notifs h)"
proof -
  have "(activated (notifs h ! n) \<and> (\<exists>s. h' = snd (notifier_send n s d h))) \<or>
      (n_sub (notifs h ! n) \<noteq> None \<and> h' = upd_notif n (\<lambda>x. x\<lparr>n_buffer := n_buffer x @ [d]\<rparr>) h)"
    using assms(3) by (auto simp: Notify_def Let_def split: option.splits if_splits) (metis snd_conv)
  then show "hinv h'" and "length (notifs h') = length (notifs h)"
    using assms(1,2) by (auto intro!: upd_notif_hinv)
qed

lemma runNotifOps_hinv:
  assumes "hinv h" and "\<And>n. nf = Some n \<Longrightarrow> n < length (notifs h)"
  shows "hinv (snd (runNotifOps nf xs h)) \<and> length (notifs (snd (runNotifOps nf xs h))) = length (notifs h)"
  using assms
proof (induction nf xs h rule: runNotifOps.induct)
  case (3 n xs h)
  show ?case
  proof (cases "CreateSubscription n h")
    case (Some p)
    obtain s h' where p: "p = (s, h')" by fastforce
    have "hinv h'" "length (notifs h') = length (notifs h)"
      using CreateSubscription_hinv [of h n s h'] CreateSubscription_SomeD(9) [of n h s h'] 3(2,3) Some p by auto
    with 3 Some p show ?thesis by simp
  qed (use 3 in simp)
next
  case (4 n which data xs h)
  let ?own = "case n_sub (notifs h ! n) of Some s \<Rightarrow> sub_ID (srvSubs h ! s) | None \<Rightarrow> ''''"
  let ?i = "case which of Some i \<Rightarrow> i | None \<Rightarrow> ?own"
  show ?case
  proof (cases "Notify n ?i data h")
    case None
    then show ?thesis using 4 by (simp add: Let_def)
  next
    case (Some p)
    obtain e h' where p: "p = (e, h')" by fastforce
    have "hinv h'" "length (notifs h') = length (notifs h)"
      using Notify_hinv [of h n ?i data e h'] 4(2,3) Some p by auto
    with 4 Some p show ?thesis by (simp add: Let_def)
  qed
qed auto

section \<open>Registering, unsubscribing, cancelling\<close>

text \<open>The state after taking the subscription of one notifier and registering it.\<close>

definition take_register :: "nat \<Rightarrow> hstate \<Rightarrow> hstate" where
  "take_register n h =
     (case takeSubscription n h of
        (None, h') \<Rightarrow> h'
      | (Some s, h') \<Rightarrow> h'\<lparr>serverSubs := map_set (sub_ID (srvSubs h' ! s)) s (serverSubs h')\<rparr>)"

lemma addSubscriptions_Cons: "addSubscriptions (n # nn) h = addSubscriptions nn (take_register n h)"
  by (simp add: take_register_def split: prod.split option.split)

lemma take_register_fields [simp]:
  "wlog (take_register n h) = wlog h" "wplan (take_register n h) = wplan h" "srvSubs (take_register n h) = srvSubs h"
  "length (notifs (take_register n h)) = length (notifs h)" "allowSubscribe (take_register n h) = allowSubscribe h"
  by (simp_all add: take_register_def takeSubscription_def split: option.split)

declare addSubscriptions.simps(2) [simp del]

lemma addSubscriptions_fields [simp]:
  "wlog (addSubscriptions nn h) = wlog h" "wplan (addSubscriptions nn h) = wplan h"
  "srvSubs (addSubscriptions nn h) = srvSubs h" "length (notifs (addSubscriptions nn h)) = length (notifs h)"
  "allowSubscribe (addSubscriptions nn h) = allowSubscribe h"
  by (induction nn arbitrary: h) (simp_all add: addSubscriptions_Cons)

lemma take_register_hinv:
  assumes inv: "hinv h" and n: "n < length (notifs h)" and live: "\<not> callReturned (notifs h ! n)"
  shows "hinv (take_register n h)"
proof -
  let ?h1 = "upd_notif n (\<lambda>x. x\<lparr>callReturned := True\<rparr>) h"
  have inv1: "hinv ?h1"
    by (rule upd_notif_hinv [OF inv n]) (use hinvD(8) [OF inv n] in auto)
  show ?thesis
  proof (cases "n_sub (notifs h ! n)")
    case None
    then show ?thesis using inv1 by (simp add: take_register_def takeSubscription_def)
  next
    case (Some s)
    let ?h2 = "?h1\<lparr>serverSubs := map_set (sub_ID (srvSubs h ! s)) s (serverSubs h)\<rparr>"
    have own: "owns_sub ?h2 i t = owns_sub ?h1 i t" "sub_fresh ?h2 t = sub_fresh ?h1 t" for i t
      by (simp_all add: owns_sub_def sub_fresh_def)
    have s: "sub_fresh ?h1 s" "owns_sub ?h1 n s"
      using hinvD(6) [OF inv, of n s] Some n live by (simp_all add: owns_sub_def sub_fresh_def upd_notif_nth)
    have ret: "callReturned (notifs ?h1 ! n)" using n by (simp add: upd_notif_nth)
    have "hinv ?h2"
    proof (rule hinvI, unfold own)
      fix k t i assume "map_get (serverSubs ?h2) k = Some t" "owns_sub ?h1 i t"
      then show "callReturned (notifs ?h2 ! i)"
        using hinvD(4) [OF inv1] hinvD(7) [OF inv1 s(2)] ret by (auto simp: map_get_set split: if_splits)
    qed (use hinvD [OF inv1] s in \<open>auto simp: map_get_set split: if_splits\<close>)
    then show ?thesis using Some by (simp add: take_register_def takeSubscription_def)
  qed
qed

lemma take_register_notifs:
  "notifs (take_register n h) = (notifs h)[n := (notifs h ! n)\<lparr>callReturned := True\<rparr>]"
  by (simp add: take_register_def takeSubscription_def upd_notif_def split: option.split)

text \<open>The notifiers of a call that is about to return: known, distinct and still open.\<close>

definition open_notifs :: "hstate \<Rightarrow> nat list \<Rightarrow> bool" where
  "open_notifs h nn \<longleftrightarrow> distinct nn \<and> (\<forall>n \<in> set nn. n < length (notifs h) \<and> \<not> callReturned (notifs h ! n))"

lemma addSubscriptions_hinv [inv_intros]:
  "hinv h \<Longrightarrow> open_notifs h nn \<Longrightarrow> hinv (addSubscriptions nn h)"
proof (induction nn arbitrary: h)
  case (Cons n nn)
  have "hinv (take_register n h)" using Cons.prems by (simp add: take_register_hinv open_notifs_def)
  moreover have "open_notifs (take_register n h) nn"
    using Cons.prems(2) by (auto simp: open_notifs_def take_register_notifs nth_list_update)
  ultimately show ?case unfolding addSubscriptions_Cons by (rule Cons.IH)
qed simp

lemma upd_sub_err_close:
  assumes inv: "hinv h" and s: "map_get (serverSubs h) k = Some s"
    and f: "\<And>c. chan_fresh c \<Longrightarrow> \<exists>c'. f c = Some c'"
  shows "\<exists>h'. upd_sub_err s f h = Some h' \<and> hinv (h'\<lparr>serverSubs := map_delete k (serverSubs h')\<rparr>) \<and>
    serverSubs h' = serverSubs h \<and> notifs h' = notifs h \<and> wlog h' = wlog h \<and>
    (\<forall>t. t \<noteq> s \<longrightarrow> srvSubs h' ! t = srvSubs h ! t) \<and> f (sub_err (srvSubs h ! s)) = Some (sub_err (srvSubs h' ! s))"
proof -
  have fresh: "s < length (srvSubs h)" "chan_fresh (sub_err (srvSubs h ! s))"
    using hinvD(2) [OF inv s] by (auto simp: sub_fresh_def)
  then obtain c where c: "f (sub_err (srvSubs h ! s)) = Some c" using f by blast
  let ?h' = "h\<lparr>srvSubs := (srvSubs h)[s := (srvSubs h ! s)\<lparr>sub_err := c\<rparr>]\<rparr>"
  let ?h2 = "?h'\<lparr>serverSubs := map_delete k (serverSubs h)\<rparr>"
  have own: "owns_sub ?h2 i t = owns_sub h i t" for i t by (simp add: owns_sub_def)
  have keep: "sub_fresh ?h2 t = sub_fresh h t \<and> srvSubs ?h2 ! t = srvSubs h ! t" if "t \<noteq> s" for t
    using that by (simp add: sub_fresh_def)
  have other: "t \<noteq> s" if "map_get (map_delete k (serverSubs h)) k' = Some t" for k' t
    using that hinvD(3) [OF inv s] hinvD(3) [OF inv, of k' t] by (auto simp: map_get_delete split: if_splits)
  have live: "t \<noteq> s" if "owns_sub h i t" "\<not> callReturned (notifs h ! i)" for i t
    using hinvD(4) [OF inv s] that by blast
  have "hinv ?h2"
  proof (rule hinvI, unfold own)
    fix k' t assume "map_get (serverSubs ?h2) k' = Some t"
    then show "sub_fresh ?h2 t \<and> sub_ID (srvSubs ?h2 ! t) = k'"
      using keep [OF other, of k' t] hinvD(2,3) [OF inv, of k' t] by (simp add: map_get_delete split: if_splits)
  next
    fix i t assume "owns_sub h i t" "\<not> callReturned (notifs ?h2 ! i)"
    then show "sub_fresh ?h2 t" using keep [OF live] hinvD(6) [OF inv] by simp
  qed (use hinvD [OF inv] in \<open>auto simp: map_get_delete split: if_splits\<close>)
  then show ?thesis using c fresh(1) by (auto simp: upd_sub_err_def)
qed

lemma unsubscribe_hinv:
  assumes "hinv h"
  shows "\<exists>r h'. unsubscribe subid h = Some (r, h') \<and> hinv h' \<and> notifs h' = notifs h \<and> wlog h' = wlog h"
proof (cases "map_get (serverSubs h) subid")
  case None
  then show ?thesis using assms by (auto simp: unsubscribe_def)
next
  case (Some s)
  have "\<exists>c'. chan_close c = Some c'" if "chan_fresh c" for c :: "goerr chan"
    using that by (simp add: chan_close_def chan_fresh_def)
  from upd_sub_err_close [OF assms Some this] show ?thesis
    using Some by (fastforce simp: unsubscribe_def)
qed

lemma upd_sub_err_compose:
  "s < length (srvSubs h) \<Longrightarrow>
     Option.bind (upd_sub_err s f h) (upd_sub_err s g) = upd_sub_err s (\<lambda>c. Option.bind (f c) g) h"
  by (cases "f (sub_err (srvSubs h ! s))") (auto simp: upd_sub_err_def)

text \<open>What a cancelled subscription's error channel holds: the error, then the end of the channel.\<close>

definition cancelled_with :: "goerr \<Rightarrow> hstate \<Rightarrow> nat \<Rightarrow> bool" where
  "cancelled_with err h s \<longleftrightarrow> chbuf (sub_err (srvSubs h ! s)) = [err] \<and> chclosed (sub_err (srvSubs h ! s))"

lemma send_close_fresh:
  "chan_fresh c \<Longrightarrow> Option.bind (chan_send v c) chan_close = Some (c\<lparr>chbuf := [v], chclosed := True\<rparr>)"
  by (simp add: chan_send_fresh chan_close_def chan_fresh_def)

lemma cancelSubs_hinv:
  assumes "hinv h" and "wf_map rest" and "\<And>k s. map_get rest k = Some s \<Longrightarrow> map_get (serverSubs h) k = Some s"
  shows "\<exists>h'. cancelSubs err rest h = Some h' \<and> hinv h' \<and>
    serverSubs h' = map_delete_all (map fst rest) (serverSubs h) \<and>
    (\<forall>k s. map_get rest k = Some s \<longrightarrow> cancelled_with err h' s) \<and>
    (\<forall>s. s \<notin> ran (map_get rest) \<longrightarrow> srvSubs h' ! s = srvSubs h ! s)"
  using assms
proof (induction rest arbitrary: h)
  case (Cons kv rest)
  obtain k s where kv: "kv = (k, s)" by fastforce
  have ks: "map_get (serverSubs h) k = Some s" using Cons.prems(3) [of k s] kv by simp
  let ?f = "\<lambda>c. Option.bind (chan_send err c) chan_close"
  have ex: "\<exists>c'. ?f c = Some c'" if "chan_fresh c" for c :: "goerr chan" using send_close_fresh [OF that] by blast
  from upd_sub_err_close [where f = ?f, OF Cons.prems(1) ks ex] obtain h1 where
    h1: "upd_sub_err s ?f h = Some h1" "hinv (h1\<lparr>serverSubs := map_delete k (serverSubs h1)\<rparr>)"
      "serverSubs h1 = serverSubs h" "\<And>t. t \<noteq> s \<Longrightarrow> srvSubs h1 ! t = srvSubs h ! t"
      "?f (sub_err (srvSubs h ! s)) = Some (sub_err (srvSubs h1 ! s))" by blast
  have fresh: "s < length (srvSubs h)" "chan_fresh (sub_err (srvSubs h ! s))"
    using hinvD(2) [OF Cons.prems(1) ks] by (auto simp: sub_fresh_def)
  let ?h2 = "h1\<lparr>serverSubs := map_delete k (serverSubs h1)\<rparr>"
  have k: "k \<notin> fst ` set rest" "wf_map rest" using Cons.prems(2) kv by (auto simp: wf_map_def)
  have rest: "map_get (serverSubs ?h2) k' = Some t" if "map_get rest k' = Some t" for k' t
  proof -
    have "k' \<noteq> k" using that k(1) by (metis map_of_eq_None_iff option.distinct(1))
    then show ?thesis using Cons.prems(3) [of k' t] that kv h1(3) by (simp add: map_get_delete)
  qed
  from Cons.IH [OF h1(2) k(2) rest] obtain h' where
    h': "cancelSubs err rest ?h2 = Some h'" "hinv h'"
      "serverSubs h' = map_delete_all (map fst rest) (serverSubs ?h2)"
      "\<And>k s. map_get rest k = Some s \<Longrightarrow> cancelled_with err h' s"
      "\<And>s. s \<notin> ran (map_get rest) \<Longrightarrow> srvSubs h' ! s = srvSubs ?h2 ! s" by blast
  have notin: "s \<notin> ran (map_get rest)"
  proof
    assume "s \<in> ran (map_get rest)"
    then obtain k' where k': "map_get rest k' = Some s" by (auto simp: ran_def)
    have "map_get (serverSubs h) k' = Some s" using rest [OF k'] h1(3) by (simp add: map_get_delete split: if_splits)
    then have "k' = k" using hinvD(3) [OF Cons.prems(1)] ks by metis
    with k' k(1) show False by (metis map_of_eq_None_iff option.distinct(1))
  qed
  have "sub_err (srvSubs h1 ! s) = (sub_err (srvSubs h ! s))\<lparr>chbuf := [err], chclosed := True\<rparr>"
    using h1(5) send_close_fresh [OF fresh(2), of err] by simp
  then have "cancelled_with err h' s"
    using h'(5) [OF notin] by (simp add: cancelled_with_def)
  moreover have "cancelSubs err (kv # rest) h = Some h'"
    using upd_sub_err_compose [OF fresh(1), of "chan_send err" chan_close] h1(1) h'(1)
    by (auto simp: kv bind_eq_Some_conv)
  moreover have "srvSubs h' ! t = srvSubs h ! t" if "t \<notin> ran (map_get (kv # rest))" for t
  proof -
    have "map_get rest k = None" using k(1) by (simp add: map_of_eq_None_iff)
    then have "ran (map_get (kv # rest)) = insert s (ran (map_get rest))" by (simp add: kv)
    with that have "t \<noteq> s" "t \<notin> ran (map_get rest)" by simp_all
    then show ?thesis using h'(5) [of t] h1(4) [of t] by simp
  qed
  moreover have "serverSubs h' = map_delete_all (map fst (kv # rest)) (serverSubs h)"
    using h'(3) h1(3) by (simp add: map_delete_all_def kv)
  moreover have "cancelled_with err h' t" if "map_get (kv # rest) k' = Some t" for k' t
    using that h'(4) \<open>cancelled_with err h' s\<close> by (simp add: kv split: if_splits)
  ultimately show ?case
    using h'(2) by blast
qed (simp add: map_delete_all_def)

lemma map_delete_all_keys [simp]: "map_delete_all (map fst m) m = []"
proof -
  have "map_get (map_delete_all (map fst m) m) k = None" for k
    by (auto simp: map_get_delete_all map_of_eq_None_iff image_iff)
  then show ?thesis
    by (metis list.set_intros(1) map_of_eq_None_iff neq_Nil_conv prod.collapse image_eqI)
qed

section \<open>Activation\<close>

lemma notifier_send_eq:
  assumes "notifier_send n s d h = (e, h1)"
  shows "serverSubs h1 = serverSubs h" "srvSubs h1 = srvSubs h" "notifs h1 = notifs h" "allowSubscribe h1 = allowSubscribe h"
  using notifier_send_fields [of n s d h] assms by simp_all

lemma sendAll_fields [simp]:
  "serverSubs (snd (sendAll n s ds h)) = serverSubs h" "srvSubs (snd (sendAll n s ds h)) = srvSubs h"
  "notifs (snd (sendAll n s ds h)) = notifs h" "allowSubscribe (snd (sendAll n s ds h)) = allowSubscribe h"
  by (induction ds arbitrary: h) (auto simp: notifier_send_eq split: prod.split option.split)

lemma activate_cases:
  assumes "hinv h" and "n < length (notifs h)"
  obtains h1 where "h1 = h \<or> (\<exists>s. h1 = snd (sendAll n s (n_buffer (notifs h ! n)) h))"
    "(\<exists>e. activate n h = Some (Some e, h1)) \<or> activate n h = Some (None, upd_notif n (\<lambda>x. x\<lparr>activated := True\<rparr>) h1)"
proof (cases "n_sub (notifs h ! n)")
  case None
  with assms hinvD(8) [OF assms] show ?thesis by (intro that [of h]) (simp_all add: activate_def)
next
  case (Some s)
  then show ?thesis
    by (intro that [of "snd (sendAll n s (n_buffer (notifs h ! n)) h)"])
      (auto simp: activate_def split: prod.split option.split)
qed

lemma activate_hinv:
  assumes "hinv h" and "n < length (notifs h)"
  shows "\<exists>e h'. activate n h = Some (e, h') \<and> hinv h' \<and> length (notifs h') = length (notifs h)"
proof -
  from activate_cases [OF assms] obtain h1 where h1: "h1 = h \<or> (\<exists>s. h1 = snd (sendAll n s (n_buffer (notifs h ! n)) h))"
    "(\<exists>e. activate n h = Some (Some e, h1)) \<or> activate n h = Some (None, upd_notif n (\<lambda>x. x\<lparr>activated := True\<rparr>) h1)" .
  have f: "notifs h1 = notifs h" "serverSubs h1 = serverSubs h" "srvSubs h1 = srvSubs h" using h1(1) by auto
  have inv: "hinv h1" using assms(1) hinv_cong [of h1 h] f by simp
  moreover have "hinv (upd_notif n (\<lambda>x. x\<lparr>activated := True\<rparr>) h1)"
    by (rule upd_notif_hinv [OF inv]) (use assms f hinvD(8) [OF assms] in auto)
  ultimately show ?thesis using h1(2) f by auto
qed

lemma activateAll_hinv:
  "hinv h \<Longrightarrow> \<forall>n \<in> set nn. n < length (notifs h) \<Longrightarrow>
     \<exists>h'. activateAll nn h = Some h' \<and> hinv h' \<and> length (notifs h') = length (notifs h)"
proof (induction nn arbitrary: h)
  case (Cons n nn)
  then obtain e h1 where "activate n h = Some (e, h1)" "hinv h1" "length (notifs h1) = length (notifs h)"
    using activate_hinv [of h n] by auto
  with Cons.IH [of h1] Cons.prems show ?case by simp
qed simp

section \<open>The stream of notifications\<close>

definition writes_ok :: "hstate \<Rightarrow> bool" where
  "writes_ok h \<longleftrightarrow> (\<forall>r \<in> set (wplan h). r = None)"

lemma writeJSON_ok:
  assumes "writes_ok h"
  shows "writeJSON v e h =
    (None, h\<lparr>wlog := wlog h @ [\<lparr>w_value = v, w_isError = e, w_err = None\<rparr>], wplan := tl (wplan h)\<rparr>)"
  using assms by (cases "wplan h") (auto simp: writes_ok_def writeJSON_def)

lemma writes_ok_tl: "writes_ok h \<Longrightarrow> set (tl (wplan h)) \<subseteq> {None}"
  by (cases "wplan h") (auto simp: writes_ok_def)

definition notif_entry :: "string \<Rightarrow> string \<Rightarrow> goval \<Rightarrow> write_entry" where
  "notif_entry ns subid d =
     \<lparr>w_value = WNotif \<lparr>nt_Version = vsn, nt_Method = ns @ notificationMethodSuffix,
        nt_Params = \<lparr>enc_ID = subid, enc_Result = d\<rparr>\<rparr>, w_isError = False, w_err = None\<rparr>"

lemma sendAll_ok:
  assumes "writes_ok h"
  shows "fst (sendAll n s ds h) = None \<and> writes_ok (snd (sendAll n s ds h)) \<and>
    wlog (snd (sendAll n s ds h)) = wlog h @ map (notif_entry (n_namespace (notifs h ! n)) (sub_ID (srvSubs h ! s))) ds"
  using assms
proof (induction ds arbitrary: h)
  case (Cons d ds)
  let ?h1 = "snd (notifier_send n s d h)"
  have s: "notifier_send n s d h = (None, ?h1)"
    "wlog ?h1 = wlog h @ [notif_entry (n_namespace (notifs h ! n)) (sub_ID (srvSubs h ! s)) d]" "writes_ok ?h1"
    using writeJSON_ok [OF Cons.prems] writes_ok_tl [OF Cons.prems]
    by (auto simp: notifier_send_def notification_def notif_entry_def writes_ok_def)
  have "sendAll n s (d # ds) h = sendAll n s ds ?h1" using s(1) by (metis (lifting) sendAll.simps(2) old.prod.case option.case(1))
  with Cons.IH [OF s(3)] s(2) show ?case by simp
qed simp

fun notifyAll :: "nat \<Rightarrow> string \<Rightarrow> goval list \<Rightarrow> hstate \<Rightarrow> hstate option" where
  "notifyAll n subid [] h = Some h"
| "notifyAll n subid (d # ds) h = do { (_, h') \<leftarrow> Notify n subid d h; notifyAll n subid ds h' }"

lemma notifyAll_inactive:
  assumes "n < length (notifs h)" "n_sub (notifs h ! n) = Some s" "sub_ID (srvSubs h ! s) = subid" "\<not> activated (notifs h ! n)"
  shows "notifyAll n subid ds h = Some (upd_notif n (\<lambda>x. x\<lparr>n_buffer := n_buffer x @ ds\<rparr>) h)"
  using assms
proof (induction ds arbitrary: h)
  case Nil
  then show ?case by (simp add: upd_notif_def)
next
  case (Cons d ds)
  then show ?case
    by (simp add: Notify_def upd_notif_nth) (simp add: upd_notif_def)
qed

lemma notifyAll_active:
  assumes "n < length (notifs h)" "n_sub (notifs h ! n) = Some s" "sub_ID (srvSubs h ! s) = subid" "activated (notifs h ! n)"
  shows "notifyAll n subid ds h =
    (if writes_ok h then Some (snd (sendAll n s ds h)) else notifyAll n subid ds h)"
  using assms
proof (induction ds arbitrary: h)
  case (Cons d ds)
  show ?case
  proof (cases "writes_ok h")
    case True
    let ?h1 = "snd (notifier_send n s d h)"
    have s: "notifier_send n s d h = (None, ?h1)" "writes_ok ?h1"
      using writeJSON_ok [OF True] writes_ok_tl [OF True] by (auto simp: notifier_send_def writes_ok_def)
    have "Notify n subid d h = Some (None, ?h1)" using Cons.prems s by (simp add: Notify_def)
    moreover have "sendAll n s (d # ds) h = sendAll n s ds ?h1"
      using s(1) by (metis (lifting) sendAll.simps(2) old.prod.case option.case(1))
    ultimately show ?thesis using Cons.IH [of ?h1] Cons.prems s(2) True by simp
  qed simp
qed simp

section \<open>Ids\<close>

lemma dropWhile_eq_same_length:
  assumes "length xs = length ys" and "dropWhile (\<lambda>x. x = c) xs = dropWhile (\<lambda>x. x = c) ys"
  shows "xs = ys"
proof -
  have split: "zs = replicate (length zs - length (dropWhile (\<lambda>x. x = c) zs)) c @ dropWhile (\<lambda>x. x = c) zs" for zs
  proof -
    have "takeWhile (\<lambda>x. x = c) zs = replicate (length (takeWhile (\<lambda>x. x = c) zs)) c"
      by (rule replicate_length_same [symmetric]) (meson set_takeWhileD)
    moreover have "length (takeWhile (\<lambda>x. x = c) zs) = length zs - length (dropWhile (\<lambda>x. x = c) zs)"
      by (metis diff_add_inverse2 length_append takeWhile_dropWhile_id)
    ultimately show ?thesis by (metis takeWhile_dropWhile_id)
  qed
  show ?thesis using split [of xs] split [of ys] assms by metis
qed

lemma hex_digit_inject: "a < 16 \<Longrightarrow> b < 16 \<Longrightarrow> hex_digit a = hex_digit b \<longleftrightarrow> a = b"
  using hex_val_hex_digit by (metis option.inject)

lemma byte_less: "byte c < 256"
  by (simp add: byte_def)

lemma hex_EncodeToString_inject: "hex_EncodeToString a = hex_EncodeToString b \<longleftrightarrow> a = b"
proof (induction a arbitrary: b)
  case Nil
  then show ?case by (cases b) (auto simp: hex_EncodeToString_def)
next
  case (Cons x a)
  have pair: "hex_digit (byte x div 16) = hex_digit (byte y div 16) \<and> hex_digit (byte x mod 16) = hex_digit (byte y mod 16) \<longleftrightarrow> x = y" for y
    using byte_less [of x] byte_less [of y]
    by (auto simp: hex_digit_inject) (metis byte_def div_mult_mod_eq of_char_eq_iff)
  show ?case
    using Cons.IH pair by (cases b) (auto simp: hex_EncodeToString_def)
qed

lemma length_hex_EncodeToString: "length (hex_EncodeToString b) = 2 * length b"
  by (induction b) (simp_all add: hex_EncodeToString_def)

lemma set_hex_EncodeToString: "set (hex_EncodeToString b) \<subseteq> hex_digit ` {..<16}"
proof -
  have "byte c div 16 < 16" "byte c mod 16 < 16" for c using byte_less [of c] by simp_all
  then show ?thesis by (auto simp: hex_EncodeToString_def)
qed

lemma encodeID_digits:
  "\<exists>ds. encodeID b = ''0x'' @ ds \<and> ds \<noteq> [] \<and> (ds = ''0'' \<or> hd ds \<noteq> CHR ''0'') \<and> set ds \<subseteq> hex_digit ` {..<16}"
proof -
  let ?t = "dropWhile (\<lambda>x. x = CHR ''0'') (hex_EncodeToString b)"
  have "set ?t \<subseteq> hex_digit ` {..<16}" using set_hex_EncodeToString set_dropWhileD by fast
  moreover have "?t \<noteq> [] \<Longrightarrow> hd ?t \<noteq> CHR ''0''" using hd_dropWhile by fast
  moreover have "CHR ''0'' \<in> hex_digit ` {..<16}"
  proof (rule image_eqI)
    show "CHR ''0'' = hex_digit 0" by code_simp
  qed simp
  ultimately show ?thesis
    by (auto simp: encodeID_def strings_TrimLeft_def Let_def)
qed

lemma encodeID_inject:
  assumes "length a = length b" and "encodeID a = encodeID b"
  shows "a = b"
proof -
  let ?t = "\<lambda>x. dropWhile (\<lambda>x. x = CHR ''0'') (hex_EncodeToString x)"
  have nz: "?t x \<noteq> ''0''" for x
  proof
    assume z: "?t x = ''0''"
    then have "hd (?t x) \<noteq> CHR ''0''" using hd_dropWhile [of "\<lambda>x. x = CHR ''0''" "hex_EncodeToString x"] by fastforce
    with z show False by simp
  qed
  have "(if ?t a = [] then ''0'' else ?t a) = (if ?t b = [] then ''0'' else ?t b)"
    using assms(2) by (simp add: encodeID_def strings_TrimLeft_def Let_def)
  with nz [of a] nz [of b] have "?t a = ?t b" by presburger
  moreover have "length (hex_EncodeToString a) = length (hex_EncodeToString b)"
    using assms(1) by (simp only: length_hex_EncodeToString)
  ultimately have "hex_EncodeToString a = hex_EncodeToString b"
    using dropWhile_eq_same_length [of "hex_EncodeToString a" "hex_EncodeToString b" "CHR ''0''"] by blast
  then show ?thesis by (simp add: hex_EncodeToString_inject)
qed

section \<open>Properties\<close>

text \<open>A subscription id is a JSON-RPC quantity, 0x and at least one hexadecimal digit with no
  leading zero, and different random values of the same length give different ids; the generator repeats an id only when its random source
  repeats 16 bytes.\<close>

theorem encodeID_correct:
  "(\<exists>ds. encodeID b = ''0x'' @ ds \<and> ds \<noteq> [] \<and> (ds = ''0'' \<or> hd ds \<noteq> CHR ''0'') \<and> set ds \<subseteq> hex_digit ` {..<16}) \<and>
   (\<forall>a. length a = length b \<longrightarrow> encodeID a = encodeID b \<longrightarrow> a = b) \<and>
   (\<forall>rng i j. (\<forall>n. length (rng n) = 16) \<longrightarrow> (randomIDGenerator rng i = randomIDGenerator rng j \<longleftrightarrow> rng i = rng j))"
proof -
  have "randomIDGenerator rng i = randomIDGenerator rng j \<longleftrightarrow> rng i = rng j" if l: "\<forall>n. length (rng n) = 16" for rng i j
  proof
    have "length (rng i) = length (rng j)" using l by (simp only: l)
    then show "rng i = rng j" if "randomIDGenerator rng i = randomIDGenerator rng j"
      using that unfolding randomIDGenerator_def by (rule encodeID_inject)
  qed (simp only: randomIDGenerator_def)
  then have "\<forall>rng i j. (\<forall>n. length (rng n) = 16) \<longrightarrow> (randomIDGenerator rng i = randomIDGenerator rng j \<longleftrightarrow> rng i = rng j)"
    by (intro allI impI)
  moreover have "\<forall>a. length a = length b \<longrightarrow> encodeID a = encodeID b \<longrightarrow> a = b" by (intro allI impI, rule encodeID_inject)
  ultimately show ?thesis by (intro conjI encodeID_digits)
qed

theorem encodeID_correct_witness: "encodeID [CHR 0x00, CHR 0x1F] = ''0x1f'' \<and> encodeID [CHR 0x00, CHR 0x1F] \<noteq> encodeID [CHR 0x01, CHR 0x1F]"
proof -
  have "encodeID [CHR 0x00, CHR 0x1F] \<noteq> encodeID [CHR 0x01, CHR 0x1F]"
  proof
    assume "encodeID [CHR 0x00, CHR 0x1F] = encodeID [CHR 0x01, CHR 0x1F]"
    from encodeID_correct [of "[CHR 0x01, CHR 0x1F]", THEN conjunct2, THEN conjunct1, rule_format, OF _ this]
    have "[CHR 0x00, CHR 0x1F] = [CHR 0x01, CHR 0x1F]" by simp
    then show False by simp
  qed
  moreover have "encodeID [CHR 0x00, CHR 0x1F] = ''0x1f''" by code_simp
  ultimately show ?thesis by simp
qed

text \<open>C23. Notifications sent before a subscription is activated are buffered, not dropped and not
  written; activation writes them in order and later ones are written at once, so that the
  client sees every notification exactly once and in the order of the Notify calls.\<close>

theorem notifications_in_order:
  assumes "n < length (notifs h)" and "n_sub (notifs h ! n) = Some s" and "sub_ID (srvSubs h ! s) = subid"
    and "\<not> activated (notifs h ! n)" and "n_buffer (notifs h ! n) = []" and "writes_ok h"
  shows "\<exists>h1 h2 h3. notifyAll n subid before h = Some h1 \<and> wlog h1 = wlog h \<and>
    activate n h1 = Some (None, h2) \<and> notifyAll n subid after h2 = Some h3 \<and>
    wlog h3 = wlog h @ map (notif_entry (n_namespace (notifs h ! n)) subid) (before @ after)"
proof -
  let ?h1 = "upd_notif n (\<lambda>x. x\<lparr>n_buffer := n_buffer x @ before\<rparr>) h"
  have n1: "notifs ?h1 ! n = (notifs h ! n)\<lparr>n_buffer := before\<rparr>" using assms(1,5) by (simp add: upd_notif_nth)
  have ok1: "writes_ok ?h1" using assms(6) by (simp add: writes_ok_def)
  let ?h2 = "snd (sendAll n s before ?h1)"
  note s1 = sendAll_ok [OF ok1, of n s before]
  have a: "activate n ?h1 = Some (None, upd_notif n (\<lambda>x. x\<lparr>activated := True\<rparr>) ?h2)"
    using s1 assms(2) n1 by (cases "sendAll n s before ?h1") (simp add: activate_def)
  let ?h2' = "upd_notif n (\<lambda>x. x\<lparr>activated := True\<rparr>) ?h2"
  have n2: "n < length (notifs ?h2')" "notifs ?h2' ! n = (notifs h ! n)\<lparr>n_buffer := before, activated := True\<rparr>"
    using assms(1) n1 by (simp_all add: upd_notif_nth)
  have ok2: "writes_ok ?h2'" using s1 by (simp add: writes_ok_def)
  have "notifyAll n subid after ?h2' = Some (snd (sendAll n s after ?h2'))"
    using notifyAll_active [OF n2(1), of s subid after] n2(2) assms(2,3) ok2 by simp
  moreover have "wlog (snd (sendAll n s after ?h2')) =
      wlog h @ map (notif_entry (n_namespace (notifs h ! n)) subid) (before @ after)"
  proof -
    have "wlog (snd (sendAll n s after ?h2')) =
        wlog ?h2 @ map (notif_entry (n_namespace (notifs h ! n)) subid) after"
      using sendAll_ok [OF ok2, of n s after] n2(2) assms(3) by simp
    moreover have "wlog ?h2 = wlog h @ map (notif_entry (n_namespace (notifs h ! n)) subid) before"
      using s1 n1 assms(3) by simp
    ultimately show ?thesis by simp
  qed
  moreover have "wlog ?h1 = wlog h" by simp
  ultimately show ?thesis
    using notifyAll_inactive [OF assms(1-4), of before] a by blast
qed

definition one_notifier :: hstate where
  "one_notifier = (new_hstate (\<lambda>_. ''0x1'') [])
     \<lparr>notifs := [(newNotifier ''eth'')\<lparr>n_sub := Some 0\<rparr>],
      srvSubs := [\<lparr>sub_ID = ''0x1'', sub_namespace = ''eth'', sub_err = make_chan 1\<rparr>]\<rparr>"

theorem notifications_in_order_witness:
  "\<exists>h1 h2 h3. notifyAll 0 ''0x1'' [GoBool True] one_notifier = Some h1 \<and> wlog h1 = wlog one_notifier \<and>
    activate 0 h1 = Some (None, h2) \<and> notifyAll 0 ''0x1'' [GoNil] h2 = Some h3 \<and>
    wlog h3 = [notif_entry ''eth'' ''0x1'' (GoBool True), notif_entry ''eth'' ''0x1'' GoNil]"
  using notifications_in_order [of 0 one_notifier 0 "''0x1''" "[GoBool True]" "[GoNil]"]
  by (simp add: one_notifier_def new_hstate_def newNotifier_def writes_ok_def)


definition one_registered :: hstate where
  "one_registered = addSubscriptions [0] one_notifier"

lemma one_notifier_hinv: "hinv one_notifier"
  by (rule hinvI)
    (auto simp: one_notifier_def new_hstate_def newNotifier_def owns_sub_def sub_fresh_def chan_fresh_def make_chan_def)

lemma one_registered_hinv: "hinv one_registered"
  unfolding one_registered_def
  by (rule addSubscriptions_hinv [OF one_notifier_hinv])
    (simp add: open_notifs_def one_notifier_def new_hstate_def newNotifier_def)


text \<open>unsubscribe succeeds exactly for a registered id, closes that subscription's channel and
  forgets the id, so that a second unsubscribe of the same id reports that the subscription is
  not found; it never closes a channel twice.\<close>

theorem unsubscribe_correct:
  assumes "hinv h"
  shows "\<exists>h'. unsubscribe subid h =
      Some (if map_get (serverSubs h) subid = None then (False, Some ErrSubscriptionNotFound) else (True, None), h') \<and>
    hinv h' \<and> unsubscribe subid h' = Some ((False, Some ErrSubscriptionNotFound), h') \<and>
    (\<forall>s. map_get (serverSubs h) subid = Some s \<longrightarrow> chclosed (sub_err (srvSubs h' ! s)))"
proof (cases "map_get (serverSubs h) subid")
  case None
  then show ?thesis using assms by (auto simp: unsubscribe_def)
next
  case (Some s)
  have ex: "\<exists>c'. chan_close c = Some c'" if "chan_fresh c" for c :: "goerr chan"
    using that by (simp add: chan_close_def chan_fresh_def)
  from upd_sub_err_close [where f = chan_close, OF assms Some ex] obtain h1 where
    h1: "upd_sub_err s chan_close h = Some h1" "hinv (h1\<lparr>serverSubs := map_delete subid (serverSubs h1)\<rparr>)"
      "chan_close (sub_err (srvSubs h ! s)) = Some (sub_err (srvSubs h1 ! s))" by blast
  then have "chclosed (sub_err (srvSubs h1 ! s))"
    by (auto simp: chan_close_def split: if_splits) (metis chan.select_convs(3) chan.surjective chan.update_convs(3))
  with h1 Some show ?thesis
    by (intro exI [of _ "h1\<lparr>serverSubs := map_delete subid (serverSubs h1)\<rparr>"])
      (simp add: unsubscribe_def map_get_delete)
qed

theorem unsubscribe_correct_witness:
  "hinv one_registered \<and>
   (\<exists>h'. unsubscribe ''0x1'' one_registered = Some ((True, None), h') \<and>
         unsubscribe ''0x1'' h' = Some ((False, Some ErrSubscriptionNotFound), h'))"
proof -
  have "map_get (serverSubs one_registered) ''0x1'' \<noteq> None"
    by (simp add: one_registered_def one_notifier_def new_hstate_def newNotifier_def addSubscriptions.simps
        takeSubscription_def upd_notif_def)
  then show ?thesis using unsubscribe_correct [OF one_registered_hinv, of "''0x1''"] one_registered_hinv by auto
qed

end
