(* ===== verification/Rpc_Handler.thy ===== *)
theory Rpc_Handler
  imports Rpc_Notifier
begin

text \<open>
  The call path of handler.go: handleCallMsg, handleCall, handleSubscribe and runMethod with its
  chain of middlewares, the counters of metrics.go, and the log helpers formatErrorData and
  limitedBuffer.

  A middleware is a function of the context, the method, the arguments, the next function and
  the handler state. The outer \<^const>\<open>None\<close> of its result is a panic, the inner one a nil *MethodResult.
  Nothing above runMethod recovers from a panic, so \<^const>\<open>None\<close> as the result of handleCallMsg is the
  crash of the process.
\<close>

section \<open>Contexts, results, middlewares\<close>

record callctx =
  ctx_notifier :: "nat option"

record MethodResult =
  mr_Result :: goval
  mr_Error :: "goerr option"

type_synonym nextfn =
  "callctx \<Rightarrow> string \<Rightarrow> goval list \<Rightarrow> hstate \<Rightarrow> (MethodResult option \<times> hstate) option"

type_synonym middleware =
  "callctx \<Rightarrow> string \<Rightarrow> goval list \<Rightarrow> nextfn \<Rightarrow> hstate \<Rightarrow> (MethodResult option \<times> hstate) option"

text \<open>The fields of the handler that calls do not change.\<close>

record handlercfg =
  hreg :: "middleware serviceRegistry"
  huser :: usertypes
  batchRequestLimit :: int
  batchResponseMaxSize :: int

record callProc =
  cp_ctx :: callctx
  cp_notifiers :: "nat list"

definition new_callProc :: callProc where
  "new_callProc = \<lparr>cp_ctx = \<lparr>ctx_notifier = None\<rparr>, cp_notifiers = []\<rparr>"

section \<open>Calling\<close>

text \<open>A callback of the registry, or the handler's own callback for all unsubscribe calls. The
  latter is built by newCallback from the signature of the method value h.unsubscribe; its body
  works on the handler and is run by \<open>callback_call\<close>.\<close>

datatype callref = RegCb callback | UnsubscribeCb

definition unsubscribe_fn :: gofunc where
  "unsubscribe_fn =
     \<lparr>ins = [TContext, TStr ''rpc.ID''], outs = [TOther 0 False, TError], body = (\<lambda>_. ([], Panicked))\<rparr>"

definition unsubscribeCb :: callback where
  "unsubscribeCb =
     (case newCallback False unsubscribe_fn of
        Some cb \<Rightarrow> cb
      | None \<Rightarrow> \<lparr>fn = unsubscribe_fn, rcvr = False, argTypes = [], hasCtx = False, errPos = -1, isSubscribeCb = False\<rparr>)"

fun cb_of :: "callref \<Rightarrow> callback" where
  "cb_of (RegCb cb) = cb"
| "cb_of UnsubscribeCb = unsubscribeCb"

text \<open>The value of a returned subscription: what its notifier holds, or a nil pointer.\<close>

definition resolve_ret :: "nat option \<Rightarrow> hstate \<Rightarrow> goret \<Rightarrow> goret" where
  "resolve_ret nf h r =
     (if r = ROwnSub then
        RVal (case nf of
                None \<Rightarrow> GoNil
              | Some n \<Rightarrow> (case n_sub (notifs h ! n) of None \<Rightarrow> GoNil | Some s \<Rightarrow> GoSub (sub_ID (srvSubs h ! s))))
      else r)"

definition resolve :: "nat option \<Rightarrow> hstate \<Rightarrow> outcome \<Rightarrow> outcome" where
  "resolve nf h out = (case out of Panicked \<Rightarrow> Panicked | Returned rs \<Rightarrow> Returned (map (resolve_ret nf h) rs))"

text \<open>What the function does with the arguments: reflect.Value.Call panics when their number is
  wrong; the notifier comes from the context parameter.\<close>

fun callback_body :: "callref \<Rightarrow> callctx \<Rightarrow> callarg list \<Rightarrow> hstate \<Rightarrow> outcome \<times> hstate" where
  "callback_body (RegCb cb) ctx full h =
     (if length full \<noteq> length (ins (fn cb)) then (Panicked, h)
      else let nf = (if hasCtx cb then ctx_notifier ctx else None) in
        case body (fn cb) full of
        (ops, out) \<Rightarrow>
          (case runNotifOps nf ops h of
             (True, h') \<Rightarrow> (Panicked, h')
           | (False, h') \<Rightarrow> (resolve nf h' out, h')))"
| "callback_body UnsubscribeCb ctx [ACtx, AVal (GoStr subid)] h =
     (case unsubscribe subid h of
        None \<Rightarrow> (Panicked, h)
      | Some ((ok, err), h') \<Rightarrow> (Returned [RVal (GoBool ok), RErr err], h'))"
| "callback_body UnsubscribeCb ctx full h = (Panicked, h)"

definition callback_call :: "callref \<Rightarrow> callctx \<Rightarrow> goval list \<Rightarrow> hstate \<Rightarrow> (goval \<times> goerr option) \<times> hstate" where
  "callback_call cref ctx args h =
     (case callback_body cref ctx (call_fullargs (cb_of cref) args) h of
        (out, h') \<Rightarrow> (call_result (cb_of cref) out, h'))"

section \<open>runMethod\<close>

definition base_next :: "callref \<Rightarrow> nextfn" where
  "base_next cref ctx meth args h =
     (case callback_call cref ctx args h of
        ((result, err), h') \<Rightarrow> Some (Some \<lparr>mr_Result = result, mr_Error = err\<rparr>, h'))"

text \<open>The loop from the last middleware to the first, each wrapping the function built so far.\<close>

fun wrap_middlewares :: "middleware list \<Rightarrow> nextfn \<Rightarrow> nextfn" where
  "wrap_middlewares [] next = next"
| "wrap_middlewares (middleware # mws) next =
     (let nextFunc = wrap_middlewares mws next in (\<lambda>ctx meth args. middleware ctx meth args nextFunc))"

definition runMethod ::
    "handlercfg \<Rightarrow> callctx \<Rightarrow> jsonrpcMessage \<Rightarrow> callref \<Rightarrow> goval list \<Rightarrow> hstate \<Rightarrow> (jsonrpcMessage \<times> hstate) option" where
  "runMethod cfg ctx msg cref args h =
     (case wrap_middlewares (middlewares (hreg cfg)) (base_next cref) ctx (Method msg) args h of
        None \<Rightarrow> None
      | Some (None, _) \<Rightarrow> None
      | Some (Some result, h') \<Rightarrow>
          (case mr_Error result of
             Some err \<Rightarrow> Some (errorResponse msg err, h')
           | None \<Rightarrow> Some (response (huser cfg) msg (mr_Result result), h')))"

section \<open>handleSubscribe, handleCall, handleCallMsg\<close>

definition stringType :: rtype where
  "stringType = TStr ''string''"

type_synonym answer = "(jsonrpcMessage \<times> callProc \<times> hstate) option"

definition handleSubscribe :: "handlercfg \<Rightarrow> callProc \<Rightarrow> jsonrpcMessage \<Rightarrow> hstate \<Rightarrow> answer" where
  "handleSubscribe cfg cp msg h =
     (if \<not> allowSubscribe h then Some (errorResponse msg NotificationsUnsupportedError, cp, h)
      else case parseSubscriptionName (Params msg) of
        Inl err \<Rightarrow> Some (errorResponse msg (InvalidParamsError err), cp, h)
      | Inr name \<Rightarrow>
          (let namespace = namespace_of msg in
           case registry_subscription (hreg cfg) namespace name of
             None \<Rightarrow> Some (errorResponse msg (SubscriptionNotFoundError namespace name), cp, h)
           | Some callb \<Rightarrow>
               (case parsePositionalArguments (huser cfg) (Params msg) (stringType # argTypes callb) of
                  Inl err \<Rightarrow> Some (errorResponse msg (InvalidParamsError err), cp, h)
                | Inr args \<Rightarrow>
                    (let n = length (notifs h);
                         h1 = h\<lparr>notifs := notifs h @ [newNotifier namespace]\<rparr>;
                         cp1 = cp\<lparr>cp_notifiers := cp_notifiers cp @ [n]\<rparr>
                     in case runMethod cfg ((cp_ctx cp)\<lparr>ctx_notifier := Some n\<rparr>) msg (RegCb callb) (tl args) h1 of
                          None \<Rightarrow> None
                        | Some (resp, h2) \<Rightarrow> Some (resp, cp1, h2)))))"

definition count_request :: "jsonrpcMessage \<Rightarrow> hstate \<Rightarrow> hstate" where
  "count_request ans h =
     (let h1 = h\<lparr>rpcRequestGauge := rpcRequestGauge h + 1\<rparr> in
      if Error ans \<noteq> None then h1\<lparr>failedRequestGauge := failedRequestGauge h1 + 1\<rparr>
      else h1\<lparr>successfulRequestGauge := successfulRequestGauge h1 + 1\<rparr>)"

definition handleCall :: "handlercfg \<Rightarrow> callProc \<Rightarrow> jsonrpcMessage \<Rightarrow> hstate \<Rightarrow> answer" where
  "handleCall cfg cp msg h =
     (if isSubscribe msg then handleSubscribe cfg cp msg h
      else let callb = (if isUnsubscribe msg then Some UnsubscribeCb
                        else map_option RegCb (registry_callback (hreg cfg) (Method msg)))
        in case callb of
          None \<Rightarrow> Some (errorResponse msg (MethodNotFoundError (Method msg)), cp, h)
        | Some cref \<Rightarrow>
            (case parsePositionalArguments (huser cfg) (Params msg) (argTypes (cb_of cref)) of
               Inl err \<Rightarrow> Some (errorResponse msg (InvalidParamsError err), cp, h)
             | Inr args \<Rightarrow>
                 (case runMethod cfg (cp_ctx cp) msg cref args h of
                    None \<Rightarrow> None
                  | Some (ans, h1) \<Rightarrow>
                      Some (ans, cp, (if cref \<noteq> UnsubscribeCb then count_request ans h1 else h1)))))"

definition handleCallMsg ::
    "handlercfg \<Rightarrow> callProc \<Rightarrow> jsonrpcMessage \<Rightarrow> hstate \<Rightarrow> (jsonrpcMessage option \<times> callProc \<times> hstate) option" where
  "handleCallMsg cfg cp msg h =
     (if isNotification msg then
        (case handleCall cfg cp msg h of
           None \<Rightarrow> None
         | Some (_, cp', h') \<Rightarrow> Some (None, cp', h'))
      else if isCall msg then
        (case handleCall cfg cp msg h of
           None \<Rightarrow> None
         | Some (resp, cp', h') \<Rightarrow> Some (Some resp, cp', h'))
      else if hasValidID msg then Some (Some (errorResponse msg (InvalidRequestError ''invalid request'')), cp, h)
      else Some (Some (errorMessage (InvalidRequestError ''invalid request'')), cp, h))"

section \<open>Log helpers\<close>

record limitedBuffer =
  lb_output :: string
  lb_limit :: nat

definition limitedBuffer_Write :: "string \<Rightarrow> limitedBuffer \<Rightarrow> (nat \<times> bool) \<times> limitedBuffer" where
  "limitedBuffer_Write data buf =
     (let avail = max (lb_limit buf) (length (lb_output buf)) in
      if length data < avail then ((length data, False), buf\<lparr>lb_output := lb_output buf @ data\<rparr>)
      else ((avail, True), buf\<lparr>lb_output := lb_output buf @ take avail data\<rparr>))"

text \<open>The encoder writes the encoded value and a newline with one Write; TrimRight removes the
  newlines at the end.\<close>

definition trim_newlines :: "string \<Rightarrow> string" where
  "trim_newlines s = rev (dropWhile (\<lambda>c. c = CHR 0x0A) (rev s))"

definition formatErrorData :: "usertypes \<Rightarrow> goval \<Rightarrow> string" where
  "formatErrorData ut v =
     (case json_Marshal ut v of
        Inl err \<Rightarrow> ''bad error data (err='' @ err @ '')''
      | Inr j \<Rightarrow>
          (case limitedBuffer_Write (raw_of j @ [CHR 0x0A]) \<lparr>lb_output = [], lb_limit = 1024\<rparr> of
             ((_, truncated), buf) \<Rightarrow>
               (if truncated then lb_output buf @ ''... (truncated)'' else trim_newlines (lb_output buf))))"

section \<open>What a call leaves alone\<close>

text \<open>A method body writes nothing to the connection (its notifier is not active yet), neither
  ends nor activates any call, and does not touch the counters.\<close>

definition gauges :: "hstate \<Rightarrow> nat \<times> nat \<times> nat" where
  "gauges h = (rpcRequestGauge h, successfulRequestGauge h, failedRequestGauge h)"

definition call_frame :: "hstate \<Rightarrow> hstate \<Rightarrow> bool" where
  "call_frame h h' \<longleftrightarrow>
     wlog h' = wlog h \<and> wplan h' = wplan h \<and> allowSubscribe h' = allowSubscribe h \<and>
     length (notifs h) \<le> length (notifs h') \<and>
     (\<forall>i < length (notifs h). callReturned (notifs h' ! i) = callReturned (notifs h ! i) \<and>
                              activated (notifs h' ! i) = activated (notifs h ! i))"

lemma call_frame_refl [simp]: "call_frame h h"
  by (simp add: call_frame_def)

lemma call_frame_trans: "call_frame a b \<Longrightarrow> call_frame b c \<Longrightarrow> call_frame a c"
  by (auto simp: call_frame_def)

lemma call_frameD:
  assumes "call_frame h h'"
  shows "wlog h' = wlog h" "wplan h' = wplan h" "allowSubscribe h' = allowSubscribe h"
    "length (notifs h) \<le> length (notifs h')"
  using assms by (simp_all add: call_frame_def)

lemma CreateSubscription_frame:
  assumes "CreateSubscription n h = Some (s, h')" and "n < length (notifs h)"
  shows "call_frame h h' \<and> gauges h' = gauges h \<and> length (notifs h') = length (notifs h)"
proof -
  have "gauges h' = gauges h"
    using assms(1) by (auto simp: CreateSubscription_def gauges_def upd_notif_def Let_def split: if_splits)
  then show ?thesis
    using CreateSubscription_SomeD [OF assms(1)] assms(2) by (auto simp: call_frame_def nth_list_update)
qed

lemma Notify_inactive_frame:
  assumes "Notify n i d h = Some (e, h')" and "n < length (notifs h)" and "\<not> activated (notifs h ! n)"
  shows "call_frame h h' \<and> gauges h' = gauges h \<and> length (notifs h') = length (notifs h)"
proof -
  have "h' = upd_notif n (\<lambda>x. x\<lparr>n_buffer := n_buffer x @ [d]\<rparr>) h"
    using assms(1,3) by (auto simp: Notify_def Let_def split: option.splits if_splits)
  then show ?thesis using assms(2) by (auto simp: call_frame_def gauges_def upd_notif_def nth_list_update)
qed

lemma runNotifOps_frame:
  assumes "\<And>n. nf = Some n \<Longrightarrow> n < length (notifs h) \<and> \<not> activated (notifs h ! n)"
  shows "call_frame h (snd (runNotifOps nf xs h)) \<and> gauges (snd (runNotifOps nf xs h)) = gauges h \<and>
    length (notifs (snd (runNotifOps nf xs h))) = length (notifs h)"
  using assms
proof (induction nf xs h rule: runNotifOps.induct)
  case (3 n xs h)
  show ?case
  proof (cases "CreateSubscription n h")
    case (Some p)
    obtain s h' where p: "p = (s, h')" by fastforce
    have f: "call_frame h h'" "gauges h' = gauges h" "length (notifs h') = length (notifs h)"
      using CreateSubscription_frame [of n h s h'] 3(2) Some p by auto
    have "n < length (notifs h') \<and> \<not> activated (notifs h' ! n)"
      using f 3(2) by (auto simp: call_frame_def)
    with 3(1) Some p f show ?thesis using call_frame_trans by fastforce
  qed (use 3 in simp)
next
  case (4 n which data xs h)
  let ?own = "case n_sub (notifs h ! n) of Some s \<Rightarrow> sub_ID (srvSubs h ! s) | None \<Rightarrow> ''''"
  let ?i = "case which of Some i \<Rightarrow> i | None \<Rightarrow> ?own"
  show ?case
  proof (cases "Notify n ?i data h")
    case None
    then show ?thesis using 4 by (simp add: Let_def)
  next
    case (Some p)
    obtain e h' where p: "p = (e, h')" by fastforce
    have f: "call_frame h h'" "gauges h' = gauges h" "length (notifs h') = length (notifs h)"
      using Notify_inactive_frame [of n ?i data h e h'] 4(2) Some p by auto
    have "n < length (notifs h') \<and> \<not> activated (notifs h' ! n)"
      using f 4(2) by (auto simp: call_frame_def)
    with 4(1) Some p f show ?thesis using call_frame_trans by (fastforce simp: Let_def)
  qed
qed auto

lemma unsubscribe_frame:
  assumes "unsubscribe i h = Some (r, h')"
  shows "call_frame h h' \<and> gauges h' = gauges h \<and> length (notifs h') = length (notifs h)"
  using assms
  by (auto simp: unsubscribe_def upd_sub_err_def call_frame_def gauges_def bind_eq_Some_conv split: option.splits)

section \<open>Well-behaved next functions and middlewares\<close>

definition ctx_ok :: "callctx \<Rightarrow> hstate \<Rightarrow> bool" where
  "ctx_ok ctx h \<longleftrightarrow> (\<forall>n. ctx_notifier ctx = Some n \<longrightarrow> n < length (notifs h) \<and> \<not> activated (notifs h ! n))"

text \<open>A next function that returns a result, keeps the invariant and has the frame above; a
  middleware that gives such a function when it is given one.\<close>

definition next_ok :: "nextfn \<Rightarrow> bool" where
  "next_ok next \<longleftrightarrow>
     (\<forall>ctx meth args h. hinv h \<longrightarrow> ctx_ok ctx h \<longrightarrow>
        (\<exists>r h'. next ctx meth args h = Some (Some r, h') \<and> hinv h' \<and> call_frame h h' \<and>
                gauges h' = gauges h \<and> length (notifs h') = length (notifs h)))"

definition mw_ok :: "middleware \<Rightarrow> bool" where
  "mw_ok mw \<longleftrightarrow> (\<forall>next. next_ok next \<longrightarrow> next_ok (\<lambda>ctx meth args. mw ctx meth args next))"

definition cfg_ok :: "handlercfg \<Rightarrow> bool" where
  "cfg_ok cfg \<longleftrightarrow> (\<forall>mw \<in> set (middlewares (hreg cfg)). mw_ok mw)"

lemma next_okD:
  assumes "next_ok next" and "hinv h" and "ctx_ok ctx h"
  obtains r h' where "next ctx meth args h = Some (Some r, h')" "hinv h'" "call_frame h h'"
    "gauges h' = gauges h" "length (notifs h') = length (notifs h)"
  using assms unfolding next_ok_def by meson

lemma callback_body_snd:
  "snd (callback_body (RegCb cb) ctx full h) =
     (if length full \<noteq> length (ins (fn cb)) then h
      else snd (runNotifOps (if hasCtx cb then ctx_notifier ctx else None) (fst (body (fn cb) full)) h))"
proof -
  let ?nf = "if hasCtx cb then ctx_notifier ctx else None"
  obtain ops out where b: "body (fn cb) full = (ops, out)" by fastforce
  obtain p h' where r: "runNotifOps ?nf ops h = (p, h')" by fastforce
  show ?thesis by (cases p) (simp_all add: b r Let_def del: if_split)
qed

lemma callback_body_ok:
  assumes "hinv h" and "ctx_ok ctx h"
  shows "hinv (snd (callback_body cref ctx full h)) \<and> call_frame h (snd (callback_body cref ctx full h)) \<and>
    gauges (snd (callback_body cref ctx full h)) = gauges h \<and>
    length (notifs (snd (callback_body cref ctx full h))) = length (notifs h)"
proof (cases "(cref, ctx, full, h)" rule: callback_body.cases)
  case (1 cb ctx' full' h')
  let ?nf = "if hasCtx cb then ctx_notifier ctx else None"
  have nf: "n < length (notifs h) \<and> \<not> activated (notifs h ! n)" if "?nf = Some n" for n
    using that assms(2) by (auto simp: ctx_ok_def split: if_splits)
  have nf1: "n < length (notifs h)" if "?nf = Some n" for n using nf [OF that] by simp
  show ?thesis
    using runNotifOps_hinv [OF assms(1) nf1] runNotifOps_frame [OF nf] assms(1) 1
    by (simp only: callback_body_snd prod.inject) (simp split del: if_split split: if_split)
next
  case (2 ctx' subid h')
  obtain r h1 where u: "unsubscribe subid h = Some (r, h1)" "hinv h1" using unsubscribe_hinv [OF assms(1)] by blast
  then show ?thesis using 2 unsubscribe_frame [OF u(1)] by (simp split: prod.split)
qed (use assms(1) in simp_all)

lemma base_next_ok: "next_ok (base_next cref)"
  unfolding next_ok_def
proof (intro allI impI)
  fix ctx meth args h assume "hinv h" "ctx_ok ctx h"
  let ?b = "callback_body cref ctx (call_fullargs (cb_of cref) args) h"
  have "base_next cref ctx meth args h =
      Some (Some \<lparr>mr_Result = fst (call_result (cb_of cref) (fst ?b)), mr_Error = snd (call_result (cb_of cref) (fst ?b))\<rparr>, snd ?b)"
    by (simp add: base_next_def callback_call_def split: prod.split)
  then show "\<exists>r h'. base_next cref ctx meth args h = Some (Some r, h') \<and> hinv h' \<and> call_frame h h' \<and>
      gauges h' = gauges h \<and> length (notifs h') = length (notifs h)"
    using callback_body_ok [OF \<open>hinv h\<close> \<open>ctx_ok ctx h\<close>] by blast
qed

lemma wrap_middlewares_ok:
  "next_ok next \<Longrightarrow> \<forall>mw \<in> set mws. mw_ok mw \<Longrightarrow> next_ok (wrap_middlewares mws next)"
  by (induction mws) (auto simp: mw_ok_def Let_def)

lemma runMethod_ok:
  assumes "cfg_ok cfg" and "hinv h" and "ctx_ok ctx h"
  obtains resp h' where "runMethod cfg ctx msg cref args h = Some (resp, h')" "hinv h'" "call_frame h h'"
    "gauges h' = gauges h" "length (notifs h') = length (notifs h)" "ID resp = ID msg"
    "hasValidID msg \<Longrightarrow> isResponse resp"
proof -
  have "next_ok (wrap_middlewares (middlewares (hreg cfg)) (base_next cref))"
    using assms(1) wrap_middlewares_ok [OF base_next_ok] by (simp add: cfg_ok_def)
  from next_okD [OF this assms(2,3), of "Method msg" args] obtain r h' where
    r: "wrap_middlewares (middlewares (hreg cfg)) (base_next cref) ctx (Method msg) args h = Some (Some r, h')"
      "hinv h'" "call_frame h h'" "gauges h' = gauges h" "length (notifs h') = length (notifs h)" .
  show ?thesis
  proof (cases "mr_Error r")
    case None
    then show ?thesis using r by (intro that [of "response (huser cfg) msg (mr_Result r)" h'])
        (simp_all add: runMethod_def isResponse_response)
  next
    case (Some e)
    then show ?thesis using r by (intro that [of "errorResponse msg e" h'])
        (simp_all add: runMethod_def isResponse_errorResponse)
  qed
qed

section \<open>The call path keeps the invariant and answers\<close>

text \<open>The notifiers a call has collected: open, distinct and not active.\<close>

definition cp_ok :: "callProc \<Rightarrow> hstate \<Rightarrow> bool" where
  "cp_ok cp h \<longleftrightarrow>
     ctx_notifier (cp_ctx cp) = None \<and> open_notifs h (cp_notifiers cp) \<and>
     (\<forall>n \<in> set (cp_notifiers cp). \<not> activated (notifs h ! n))"

definition gauges_ok :: "hstate \<Rightarrow> bool" where
  "gauges_ok h \<longleftrightarrow> rpcRequestGauge h = successfulRequestGauge h + failedRequestGauge h"

lemma gauges_ok_cong: "gauges h' = gauges h \<Longrightarrow> gauges_ok h' = gauges_ok h"
  by (simp add: gauges_def gauges_ok_def)

lemma cp_ok_new [simp]: "cp_ok new_callProc h"
  by (simp add: cp_ok_def new_callProc_def open_notifs_def)

lemma cp_ok_frame: "cp_ok cp h \<Longrightarrow> call_frame h h' \<Longrightarrow> cp_ok cp h'"
  by (force simp: cp_ok_def open_notifs_def call_frame_def)

lemma cp_ok_ctx: "cp_ok cp h \<Longrightarrow> ctx_ok (cp_ctx cp) h"
  by (simp add: cp_ok_def ctx_ok_def)

text \<open>The outcome of a handler of the call path: a state with the invariant, the frame, a call
  record that fits it, counters that add up and a response with the id of the message.\<close>

definition answered :: "jsonrpcMessage \<Rightarrow> hstate \<Rightarrow> answer \<Rightarrow> bool" where
  "answered msg h r \<longleftrightarrow>
     (\<exists>resp cp' h'. r = Some (resp, cp', h') \<and> hinv h' \<and> call_frame h h' \<and> cp_ok cp' h' \<and>
        (gauges_ok h \<longrightarrow> gauges_ok h') \<and> ID resp = ID msg \<and> (hasValidID msg \<longrightarrow> isResponse resp))"

lemma answered_error: "hinv h \<Longrightarrow> cp_ok cp h \<Longrightarrow> answered msg h (Some (errorResponse msg err, cp, h))"
  by (simp add: answered_def isResponse_errorResponse)

lemma newNotifier_state:
  fixes ns
  assumes "hinv h" and "cp_ok cp h"
  defines "h1 \<equiv> h\<lparr>notifs := notifs h @ [newNotifier ns]\<rparr>"
  shows "hinv h1" and "call_frame h h1" and "gauges h1 = gauges h"
    and "cp_ok (cp\<lparr>cp_notifiers := cp_notifiers cp @ [length (notifs h)]\<rparr>) h1"
    and "ctx_ok (ctx\<lparr>ctx_notifier := Some (length (notifs h))\<rparr>) h1"
proof -
  have own: "owns_sub h1 i s \<longleftrightarrow> owns_sub h i s" for i s
    by (auto simp: owns_sub_def h1_def nth_append newNotifier_def)
  have old: "owns_sub h i s \<Longrightarrow> notifs h1 ! i = notifs h ! i" for i s
    by (simp add: owns_sub_def h1_def nth_append)
  have "sub_fresh h1 s = sub_fresh h s" for s by (simp add: sub_fresh_def h1_def)
  note f = this own
  show "hinv h1"
  proof (rule hinvI, unfold f)
    fix i assume "i < length (notifs h1)" "n_sub (notifs h1 ! i) = None"
    then show "n_buffer (notifs h1 ! i) = []"
      using hinvD(8) [OF assms(1), of i] by (auto simp: h1_def nth_append newNotifier_def less_Suc_eq split: if_splits)
  qed (use hinvD [OF assms(1)] old in \<open>auto simp: h1_def\<close>)
  show "call_frame h h1" "gauges h1 = gauges h" by (simp_all add: call_frame_def gauges_def h1_def nth_append)
  then have c: "cp_ok cp h1" using assms(2) cp_ok_frame by blast
  have "length (notifs h) \<notin> set (cp_notifiers cp)" using assms(2) by (auto simp: cp_ok_def open_notifs_def)
  then show "cp_ok (cp\<lparr>cp_notifiers := cp_notifiers cp @ [length (notifs h)]\<rparr>) h1"
    using c by (auto simp: cp_ok_def open_notifs_def h1_def newNotifier_def nth_append)
  show "ctx_ok (ctx\<lparr>ctx_notifier := Some (length (notifs h))\<rparr>) h1"
    by (simp add: ctx_ok_def h1_def newNotifier_def)
qed

lemma handleSubscribe_answered:
  assumes "cfg_ok cfg" and "hinv h" and "cp_ok cp h"
  shows "answered msg h (handleSubscribe cfg cp msg h)"
proof -
  have run: "answered msg h
      (case runMethod cfg ((cp_ctx cp)\<lparr>ctx_notifier := Some (length (notifs h))\<rparr>) msg (RegCb callb) args
              (h\<lparr>notifs := notifs h @ [newNotifier ns]\<rparr>) of
         None \<Rightarrow> None
       | Some (resp, h2) \<Rightarrow> Some (resp, cp\<lparr>cp_notifiers := cp_notifiers cp @ [length (notifs h)]\<rparr>, h2))" for callb args ns
  proof -
    let ?h1 = "h\<lparr>notifs := notifs h @ [newNotifier ns]\<rparr>"
    note n = newNotifier_state [OF assms(2,3), where ns = ns]
    from runMethod_ok [OF assms(1) n(1) n(5), of "cp_ctx cp" msg "RegCb callb" args] obtain resp h2 where
      r: "runMethod cfg ((cp_ctx cp)\<lparr>ctx_notifier := Some (length (notifs h))\<rparr>) msg (RegCb callb) args ?h1 = Some (resp, h2)"
        "hinv h2" "call_frame ?h1 h2" "gauges h2 = gauges ?h1" "ID resp = ID msg" "hasValidID msg \<Longrightarrow> isResponse resp" by blast
    have "gauges_ok h2 = gauges_ok h" using r(4) n(3) gauges_ok_cong by metis
    then show ?thesis
      using r n(2) cp_ok_frame [OF n(4) r(3)] call_frame_trans [OF n(2) r(3)] by (auto simp: answered_def)
  qed
  have args: "answered msg h
      (case parsePositionalArguments (huser cfg) (Params msg) (stringType # argTypes callb) of
         Inl err \<Rightarrow> Some (errorResponse msg (InvalidParamsError err), cp, h)
       | Inr args \<Rightarrow>
           (case runMethod cfg ((cp_ctx cp)\<lparr>ctx_notifier := Some (length (notifs h))\<rparr>) msg (RegCb callb) (tl args)
                   (h\<lparr>notifs := notifs h @ [newNotifier ns]\<rparr>) of
              None \<Rightarrow> None
            | Some (resp, h2) \<Rightarrow> Some (resp, cp\<lparr>cp_notifiers := cp_notifiers cp @ [length (notifs h)]\<rparr>, h2)))" for callb ns
    using run by (cases "parsePositionalArguments (huser cfg) (Params msg) (stringType # argTypes callb)")
      (simp_all add: assms answered_error)
  show ?thesis
  proof (cases "parseSubscriptionName (Params msg)")
    case (Inr name)
    then show ?thesis
      using args unfolding handleSubscribe_def Let_def
      by (cases "registry_subscription (hreg cfg) (namespace_of msg) name") (simp_all add: assms answered_error)
  qed (simp add: handleSubscribe_def assms answered_error)
qed

lemma count_request_fields [simp]:
  "hinv (count_request a h) = hinv h" "call_frame h0 (count_request a h) = call_frame h0 h"
  "cp_ok cp (count_request a h) = cp_ok cp h" "gauges_ok (count_request a h) = gauges_ok h"
  using hinv_cong [of "count_request a h" h]
  by (auto simp: count_request_def Let_def call_frame_def cp_ok_def open_notifs_def gauges_ok_def)

lemma handleCall_answered:
  assumes "cfg_ok cfg" and "hinv h" and "cp_ok cp h"
  shows "answered msg h (handleCall cfg cp msg h)"
proof -
  have run: "answered msg h
      (case runMethod cfg (cp_ctx cp) msg cref args h of
         None \<Rightarrow> None
       | Some (ans, h1) \<Rightarrow> Some (ans, cp, (if cref \<noteq> UnsubscribeCb then count_request ans h1 else h1)))" for cref args
  proof -
    from runMethod_ok [OF assms(1,2) cp_ok_ctx [OF assms(3)], of msg cref args] obtain resp h2 where
      r: "runMethod cfg (cp_ctx cp) msg cref args h = Some (resp, h2)"
        "hinv h2" "call_frame h h2" "gauges h2 = gauges h" "ID resp = ID msg" "hasValidID msg \<Longrightarrow> isResponse resp" by blast
    show ?thesis
      using r gauges_ok_cong [OF r(4)] cp_ok_frame [OF assms(3) r(3)] by (auto simp: answered_def)
  qed
  show ?thesis
  proof (cases "isSubscribe msg")
    case True
    then show ?thesis using handleSubscribe_answered [OF assms] by (simp add: handleCall_def)
  next
    case False
    have "answered msg h
       (case callb of
          None \<Rightarrow> Some (errorResponse msg (MethodNotFoundError (Method msg)), cp, h)
        | Some cref \<Rightarrow>
            (case parsePositionalArguments (huser cfg) (Params msg) (argTypes (cb_of cref)) of
               Inl err \<Rightarrow> Some (errorResponse msg (InvalidParamsError err), cp, h)
             | Inr args \<Rightarrow>
                 (case runMethod cfg (cp_ctx cp) msg cref args h of
                    None \<Rightarrow> None
                  | Some (ans, h1) \<Rightarrow>
                      Some (ans, cp, (if cref \<noteq> UnsubscribeCb then count_request ans h1 else h1)))))" for callb
    proof (cases callb)
      case None
      then show ?thesis using assms by (simp add: answered_error)
    next
      case (Some cref)
      show ?thesis
        using assms run [of cref]
        by (cases "parsePositionalArguments (huser cfg) (Params msg) (argTypes (cb_of cref))")
          (simp_all add: Some answered_error)
    qed
    then show ?thesis using False by (simp add: handleCall_def Let_def)
  qed
qed

text \<open>The outcome of handleCallMsg, as the callers use it.\<close>

definition msg_answered :: "jsonrpcMessage \<Rightarrow> jsonrpcMessage option \<Rightarrow> bool" where
  "msg_answered msg ans \<longleftrightarrow>
     (if isNotification msg then ans = None
      else \<exists>r. ans = Some r \<and> isResponse r \<and> ID r = (if hasValidID msg then ID msg else Some JNull) \<and>
               (\<not> isCall msg \<longrightarrow> Error r = Error (errorMessage (InvalidRequestError ''invalid request''))))"

lemma handleCallMsg_ok:
  assumes "cfg_ok cfg" and "hinv h" and "cp_ok cp h"
  obtains ans cp' h' where "handleCallMsg cfg cp msg h = Some (ans, cp', h')" "hinv h'" "call_frame h h'" "cp_ok cp' h'"
    "gauges_ok h \<Longrightarrow> gauges_ok h'" "msg_answered msg ans"
proof -
  obtain resp cp' h' where r: "handleCall cfg cp msg h = Some (resp, cp', h')" "hinv h'" "call_frame h h'" "cp_ok cp' h'"
    "gauges_ok h \<Longrightarrow> gauges_ok h'" "ID resp = ID msg" "hasValidID msg \<Longrightarrow> isResponse resp"
    using handleCall_answered [OF assms, of msg] by (auto simp: answered_def)
  consider "isNotification msg" | "\<not> isNotification msg" "isCall msg" | "\<not> isNotification msg" "\<not> isCall msg" by blast
  then show ?thesis
  proof cases
    case 1
    then show ?thesis using r by (intro that [of None cp' h']) (simp_all add: handleCallMsg_def msg_answered_def)
  next
    case 2
    then have "hasValidID msg" by (simp add: isCall_def)
    with 2 show ?thesis using r by (intro that [of "Some resp" cp' h']) (simp_all add: handleCallMsg_def msg_answered_def)
  next
    case 3
    then show ?thesis
      using assms isResponse_errorResponse [of msg] isResponse_errorMessage that
      by (cases "hasValidID msg") (auto simp: handleCallMsg_def msg_answered_def)
  qed
qed

section \<open>A single call\<close>

text \<open>
  handleNonBatchCall. When the context has a request timeout, the function of the timer runs
  concurrently with the call; the two share only the sync.Once and the connection. The schedule
  says when it runs: not at all, before the call's own use of the Once, or (it was already
  started when Stop was called) after the rest of the call.
\<close>

datatype timer_sched = TimerOff | TimerBefore | TimerAfter

definition timeout_error :: goerr where
  "timeout_error = InternalServerError errcodeTimeout errMsgTimeout"

definition handleNonBatchCall :: "handlercfg \<Rightarrow> timer_sched \<Rightarrow> jsonrpcMessage \<Rightarrow> hstate \<Rightarrow> hstate option" where
  "handleNonBatchCall cfg sched msg h =
     (let onTimeout = (\<lambda>h. snd (writeJSON (WMsg (errorResponse msg timeout_error)) True h));
          h0 = (if sched = TimerBefore then onTimeout h else h);
          responded = (sched = TimerBefore)
      in case handleCallMsg cfg new_callProc msg h0 of
           None \<Rightarrow> None
         | Some (answer, cp, h1) \<Rightarrow>
             (let h2 = addSubscriptions (cp_notifiers cp) h1;
                  h3 = (case answer of
                          Some a \<Rightarrow> (if responded then h2 else snd (writeJSON (WMsg a) False h2))
                        | None \<Rightarrow> h2);
                  responded' = (responded \<or> answer \<noteq> None)
              in case activateAll (cp_notifiers cp) h3 of
                   None \<Rightarrow> None
                 | Some h4 \<Rightarrow> Some (if sched = TimerAfter \<and> \<not> responded' then onTimeout h4 else h4)))"

text \<open>Entries of the write log that are notifications of a subscription.\<close>

definition is_notif_entry :: "write_entry \<Rightarrow> bool" where
  "is_notif_entry e = (case w_value e of WNotif _ \<Rightarrow> True | _ \<Rightarrow> False)"

definition notif_suffix :: "hstate \<Rightarrow> hstate \<Rightarrow> bool" where
  "notif_suffix h h' \<longleftrightarrow> (\<exists>es. wlog h' = wlog h @ es \<and> list_all is_notif_entry es)"

lemma notif_suffix_refl [simp]: "notif_suffix h h"
  by (simp add: notif_suffix_def)

lemma notif_suffix_trans: "notif_suffix a b \<Longrightarrow> notif_suffix b c \<Longrightarrow> notif_suffix a c"
  by (auto simp: notif_suffix_def)

lemma writeJSON_wlog:
  "wlog (snd (writeJSON v e h)) = wlog h @ [\<lparr>w_value = v, w_isError = e, w_err = fst (writeJSON v e h)\<rparr>]"
  by (simp add: writeJSON_def Let_def)

lemma sendAll_suffix: "notif_suffix h (snd (sendAll n s ds h))"
proof (induction ds arbitrary: h)
  case (Cons d ds)
  have one: "notif_suffix h (snd (notifier_send n s d h))"
    by (simp add: notifier_send_def notif_suffix_def writeJSON_wlog is_notif_entry_def)
  obtain e h1 where h1: "notifier_send n s d h = (e, h1)" by fastforce
  then show ?case using one Cons.IH [of h1] notif_suffix_trans [of h h1] by (simp split: option.split)
qed simp

lemma activateAll_suffix: "activateAll nn h = Some h' \<Longrightarrow> notif_suffix h h'"
proof (induction nn arbitrary: h)
  case (Cons n nn)
  then obtain e h1 where a: "activate n h = Some (e, h1)" "activateAll nn h1 = Some h'"
    by (auto simp: bind_eq_Some_conv)
  have "notif_suffix h h1"
  proof (cases "n_sub (notifs h ! n)")
    case None
    then show ?thesis using a(1) by (auto simp: activate_def notif_suffix_def split: if_splits)
  next
    case (Some s)
    let ?h2 = "snd (sendAll n s (n_buffer (notifs h ! n)) h)"
    have "h1 = ?h2 \<or> h1 = upd_notif n (\<lambda>x. x\<lparr>activated := True\<rparr>) ?h2"
      using a(1) Some by (auto simp: activate_def split: prod.splits option.splits)
    then show ?thesis using sendAll_suffix [of h n s "n_buffer (notifs h ! n)"] by (auto simp: notif_suffix_def)
  qed
  then show ?case using Cons.IH [OF a(2)] notif_suffix_trans by blast
qed simp

text \<open>Registering, answering and activating at the end of a call.\<close>

lemma finish_call:
  assumes "hinv h" and "cp_ok cp h" and "hinv h3 = hinv (addSubscriptions (cp_notifiers cp) h)"
    and "length (notifs h3) = length (notifs h)"
  obtains h4 where "activateAll (cp_notifiers cp) h3 = Some h4" "hinv h4" "notif_suffix h3 h4"
proof -
  have "hinv h3" using assms(1-3) addSubscriptions_hinv [of h "cp_notifiers cp"] by (simp add: cp_ok_def)
  moreover have "\<forall>n \<in> set (cp_notifiers cp). n < length (notifs h3)"
    using assms(2,4) by (simp add: cp_ok_def open_notifs_def)
  ultimately show ?thesis using activateAll_hinv [of h3] activateAll_suffix that by blast
qed

lemma handleNonBatchCall_ok:
  assumes "cfg_ok cfg" and "hinv h"
  obtains ans h' where "handleNonBatchCall cfg sched msg h = Some h'" "hinv h'" "msg_answered msg ans"
    "sched = TimerBefore \<Longrightarrow> notif_suffix (snd (writeJSON (WMsg (errorResponse msg timeout_error)) True h)) h'"
    "\<And>a. ans = Some a \<Longrightarrow> sched \<noteq> TimerBefore \<Longrightarrow>
       \<exists>e. w_value e = WMsg a \<and> notif_suffix (h\<lparr>wlog := wlog h @ [e]\<rparr>) h'"
    "ans = None \<Longrightarrow> sched = TimerOff \<Longrightarrow> notif_suffix h h'"
proof -
  let ?t = "\<lambda>h. snd (writeJSON (WMsg (errorResponse msg timeout_error)) True h)"
  define h0 where "h0 = (if sched = TimerBefore then ?t h else h)"
  have "hinv h0" using assms(2) by (simp add: h0_def)
  from handleCallMsg_ok [OF assms(1) this cp_ok_new, of msg] obtain ans cp h1 where
    c: "handleCallMsg cfg new_callProc msg h0 = Some (ans, cp, h1)" "hinv h1" "call_frame h0 h1" "cp_ok cp h1" "msg_answered msg ans"
    by blast
  let ?h2 = "addSubscriptions (cp_notifiers cp) h1"
  define h3 where "h3 = (case ans of Some a \<Rightarrow> (if sched = TimerBefore then ?h2 else snd (writeJSON (WMsg a) False ?h2)) | None \<Rightarrow> ?h2)"
  have "hinv h3 = hinv ?h2" "length (notifs h3) = length (notifs h1)" by (simp_all add: h3_def split: option.split)
  from finish_call [OF c(2,4) this] obtain h4 where
    a: "activateAll (cp_notifiers cp) h3 = Some h4" "hinv h4" "notif_suffix h3 h4" .
  let ?h' = "if sched = TimerAfter \<and> ans = None then ?t h4 else h4"
  have run: "handleNonBatchCall cfg sched msg h = Some ?h'"
    using c(1) a(1) by (auto simp: handleNonBatchCall_def Let_def h0_def h3_def cong: option.case_cong)
  have w: "wlog ?h2 = wlog h0" using call_frameD(1) [OF c(3)] by simp
  show ?thesis
  proof (rule that [OF run])
    show "notif_suffix (?t h) ?h'" if "sched = TimerBefore"
      using that a(3) w by (cases ans) (simp_all add: h3_def h0_def notif_suffix_def)
    show "\<exists>e. w_value e = WMsg a \<and> notif_suffix (h\<lparr>wlog := wlog h @ [e]\<rparr>) ?h'" if "ans = Some a" "sched \<noteq> TimerBefore" for a
      using that a(3) w by (intro exI [of _ "\<lparr>w_value = WMsg a, w_isError = False, w_err = fst (writeJSON (WMsg a) False ?h2)\<rparr>"])
        (simp add: h3_def h0_def notif_suffix_def writeJSON_wlog)
    show "notif_suffix h ?h'" if "ans = None" "sched = TimerOff"
      using that a(3) w by (simp add: h3_def h0_def notif_suffix_def)
  qed (use a(2) c(5) in simp_all)
qed

section \<open>Middlewares\<close>

text \<open>A middleware that changes the arguments on the way in and the result on the way out.\<close>

definition around :: "(goval list \<Rightarrow> goval list) \<Rightarrow> (MethodResult \<Rightarrow> MethodResult) \<Rightarrow> middleware" where
  "around f g ctx meth args next h =
     (case next ctx meth (f args) h of
        Some (Some r, h') \<Rightarrow> Some (Some (g r), h')
      | other \<Rightarrow> other)"

lemma around_ok: "mw_ok (around f g)"
proof (unfold mw_ok_def, intro allI impI)
  fix nxt assume nxt: "next_ok nxt"
  show "next_ok (\<lambda>ctx meth args. around f g ctx meth args nxt)"
  proof (unfold next_ok_def, intro allI impI)
  fix ctx meth args h assume n: "hinv h" "ctx_ok ctx h"
  obtain r h' where "nxt ctx meth (f args) h = Some (Some r, h')" "hinv h'" "call_frame h h'"
    "gauges h' = gauges h" "length (notifs h') = length (notifs h)"
    by (rule next_okD [OF nxt n])
  then show "\<exists>r h'. around f g ctx meth args nxt h = Some (Some r, h') \<and> hinv h' \<and> call_frame h h' \<and>
      gauges h' = gauges h \<and> length (notifs h') = length (notifs h)"
    by (simp add: around_def)
  qed
qed

lemma wrap_around:
  assumes "nxt ctx meth (fold (\<lambda>fg. fst fg) fgs args) h = Some (Some r, h')"
  shows "wrap_middlewares (map (\<lambda>fg. around (fst fg) (snd fg)) fgs) nxt ctx meth args h =
    Some (Some (foldr (\<lambda>fg. snd fg) fgs r), h')"
  using assms by (induction fgs arbitrary: args) (simp_all add: around_def Let_def)

section \<open>A subscription call\<close>

lemma runNotifOps_notify:
  assumes "n < length (notifs h)" "n_sub (notifs h ! n) = Some s" "\<not> activated (notifs h ! n)"
  shows "runNotifOps (Some n) (map (NotifyOp None) ds) h = (False, upd_notif n (\<lambda>x. x\<lparr>n_buffer := n_buffer x @ ds\<rparr>) h)"
  using assms
proof (induction ds arbitrary: h)
  case Nil
  then show ?case by (simp add: upd_notif_def)
next
  case (Cons d ds)
  let ?h1 = "upd_notif n (\<lambda>x. x\<lparr>n_buffer := n_buffer x @ [d]\<rparr>) h"
  have "Notify n (sub_ID (srvSubs h ! s)) d h = Some (None, ?h1)"
    using Cons.prems by (simp add: Notify_def)
  moreover have "upd_notif n (\<lambda>x. x\<lparr>n_buffer := n_buffer x @ ds\<rparr>) ?h1 =
      upd_notif n (\<lambda>x. x\<lparr>n_buffer := n_buffer x @ d # ds\<rparr>) h"
    using Cons.prems(1) by (simp add: upd_notif_def)
  ultimately show ?case
    using Cons.prems Cons.IH [of ?h1] by (simp add: upd_notif_nth)
qed

text \<open>The state after a subscription method created its subscription and sent some values.\<close>

definition subscribed :: "string \<Rightarrow> goval list \<Rightarrow> hstate \<Rightarrow> hstate" where
  "subscribed ns ds h =
     h\<lparr>notifs := notifs h @ [\<lparr>n_namespace = ns, n_sub = Some (length (srvSubs h)), n_buffer = ds,
                             callReturned = False, activated = False\<rparr>],
       srvSubs := srvSubs h @ [\<lparr>sub_ID = idgen h (idnext h), sub_namespace = ns, sub_err = make_chan 1\<rparr>],
       idnext := Suc (idnext h)\<rparr>"

lemma runNotifOps_subscribe:
  "runNotifOps (Some (length (notifs h))) (CreateSubscriptionOp # map (NotifyOp None) ds)
     (h\<lparr>notifs := notifs h @ [newNotifier ns]\<rparr>) = (False, subscribed ns ds h)"
proof -
  let ?n = "length (notifs h)"
  let ?h1 = "h\<lparr>notifs := notifs h @ [newNotifier ns]\<rparr>"
  have "CreateSubscription ?n ?h1 = Some (length (srvSubs h), subscribed ns [] h)"
    by (simp add: CreateSubscription_def newNotifier_def subscribed_def upd_notif_def Let_def)
  moreover have "runNotifOps (Some ?n) (map (NotifyOp None) ds) (subscribed ns [] h) = (False, subscribed ns ds h)"
    by (subst runNotifOps_notify) (simp_all add: subscribed_def upd_notif_def)
  ultimately show ?thesis by simp
qed

text \<open>A subscription method: it creates its subscription, sends some values and returns it.\<close>

definition subscription_method :: "callback \<Rightarrow> goval list \<Rightarrow> goval list \<Rightarrow> bool" where
  "subscription_method cb args ds \<longleftrightarrow>
     hasCtx cb \<and> errPos cb = 1 \<and> length (call_fullargs cb args) = length (ins (fn cb)) \<and>
     body (fn cb) (call_fullargs cb args) = (CreateSubscriptionOp # map (NotifyOp None) ds, Returned [ROwnSub, RErr None])"

lemma base_next_subscribe:
  assumes "subscription_method cb args ds"
  shows "base_next (RegCb cb) (ctx\<lparr>ctx_notifier := Some (length (notifs h))\<rparr>) meth args (h\<lparr>notifs := notifs h @ [newNotifier ns]\<rparr>) =
    Some (Some \<lparr>mr_Result = GoSub (idgen h (idnext h)), mr_Error = None\<rparr>, subscribed ns ds h)"
  using assms runNotifOps_subscribe [of h ds ns]
  by (simp add: subscription_method_def base_next_def callback_call_def Let_def resolve_def resolve_ret_def call_result_def
      ret_interface_def subscribed_def)

lemma handleCallMsg_subscribe:
  assumes "middlewares (hreg cfg) = []" and "allowSubscribe h" and "isCall msg" and "isSubscribe msg"
    and "parseSubscriptionName (Params msg) = Inr name"
    and "registry_subscription (hreg cfg) (namespace_of msg) name = Some cb"
    and "parsePositionalArguments (huser cfg) (Params msg) (stringType # argTypes cb) = Inr args"
    and "subscription_method cb (tl args) ds"
  shows "handleCallMsg cfg new_callProc msg h =
    Some (Some (response (huser cfg) msg (GoSub (idgen h (idnext h)))),
          new_callProc\<lparr>cp_notifiers := [length (notifs h)]\<rparr>, subscribed (namespace_of msg) ds h)"
  using assms base_next_subscribe [OF assms(8), where ctx = "cp_ctx new_callProc" and h = h and meth = "Method msg" and ns = "namespace_of msg"]
  by (simp add: handleCallMsg_def handleCall_def handleSubscribe_def runMethod_def Let_def)
    (simp add: new_callProc_def)

text \<open>A subscription call from its message to what it writes.\<close>

lemma subscribe_call_ok:
  assumes "middlewares (hreg cfg) = []" and "hinv h" and "writes_ok h" and "allowSubscribe h"
    and "isCall msg" and "isSubscribe msg"
    and "parseSubscriptionName (Params msg) = Inr name"
    and "registry_subscription (hreg cfg) (namespace_of msg) name = Some cb"
    and "parsePositionalArguments (huser cfg) (Params msg) (stringType # argTypes cb) = Inr args"
    and "subscription_method cb (tl args) ds"
  shows "\<exists>h'. handleNonBatchCall cfg TimerOff msg h = Some h' \<and> hinv h' \<and>
    map_get (serverSubs h') (idgen h (idnext h)) = Some (length (srvSubs h)) \<and>
    wlog h' = wlog h @
      \<lparr>w_value = WMsg (response (huser cfg) msg (GoSub (idgen h (idnext h)))), w_isError = False, w_err = None\<rparr> #
      map (notif_entry (namespace_of msg) (idgen h (idnext h))) ds"
proof -
  let ?ns = "namespace_of msg" and ?id = "idgen h (idnext h)" and ?n = "length (notifs h)" and ?s = "length (srvSubs h)"
  let ?resp = "response (huser cfg) msg (GoSub ?id)"
  let ?h1 = "subscribed ?ns ds h"
  have cfg: "cfg_ok cfg" using assms(1) by (simp add: cfg_ok_def)
  note c = handleCallMsg_subscribe [OF assms(1,4-10)]
  let ?h2 = "take_register ?n ?h1"
  have h2: "addSubscriptions [?n] ?h1 = ?h2" by (simp add: addSubscriptions_Cons)
  have f2: "wlog ?h2 = wlog h" "wplan ?h2 = wplan h" "srvSubs ?h2 = srvSubs ?h1"
    "n_sub (notifs ?h2 ! ?n) = Some ?s" "n_buffer (notifs ?h2 ! ?n) = ds" "n_namespace (notifs ?h2 ! ?n) = ?ns"
    "serverSubs ?h2 = map_set ?id ?s (serverSubs h)"
    by (simp_all add: take_register_notifs subscribed_def)
      (simp add: take_register_def takeSubscription_def upd_notif_def)
  let ?h3 = "snd (writeJSON (WMsg ?resp) False ?h2)"
  have ok2: "writes_ok ?h2" using assms(3) f2(2) by (simp add: writes_ok_def)
  have h3: "wlog ?h3 = wlog h @ [\<lparr>w_value = WMsg ?resp, w_isError = False, w_err = None\<rparr>]" "writes_ok ?h3"
    using writeJSON_ok [OF ok2] writes_ok_tl [OF ok2] f2(1) by (auto simp: writes_ok_def)
  note s3 = sendAll_ok [OF h3(2), of ?n ?s ds]
  let ?h4 = "snd (sendAll ?n ?s ds ?h3)"
  have id: "sub_ID (srvSubs ?h3 ! ?s) = ?id" using f2(3) by (simp add: subscribed_def)
  have act: "activateAll [?n] ?h3 = Some (upd_notif ?n (\<lambda>x. x\<lparr>activated := True\<rparr>) ?h4)"
    using s3 f2(4,5) by (cases "sendAll ?n ?s ds ?h3") (simp add: activate_def)
  then have run: "handleNonBatchCall cfg TimerOff msg h = Some (upd_notif ?n (\<lambda>x. x\<lparr>activated := True\<rparr>) ?h4)"
    using c h2 by (simp add: handleNonBatchCall_def Let_def new_callProc_def)
  obtain h' where h': "handleNonBatchCall cfg TimerOff msg h = Some h'" "hinv h'"
    using handleNonBatchCall_ok [OF cfg assms(2), of TimerOff msg] by blast
  have "h' = upd_notif ?n (\<lambda>x. x\<lparr>activated := True\<rparr>) ?h4" using run h'(1) by simp
  then have "wlog h' = wlog ?h3 @ map (notif_entry ?ns ?id) ds" "serverSubs h' = map_set ?id ?s (serverSubs h)"
    using s3 id f2(6,7) by simp_all
  then show ?thesis using h' h3(1) by (intro exI [of _ h']) (simp add: map_get_set)
qed

section \<open>An example configuration\<close>

text \<open>A service calc with the method Add of Rpc_Service and a subscription Ticks, for the
  witnesses.\<close>

definition ticks_callback :: callback where
  "ticks_callback =
     \<lparr>fn = \<lparr>ins = [TOther 0 False, TContext], outs = [TPtr TSubscription False, TError],
           body = (\<lambda>_. ([CreateSubscriptionOp, NotifyOp None (GoBool True)], Returned [ROwnSub, RErr None]))\<rparr>,
      rcvr = True, argTypes = [], hasCtx = True, errPos = 1, isSubscribeCb = True\<rparr>"

definition demo_cfg :: handlercfg where
  "demo_cfg =
     \<lparr>hreg = \<lparr>services = [(''calc'', \<lparr>service_name = ''calc'', callbacks = [(''add'', calc_callback)],
                                     subscriptions = [(''ticks'', ticks_callback)]\<rparr>)], middlewares = []\<rparr>,
      huser = \<lparr>user_marshal = (\<lambda>_. Inl ''unsupported type''), user_unmarshal = (\<lambda>_ _. Inl ''unsupported type'')\<rparr>,
      batchRequestLimit = 0, batchResponseMaxSize = 0\<rparr>"

definition demo_msg :: "raw_message \<Rightarrow> string \<Rightarrow> string \<Rightarrow> jsonrpcMessage" where
  "demo_msg i meth arg =
     \<lparr>Version = ''2.0'', ID = i, Method = meth, Params = Some (JArr ''['' [JStr (quote_string arg)]), Error = None, Result = None\<rparr>"

definition demo_state :: hstate where
  "demo_state = new_hstate (\<lambda>n. ''0x'' @ dec_digits n) []"

lemma demo_ok [simp]: "cfg_ok demo_cfg" "hinv demo_state" "writes_ok demo_state" "allowSubscribe demo_state"
  by (simp_all add: cfg_ok_def demo_cfg_def demo_state_def writes_ok_def new_hstate_def hinv_new [unfolded new_hstate_def])

lemma demo_msg_class [simp]:
  "isCall (demo_msg (Some (JNum ''1'')) ''calc_add'' a)" "isCall (demo_msg (Some (JNum ''1'')) ''calc_subscribe'' a)"
  "isNotification (demo_msg None ''calc_add'' a)"
  by (simp_all add: demo_msg_def isCall_def isNotification_def hasValidVersion_def vsn_def hasValidID_def raw_string_def)

lemma demo_wlog: "wlog demo_state = []" "length (srvSubs demo_state) = 0"
  by (simp_all add: demo_state_def new_hstate_def)

lemma demo_msg_ID [simp]: "ID (demo_msg i meth a) = i"
  by (simp add: demo_msg_def)

section \<open>Properties\<close>

text \<open>C15. handleCallMsg never crashes when the middlewares return, keeps the invariant of the
  subscription tables and writes nothing itself. A notification gets no answer; a call gets a
  response with its own id; any other message gets an "invalid request" error with its id, or with
  a null id when it has none that is valid.\<close>

theorem handleCallMsg_answers:
  assumes "cfg_ok cfg" and "hinv h" and "cp_ok cp h"
  shows "\<exists>ans cp' h'. handleCallMsg cfg cp msg h = Some (ans, cp', h') \<and> hinv h' \<and> cp_ok cp' h' \<and> wlog h' = wlog h \<and>
    (isNotification msg \<longrightarrow> ans = None) \<and>
    (isCall msg \<longrightarrow> (\<exists>r. ans = Some r \<and> isResponse r \<and> ID r = ID msg)) \<and>
    (\<not> isNotification msg \<and> \<not> isCall msg \<longrightarrow>
       (\<exists>r e. ans = Some r \<and> isResponse r \<and> ID r = (if hasValidID msg then ID msg else Some JNull) \<and>
              Error r = Some e \<and> Code e = -32600))"
proof -
  from handleCallMsg_ok [OF assms, of msg] obtain ans cp' h' where
    r: "handleCallMsg cfg cp msg h = Some (ans, cp', h')" "hinv h'" "call_frame h h'" "cp_ok cp' h'" "msg_answered msg ans"
    by blast
  have "isCall msg \<Longrightarrow> hasValidID msg" by (simp add: isCall_def)
  then show ?thesis
    using r call_frameD(1) [OF r(3)] by (auto simp: msg_answered_def errorMessage_Error)
qed

theorem handleCallMsg_answers_witness:
  "isCall (demo_msg (Some (JNum ''1'')) ''calc_add'' ''x'') \<and>
   (\<exists>r cp' h'. handleCallMsg demo_cfg new_callProc (demo_msg (Some (JNum ''1'')) ''calc_add'' ''x'') demo_state =
      Some (Some r, cp', h') \<and> isResponse r \<and> ID r = Some (JNum ''1''))"
  using handleCallMsg_answers [of demo_cfg demo_state new_callProc "demo_msg (Some (JNum ''1'')) ''calc_add'' ''x''"]
  by auto

text \<open>The counters of metrics.go add up: if the number of requests is the number of successful
  ones plus the number of failed ones, it is so again after every message.\<close>

theorem request_counters_add_up:
  assumes "cfg_ok cfg" and "hinv h" and "cp_ok cp h"
    and "rpcRequestGauge h = successfulRequestGauge h + failedRequestGauge h"
  shows "\<exists>ans cp' h'. handleCallMsg cfg cp msg h = Some (ans, cp', h') \<and>
    rpcRequestGauge h' = successfulRequestGauge h' + failedRequestGauge h'"
proof -
  from handleCallMsg_ok [OF assms(1-3), of msg] obtain ans cp' h' where
    "handleCallMsg cfg cp msg h = Some (ans, cp', h')" "gauges_ok h \<Longrightarrow> gauges_ok h'" by blast
  then show ?thesis using assms(4) by (auto simp: gauges_ok_def)
qed

theorem request_counters_add_up_witness:
  "\<exists>ans cp' h'. handleCallMsg demo_cfg new_callProc (demo_msg (Some (JNum ''1'')) ''calc_add'' ''x'') demo_state = Some (ans, cp', h') \<and>
    rpcRequestGauge h' = successfulRequestGauge h' + failedRequestGauge h'"
  by (rule request_counters_add_up) (simp_all, simp add: demo_state_def new_hstate_def)

text \<open>C10. A call that is not in a batch is answered exactly once, whether its timer fires before the
  answer, after it or not at all: the connection gets one response with the id of the call, which is the
  timeout error exactly when the timer came first, and after it only notifications of the
  subscription the call created.\<close>

theorem handleNonBatchCall_one_response:
  assumes "cfg_ok cfg" and "hinv h" and "isCall msg"
  shows "\<exists>h' e r es. handleNonBatchCall cfg sched msg h = Some h' \<and> hinv h' \<and> wlog h' = wlog h @ e # es \<and>
    w_value e = WMsg r \<and> isResponse r \<and> ID r = ID msg \<and>
    (sched = TimerBefore \<longrightarrow> r = errorResponse msg timeout_error) \<and> list_all is_notif_entry es"
proof -
  have v: "hasValidID msg" "\<not> isNotification msg" using assms(3) by (simp_all add: isCall_def isNotification_def hasValidID_def raw_string_def split: option.splits)
  from handleNonBatchCall_ok [OF assms(1,2), of sched msg] obtain ans h' where
    r: "handleNonBatchCall cfg sched msg h = Some h'" "hinv h'" "msg_answered msg ans"
      "sched = TimerBefore \<Longrightarrow> notif_suffix (snd (writeJSON (WMsg (errorResponse msg timeout_error)) True h)) h'"
      "\<And>a. ans = Some a \<Longrightarrow> sched \<noteq> TimerBefore \<Longrightarrow>
         \<exists>e. w_value e = WMsg a \<and> notif_suffix (h\<lparr>wlog := wlog h @ [e]\<rparr>) h'" by blast
  show ?thesis
  proof (cases "sched = TimerBefore")
    case True
    with r(4) obtain es where "wlog h' = wlog h @ \<lparr>w_value = WMsg (errorResponse msg timeout_error), w_isError = True,
        w_err = fst (writeJSON (WMsg (errorResponse msg timeout_error)) True h)\<rparr> # es" "list_all is_notif_entry es"
      by (auto simp: notif_suffix_def writeJSON_wlog)
    then show ?thesis using r(1,2) isResponse_errorResponse [OF v(1)] by fastforce
  next
    case False
    obtain a where a: "ans = Some a" "isResponse a" "ID a = ID msg" using r(3) v by (auto simp: msg_answered_def)
    with r(5) False obtain e es where "w_value e = WMsg a" "wlog h' = wlog h @ e # es" "list_all is_notif_entry es"
      by (fastforce simp: notif_suffix_def)
    then show ?thesis using r(1,2) a False by blast
  qed
qed

theorem handleNonBatchCall_one_response_witness:
  "\<exists>h' e r es. handleNonBatchCall demo_cfg TimerAfter (demo_msg (Some (JNum ''1'')) ''calc_add'' ''x'') demo_state = Some h' \<and>
    wlog h' = e # es \<and> w_value e = WMsg r \<and> isResponse r \<and> ID r = Some (JNum ''1'') \<and> list_all is_notif_entry es"
  using handleNonBatchCall_one_response [of demo_cfg demo_state "demo_msg (Some (JNum ''1'')) ''calc_add'' ''x''" TimerAfter]
  by (auto simp: demo_wlog)

text \<open>A notification must not be answered, and it is not as long as no timeout is involved; but when
  the timer of a single notification fires first, an error response without an id is written for
  it.\<close>

theorem notification_answered_on_timeout:
  assumes "cfg_ok cfg" and "hinv h" and "isNotification msg"
  shows "(\<exists>h' es. handleNonBatchCall cfg TimerOff msg h = Some h' \<and> wlog h' = wlog h @ es \<and> list_all is_notif_entry es) \<and>
    (\<exists>h' e r es. handleNonBatchCall cfg TimerBefore msg h = Some h' \<and> wlog h' = wlog h @ e # es \<and>
       w_value e = WMsg r \<and> ID r = None \<and> Error r \<noteq> None)"
proof -
  from handleNonBatchCall_ok [OF assms(1,2), of TimerOff msg] obtain ans h' where
    "handleNonBatchCall cfg TimerOff msg h = Some h'" "msg_answered msg ans" "ans = None \<Longrightarrow> notif_suffix h h'" by blast
  then have off: "\<exists>h' es. handleNonBatchCall cfg TimerOff msg h = Some h' \<and> wlog h' = wlog h @ es \<and> list_all is_notif_entry es"
    using assms(3) by (auto simp: msg_answered_def notif_suffix_def)
  from handleNonBatchCall_ok [OF assms(1,2), of TimerBefore msg] obtain h2 where
    h2: "handleNonBatchCall cfg TimerBefore msg h = Some h2"
      "notif_suffix (snd (writeJSON (WMsg (errorResponse msg timeout_error)) True h)) h2" by blast
  then obtain es where "wlog h2 = wlog h @ \<lparr>w_value = WMsg (errorResponse msg timeout_error), w_isError = True,
        w_err = fst (writeJSON (WMsg (errorResponse msg timeout_error)) True h)\<rparr> # es"
    by (auto simp: notif_suffix_def writeJSON_wlog)
  moreover have "Error (errorResponse msg timeout_error) \<noteq> None" by (simp add: errorMessage_Error)
  ultimately show ?thesis using off h2(1) assms(3) by fastforce
qed

theorem notification_answered_on_timeout_witness:
  "isNotification (demo_msg None ''calc_add'' ''x'') \<and>
   (\<exists>h' e r es. handleNonBatchCall demo_cfg TimerBefore (demo_msg None ''calc_add'' ''x'') demo_state = Some h' \<and>
      wlog h' = e # es \<and> w_value e = WMsg r \<and> ID r = None \<and> Error r \<noteq> None)"
  using notification_answered_on_timeout [of demo_cfg demo_state "demo_msg None ''calc_add'' ''x''"]
  by (auto simp: demo_wlog)

text \<open>Middlewares nest in the order of the list: the first one sees the arguments of the message
  and has the last word on the result, the callback sees the arguments after all of them.\<close>

theorem middlewares_nest:
  assumes "middlewares (hreg cfg) = map (\<lambda>fg. around (fst fg) (snd fg)) fgs"
    and "callback_call cref ctx (fold (\<lambda>fg. fst fg) fgs args) h = ((res, err), h')"
  shows "runMethod cfg ctx msg cref args h =
    (let r = foldr (\<lambda>fg. snd fg) fgs \<lparr>mr_Result = res, mr_Error = err\<rparr>
     in Some (case mr_Error r of Some e \<Rightarrow> errorResponse msg e | None \<Rightarrow> response (huser cfg) msg (mr_Result r), h'))"
proof -
  have "base_next cref ctx (Method msg) (fold (\<lambda>fg. fst fg) fgs args) h = Some (Some \<lparr>mr_Result = res, mr_Error = err\<rparr>, h')"
    using assms(2) by (simp add: base_next_def)
  from wrap_around [where nxt = "base_next cref", OF this] show ?thesis
    using assms(1) by (simp add: runMethod_def Let_def split: option.split)
qed

theorem middlewares_nest_witness:
  "runMethod (demo_cfg\<lparr>hreg := (hreg demo_cfg)\<lparr>middlewares := [around (\<lambda>a. a) (\<lambda>r. r\<lparr>mr_Result := GoNil\<rparr>)]\<rparr>\<rparr>)
     (cp_ctx new_callProc) (demo_msg (Some (JNum ''1'')) ''calc_add'' ''x'') (RegCb calc_callback) [GoStr ''x''] demo_state =
   Some (response (huser demo_cfg) (demo_msg (Some (JNum ''1'')) ''calc_add'' ''x'') GoNil, demo_state)"
proof -
  have c: "callback_call (RegCb calc_callback) (cp_ctx new_callProc) (fold (\<lambda>fg. fst fg) [(\<lambda>a. a, \<lambda>r. r\<lparr>mr_Result := GoNil\<rparr>)] [GoStr ''x'']) demo_state =
      ((GoStr ''ok'', None), demo_state)"
    by (simp add: callback_call_def calc_callback_def calc_add_def call_fullargs_def resolve_def resolve_ret_def call_result_def
        ret_interface_def Let_def)
  show ?thesis
    by (subst middlewares_nest [OF _ c]) simp_all
qed

text \<open>C25. A subscription call registers the subscription under the id the generator gave, and the
  connection gets the response with that id before the values the method sent, which follow in
  order; nothing else is written.\<close>

theorem subscribe_call_correct:
  assumes "middlewares (hreg cfg) = []" and "hinv h" and "writes_ok h" and "allowSubscribe h"
    and "isCall msg" and "isSubscribe msg"
    and "parseSubscriptionName (Params msg) = Inr name"
    and "registry_subscription (hreg cfg) (namespace_of msg) name = Some cb"
    and "parsePositionalArguments (huser cfg) (Params msg) (stringType # argTypes cb) = Inr args"
    and "subscription_method cb (tl args) ds"
  shows "\<exists>h'. handleNonBatchCall cfg TimerOff msg h = Some h' \<and> hinv h' \<and>
    map_get (serverSubs h') (idgen h (idnext h)) = Some (length (srvSubs h)) \<and>
    wlog h' = wlog h @
      \<lparr>w_value = WMsg (response (huser cfg) msg (GoSub (idgen h (idnext h)))), w_isError = False, w_err = None\<rparr> #
      map (notif_entry (namespace_of msg) (idgen h (idnext h))) ds"
  using subscribe_call_ok [OF assms] .

theorem subscribe_call_correct_witness:
  "\<exists>h'. handleNonBatchCall demo_cfg TimerOff (demo_msg (Some (JNum ''1'')) ''calc_subscribe'' ''ticks'') demo_state = Some h' \<and>
    map_get (serverSubs h') (''0x'' @ dec_digits 0) = Some 0 \<and>
    length (wlog h') = 2"
proof -
  let ?m = "demo_msg (Some (JNum ''1'')) ''calc_subscribe'' ''ticks''"
  have a: "ascii ''ticks''" by code_simp
  have ns: "namespace_of ?m = ''calc''" by code_simp
  have m: "middlewares (hreg demo_cfg) = []" by (simp add: demo_cfg_def)
  have s: "isSubscribe ?m" by code_simp
  have n: "parseSubscriptionName (Params ?m) = Inr ''ticks''"
    using a by (simp add: demo_msg_def parseSubscriptionName_def)
  have r: "registry_subscription (hreg demo_cfg) (namespace_of ?m) ''ticks'' = Some ticks_callback"
    by (simp add: ns demo_cfg_def registry_subscription_def)
  have p: "parsePositionalArguments (huser demo_cfg) (Params ?m) (stringType # argTypes ticks_callback) = Inr [GoStr ''ticks'']"
    using a by (simp add: parsePositionalArguments_def demo_msg_def ticks_callback_def stringType_def json_Unmarshal_def argval_IsNil_def)
  have b: "subscription_method ticks_callback (tl [GoStr ''ticks'']) [GoBool True]"
    by (simp add: subscription_method_def ticks_callback_def call_fullargs_def)
  from subscribe_call_correct [OF m demo_ok(2-4) demo_msg_class(2) s n r p b] show ?thesis
    by (auto simp: demo_wlog) (auto simp: demo_state_def new_hstate_def)
qed

text \<open>limitedBuffer is meant to hold at most its limit, but the room it computes is the maximum of
  the limit and the current length instead of their difference, so two writes that are each shorter
  than the limit are both kept in full, beyond the limit, and without an error. A single write is
  cut correctly.\<close>

theorem limitedBuffer_exceeds_limit:
  "(\<forall>n d1 d2. length d1 < n \<longrightarrow> length d2 < n \<longrightarrow>
      (let (r1, b1) = limitedBuffer_Write d1 \<lparr>lb_output = [], lb_limit = n\<rparr>;
           (r2, b2) = limitedBuffer_Write d2 b1
       in r1 = (length d1, False) \<and> r2 = (length d2, False) \<and> lb_output b2 = d1 @ d2)) \<and>
   (\<forall>n d. lb_output (snd (limitedBuffer_Write d \<lparr>lb_output = [], lb_limit = n\<rparr>)) = take n d)"
  by (auto simp: limitedBuffer_Write_def Let_def)

theorem limitedBuffer_exceeds_limit_witness:
  "lb_output (snd (limitedBuffer_Write ''cd'' (snd (limitedBuffer_Write ''ab'' \<lparr>lb_output = [], lb_limit = 3\<rparr>)))) = ''abcd''"
  using limitedBuffer_exceeds_limit [THEN conjunct1, rule_format, of "''ab''" 3 "''cd''"] by (auto split: prod.splits)

end
