(* ===== verification/Rpc_Batch.thy ===== *)
theory Rpc_Batch
  imports Rpc_Handler
begin

text \<open>
  The processing of a batch of calls (handler.go, the goroutine started by handleBatch) and the
  batchCallBuffer it shares with the function of its timeout timer.

  The goroutine and the timer run concurrently and synchronise only through the mutex of the buffer
  and the cancelled context, so the model is a step relation: a step is one critical section, or
  the code between two of them, of one goroutine. Other goroutines of the connection may change
  the handler state at any time, as far as they leave the notifiers of this batch alone.
\<close>

section \<open>The buffer\<close>

record batchCallBuffer =
  bb_calls :: "jsonrpcMessage list"
  bb_resp :: "jsonrpcMessage list"
  bb_wrote :: bool

definition nextCall :: "batchCallBuffer \<Rightarrow> jsonrpcMessage option" where
  "nextCall b = (case bb_calls b of [] \<Rightarrow> None | msg # _ \<Rightarrow> Some msg)"

text \<open>Slicing an empty slice panics.\<close>

definition pushResponse :: "jsonrpcMessage option \<Rightarrow> batchCallBuffer \<Rightarrow> batchCallBuffer option" where
  "pushResponse answer b =
     (let b1 = (case answer of Some a \<Rightarrow> b\<lparr>bb_resp := bb_resp b @ [a]\<rparr> | None \<Rightarrow> b)
      in case bb_calls b1 of [] \<Rightarrow> None | _ # rest \<Rightarrow> Some (b1\<lparr>bb_calls := rest\<rparr>))"

text \<open>doWrite returns what it writes to the connection, if anything.\<close>

definition doWrite :: "bool \<Rightarrow> batchCallBuffer \<Rightarrow> (jsonrpcMessage list \<times> bool) option \<times> batchCallBuffer" where
  "doWrite isErrorResponse b =
     (if bb_wrote b then (None, b)
      else (if bb_resp b \<noteq> [] then Some (bb_resp b, isErrorResponse) else None, b\<lparr>bb_wrote := True\<rparr>))"

definition buffer_write :: "batchCallBuffer \<Rightarrow> (jsonrpcMessage list \<times> bool) option \<times> batchCallBuffer" where
  "buffer_write b = doWrite False b"

definition respondWithError :: "goerr \<Rightarrow> batchCallBuffer \<Rightarrow> (jsonrpcMessage list \<times> bool) option \<times> batchCallBuffer" where
  "respondWithError err b =
     doWrite True
       (b\<lparr>bb_resp := bb_resp b @ map (\<lambda>msg. errorResponse msg err) (filter (\<lambda>msg. \<not> isNotification msg) (bb_calls b))\<rparr>)"

section \<open>The goroutines\<close>

text \<open>Where the processing goroutine is: at the head of the loop, running a call, about to push its
  response, about to account for its size, about to answer that the response is too large, and
  after the loop stopping the timer, registering subscriptions, writing, activating, done.\<close>

datatype batch_pc =
    BLoop
  | BRun jsonrpcMessage
  | BPush jsonrpcMessage "jsonrpcMessage option"
  | BSize "jsonrpcMessage option"
  | BTooLarge
  | BStop
  | BSubs
  | BWrite
  | BActivate
  | BDone

text \<open>The timer: there is none, it is armed, its function has cancelled the context, its function
  has returned, or it was stopped in time.\<close>

datatype batch_timer = NoTimer | Armed | Fired | TimerDone | Stopped

record batchst =
  b_buf :: batchCallBuffer
  b_pc :: batch_pc
  b_timer :: batch_timer
  b_cancelled :: bool
  b_bytes :: int
  b_cp :: callProc
  b_h :: hstate
  b_out :: "(jsonrpcMessage list \<times> bool) list" \<comment> \<open>what this batch wrote to the connection\<close>

definition batch_init :: "bool \<Rightarrow> jsonrpcMessage list \<Rightarrow> hstate \<Rightarrow> batchst" where
  "batch_init hasTimeout calls h =
     \<lparr>b_buf = \<lparr>bb_calls = calls, bb_resp = [], bb_wrote = False\<rparr>, b_pc = BLoop,
      b_timer = (if hasTimeout then Armed else NoTimer), b_cancelled = False, b_bytes = 0,
      b_cp = new_callProc, b_h = h, b_out = []\<rparr>"

definition b_write :: "(jsonrpcMessage list \<times> bool) option \<times> batchCallBuffer \<Rightarrow> batchst \<Rightarrow> batchst" where
  "b_write r s =
     (case r of
        (None, b) \<Rightarrow> s\<lparr>b_buf := b\<rparr>
      | (Some (rs, isErr), b) \<Rightarrow>
          s\<lparr>b_buf := b, b_h := snd (writeJSON (WBatch rs) isErr (b_h s)), b_out := b_out s @ [(rs, isErr)]\<rparr>)"

definition result_len :: "jsonrpcMessage \<Rightarrow> int" where
  "result_len r = int (length (raw_string (Result r)))"

definition too_large_error :: goerr where
  "too_large_error = InternalServerError errcodeResponseTooLarge errMsgResponseTooLarge"

text \<open>The steps of the processing goroutine.\<close>

inductive batch_proc :: "handlercfg \<Rightarrow> batchst \<Rightarrow> batchst \<Rightarrow> bool" for cfg where
  loop_cancelled: "b_pc s = BLoop \<Longrightarrow> b_cancelled s \<Longrightarrow> batch_proc cfg s (s\<lparr>b_pc := BStop\<rparr>)"
| loop_empty: "b_pc s = BLoop \<Longrightarrow> \<not> b_cancelled s \<Longrightarrow> nextCall (b_buf s) = None \<Longrightarrow> batch_proc cfg s (s\<lparr>b_pc := BStop\<rparr>)"
| loop_next: "b_pc s = BLoop \<Longrightarrow> \<not> b_cancelled s \<Longrightarrow> nextCall (b_buf s) = Some msg \<Longrightarrow>
    batch_proc cfg s (s\<lparr>b_pc := BRun msg\<rparr>)"
| run_call: "b_pc s = BRun msg \<Longrightarrow> handleCallMsg cfg (b_cp s) msg (b_h s) = Some (resp, cp, h) \<Longrightarrow>
    batch_proc cfg s (s\<lparr>b_pc := BPush msg resp, b_cp := cp, b_h := h\<rparr>)"
| push: "b_pc s = BPush msg resp \<Longrightarrow> pushResponse resp (b_buf s) = Some b \<Longrightarrow>
    batch_proc cfg s (s\<lparr>b_pc := BSize resp, b_buf := b\<rparr>)"
| size_skip: "b_pc s = BSize resp \<Longrightarrow> resp = None \<or> batchResponseMaxSize cfg = 0 \<Longrightarrow> batch_proc cfg s (s\<lparr>b_pc := BLoop\<rparr>)"
| size_add: "b_pc s = BSize (Some r) \<Longrightarrow> batchResponseMaxSize cfg \<noteq> 0 \<Longrightarrow> n = b_bytes s + result_len r \<Longrightarrow>
    batch_proc cfg s (s\<lparr>b_bytes := n, b_pc := (if batchResponseMaxSize cfg < n then BTooLarge else BLoop)\<rparr>)"
| too_large: "b_pc s = BTooLarge \<Longrightarrow>
    batch_proc cfg s ((b_write (respondWithError too_large_error (b_buf s)) s)\<lparr>b_pc := BStop\<rparr>)"
| stop_timer: "b_pc s = BStop \<Longrightarrow>
    batch_proc cfg s (s\<lparr>b_pc := BSubs, b_timer := (if b_timer s = Armed then Stopped else b_timer s)\<rparr>)"
| add_subs: "b_pc s = BSubs \<Longrightarrow>
    batch_proc cfg s (s\<lparr>b_pc := BWrite, b_h := addSubscriptions (cp_notifiers (b_cp s)) (b_h s)\<rparr>)"
| final_write: "b_pc s = BWrite \<Longrightarrow> batch_proc cfg s ((b_write (buffer_write (b_buf s)) s)\<lparr>b_pc := BActivate\<rparr>)"
| activate_subs: "b_pc s = BActivate \<Longrightarrow> activateAll (cp_notifiers (b_cp s)) (b_h s) = Some h \<Longrightarrow>
    batch_proc cfg s (s\<lparr>b_pc := BDone, b_h := h\<rparr>)"

text \<open>What other goroutines may do to the handler state: anything that keeps the invariant, forgets
  no notifier and leaves the phases of the notifiers of this batch alone.\<close>

definition env_ok :: "nat list \<Rightarrow> hstate \<Rightarrow> hstate \<Rightarrow> bool" where
  "env_ok nn h h' \<longleftrightarrow>
     hinv h' \<and> length (notifs h) \<le> length (notifs h') \<and>
     (\<forall>n \<in> set nn. callReturned (notifs h' ! n) = callReturned (notifs h ! n) \<and>
                   activated (notifs h' ! n) = activated (notifs h ! n))"

inductive batch_step :: "handlercfg \<Rightarrow> batchst \<Rightarrow> batchst \<Rightarrow> bool" for cfg where
  proc: "batch_proc cfg s s' \<Longrightarrow> batch_step cfg s s'"
| timer_fires: "b_timer s = Armed \<Longrightarrow> batch_step cfg s (s\<lparr>b_timer := Fired, b_cancelled := True\<rparr>)"
| timer_responds: "b_timer s = Fired \<Longrightarrow>
    batch_step cfg s ((b_write (respondWithError timeout_error (b_buf s)) s)\<lparr>b_timer := TimerDone\<rparr>)"
| parent_cancelled: "batch_step cfg s (s\<lparr>b_cancelled := True\<rparr>)"
| others: "env_ok (cp_notifiers (b_cp s)) (b_h s) h' \<Longrightarrow> batch_step cfg s (s\<lparr>b_h := h'\<rparr>)"

inductive_cases batch_procE: "batch_proc cfg s s'"
inductive_cases batch_stepE: "batch_step cfg s s'"

text \<open>The answer to a batch that is too long: one error with the id of the first call.\<close>

definition respondWithBatchTooLarge :: "jsonrpcMessage list \<Rightarrow> jsonrpcMessage list" where
  "respondWithBatchTooLarge batch =
     (let resp = errorMessage (InvalidRequestError errMsgBatchTooLarge)
      in case find isCall batch of
           Some msg \<Rightarrow> [resp\<lparr>ID := ID msg\<rparr>]
         | None \<Rightarrow> [resp])"

section \<open>The invariant of the buffer\<close>

text \<open>A response answers a message: it is a response with the id of the message, if that is valid.\<close>

definition answers :: "jsonrpcMessage \<Rightarrow> jsonrpcMessage \<Rightarrow> bool" where
  "answers msg r \<longleftrightarrow> (Error r \<noteq> None \<or> Result r \<noteq> None) \<and> (hasValidID msg \<longrightarrow> isResponse r \<and> ID r = ID msg)"

abbreviation expects_answer :: "jsonrpcMessage \<Rightarrow> bool" where
  "expects_answer msg \<equiv> \<not> isNotification msg"

text \<open>The first \<open>k\<close> messages are answered in order, one response for each that is no notification.\<close>

definition answers_first :: "jsonrpcMessage list \<Rightarrow> nat \<Rightarrow> jsonrpcMessage list \<Rightarrow> bool" where
  "answers_first calls k rs \<longleftrightarrow> k \<le> length calls \<and> list_all2 answers (filter expects_answer (take k calls)) rs"

lemma answers_errorResponse: "answers m (errorResponse m err)"
  by (simp add: answers_def isResponse_errorResponse)

lemma answers_msg_answered: "msg_answered m (Some r) \<Longrightarrow> \<not> isNotification m \<and> answers m r"
  by (auto simp: msg_answered_def answers_def isResponse_def split: if_splits)

lemma answers_first_0 [simp]: "answers_first calls 0 []"
  by (simp add: answers_first_def)

lemma answers_first_push:
  assumes "answers_first calls k rs" and "drop k calls = m # rest" and "msg_answered m ans"
  shows "answers_first calls (Suc k) (rs @ (case ans of Some r \<Rightarrow> [r] | None \<Rightarrow> []))"
proof -
  have k: "k < length calls" using assms(2) by (cases "k < length calls") simp_all
  then have "calls ! k = m" using assms(2) Cons_nth_drop_Suc [OF k] by simp
  with k have t: "take (Suc k) calls = take k calls @ [m]" by (simp add: take_Suc_conv_app_nth)
  show ?thesis
  proof (cases ans)
    case None
    then have "isNotification m" using assms(3) by (simp add: msg_answered_def split: if_splits)
    then show ?thesis using assms(1) k None by (simp add: answers_first_def t)
  next
    case (Some r)
    then show ?thesis using assms(1) k answers_msg_answered [of m r] assms(3) by (simp add: answers_first_def t list_all2_appendI)
  qed
qed

lemma answers_first_errors:
  assumes "answers_first calls k rs"
  shows "answers_first calls (length calls)
    (rs @ map (\<lambda>msg. errorResponse msg err) (filter expects_answer (drop k calls)))"
proof -
  have "list_all2 answers (filter expects_answer ms) (map (\<lambda>msg. errorResponse msg err) (filter expects_answer ms))" for ms
    by (simp add: list_all2_conv_all_nth answers_errorResponse)
  moreover have "filter expects_answer calls = filter expects_answer (take k calls) @ filter expects_answer (drop k calls)"
    by (metis append_take_drop_id filter_append)
  ultimately show ?thesis using assms by (simp add: answers_first_def list_all2_appendI)
qed

text \<open>As long as nothing was written, the calls that are left are a suffix of the batch and the
  responses answer the rest. What was written answers a prefix of the batch, and all of it unless the
  context was cancelled; an error response is always complete.\<close>

definition out_ok :: "jsonrpcMessage list \<Rightarrow> bool \<Rightarrow> (jsonrpcMessage list \<times> bool) list \<Rightarrow> bool" where
  "out_ok calls canc out \<longleftrightarrow>
     (\<exists>k e rs. answers_first calls k rs \<and> out = (if rs = [] then [] else [(rs, e)]) \<and>
               (k = length calls \<or> canc \<and> \<not> e))"

lemma out_okI:
  "answers_first calls k rs \<Longrightarrow> out = (if rs = [] then [] else [(rs, e)]) \<Longrightarrow> k = length calls \<or> canc \<and> \<not> e \<Longrightarrow>
     out_ok calls canc out"
  unfolding out_ok_def by blast

lemma out_ok_cancel: "out_ok calls canc out \<Longrightarrow> out_ok calls True out"
  unfolding out_ok_def by blast

definition buf_inv :: "jsonrpcMessage list \<Rightarrow> bool \<Rightarrow> batchCallBuffer \<Rightarrow> (jsonrpcMessage list \<times> bool) list \<Rightarrow> bool" where
  "buf_inv calls canc b out \<longleftrightarrow>
     (\<exists>k \<le> length calls. bb_calls b = drop k calls \<and> (\<not> bb_wrote b \<longrightarrow> answers_first calls k (bb_resp b))) \<and>
     (\<not> bb_wrote b \<longrightarrow> out = []) \<and>
     (bb_wrote b \<longrightarrow> out_ok calls canc out)"

definition written :: "'a option \<Rightarrow> 'a list" where
  "written w = (case w of None \<Rightarrow> [] | Some x \<Rightarrow> [x])"

lemma buf_inv_init: "buf_inv calls False \<lparr>bb_calls = calls, bb_resp = [], bb_wrote = False\<rparr> []"
  by (auto simp: buf_inv_def intro!: exI [of _ 0])

lemma buf_inv_cancel: "buf_inv calls canc b out \<Longrightarrow> buf_inv calls True b out"
  using out_ok_cancel by (auto simp: buf_inv_def)

lemma buf_inv_push:
  assumes "buf_inv calls canc b out" and "bb_calls b = m # rest" and "msg_answered m ans"
  obtains b' where "pushResponse ans b = Some b'" "buf_inv calls canc b' out" "bb_calls b' = rest" "bb_wrote b' = bb_wrote b"
    "bb_resp b' = bb_resp b @ written ans"
proof -
  from assms(1) obtain k where k: "k \<le> length calls" "bb_calls b = drop k calls"
    "\<not> bb_wrote b \<longrightarrow> answers_first calls k (bb_resp b)" by (auto simp: buf_inv_def)
  let ?b' = "b\<lparr>bb_resp := bb_resp b @ written ans, bb_calls := rest\<rparr>"
  have d: "drop k calls = m # rest" using k(2) assms(2) by simp
  then have lt: "Suc k \<le> length calls" by (cases "k < length calls") simp_all
  have "rest = drop (Suc k) calls" using Cons_nth_drop_Suc [of k calls] d lt by simp
  moreover have "answers_first calls (Suc k) (bb_resp b @ written ans)" if "\<not> bb_wrote b"
    using answers_first_push [OF _ d assms(3)] k(3) that by (simp add: written_def)
  ultimately have "\<exists>k \<le> length calls. rest = drop k calls \<and> (\<not> bb_wrote b \<longrightarrow> answers_first calls k (bb_resp b @ written ans))"
    using lt by blast
  then have "buf_inv calls canc ?b' out" using assms(1) by (simp add: buf_inv_def)
  moreover have "pushResponse ans b = Some ?b'"
    using assms(2) by (simp add: pushResponse_def written_def split: option.split)
  ultimately show ?thesis by (intro that [of ?b']) simp_all
qed

lemma buf_inv_error:
  assumes "buf_inv calls canc b out" and "respondWithError err b = (w, b')"
  shows "buf_inv calls canc b' (out @ written w) \<and> bb_calls b' = bb_calls b \<and> bb_wrote b'"
proof (cases "bb_wrote b")
  case True
  then show ?thesis using assms by (auto simp: buf_inv_def respondWithError_def doWrite_def written_def)
next
  case False
  from assms(1) False obtain k where k: "k \<le> length calls" "bb_calls b = drop k calls"
    "answers_first calls k (bb_resp b)" "out = []" by (auto simp: buf_inv_def)
  let ?rs = "bb_resp b @ map (\<lambda>msg. errorResponse msg err) (filter expects_answer (bb_calls b))"
  have "answers_first calls (length calls) ?rs" using answers_first_errors [OF k(3)] k(2) by simp
  moreover have "w = (if ?rs = [] then None else Some (?rs, True))" "b' = b\<lparr>bb_resp := ?rs, bb_wrote := True\<rparr>"
    using assms(2) False by (auto simp: respondWithError_def doWrite_def)
  ultimately show ?thesis
    using k(1,2,4) out_okI [of calls "length calls" ?rs "out @ written w" True canc]
    by (auto simp: buf_inv_def written_def)
qed

lemma buf_inv_write:
  assumes "buf_inv calls canc b out" and "buffer_write b = (w, b')" and "bb_calls b = [] \<or> canc \<or> bb_wrote b"
  shows "buf_inv calls canc b' (out @ written w) \<and> bb_calls b' = bb_calls b \<and> bb_wrote b'"
proof (cases "bb_wrote b")
  case True
  then show ?thesis using assms by (auto simp: buffer_write_def doWrite_def written_def)
next
  case False
  from assms(1) False obtain k where k: "k \<le> length calls" "bb_calls b = drop k calls"
    "answers_first calls k (bb_resp b)" "out = []" by (auto simp: buf_inv_def)
  have "k = length calls \<or> canc" using assms(3) False k(1,2) by auto
  moreover have "w = (if bb_resp b = [] then None else Some (bb_resp b, False))" "b' = b\<lparr>bb_wrote := True\<rparr>"
    using assms(2) False by (auto simp: buffer_write_def doWrite_def)
  ultimately show ?thesis
    using k out_okI [of calls k "bb_resp b" "out @ written w" False canc]
    by (auto simp: buf_inv_def written_def)
qed

section \<open>The invariant of the batch\<close>

definition before_write :: "batch_pc \<Rightarrow> bool" where
  "before_write pc \<longleftrightarrow> pc \<noteq> BWrite \<and> pc \<noteq> BActivate \<and> pc \<noteq> BDone"

definition pc_inv :: "batch_pc \<Rightarrow> batchCallBuffer \<Rightarrow> bool \<Rightarrow> bool" where
  "pc_inv pc b canc \<longleftrightarrow>
     (\<forall>m. pc = BRun m \<longrightarrow> (\<exists>rest. bb_calls b = m # rest)) \<and>
     (\<forall>m r. pc = BPush m r \<longrightarrow> (\<exists>rest. bb_calls b = m # rest) \<and> msg_answered m r) \<and>
     (pc = BStop \<or> pc = BSubs \<or> pc = BWrite \<longrightarrow> bb_calls b = [] \<or> canc \<or> bb_wrote b) \<and>
     (pc = BActivate \<or> pc = BDone \<longrightarrow> bb_wrote b)"

definition notif_inv :: "batch_pc \<Rightarrow> callProc \<Rightarrow> hstate \<Rightarrow> bool" where
  "notif_inv pc cp h \<longleftrightarrow>
     hinv h \<and> (\<forall>n \<in> set (cp_notifiers cp). n < length (notifs h)) \<and> (before_write pc \<longrightarrow> cp_ok cp h)"

definition binv :: "jsonrpcMessage list \<Rightarrow> batchst \<Rightarrow> bool" where
  "binv calls s \<longleftrightarrow>
     buf_inv calls (b_cancelled s) (b_buf s) (b_out s) \<and> pc_inv (b_pc s) (b_buf s) (b_cancelled s) \<and>
     notif_inv (b_pc s) (b_cp s) (b_h s)"

lemma b_write_None: "b_write (None, b) s = s\<lparr>b_buf := b\<rparr>"
  by (simp only: b_write_def prod.case option.case)

lemma b_write_Some:
  "b_write (Some (rs, e), b) s =
     s\<lparr>b_buf := b, b_h := snd (writeJSON (WBatch rs) e (b_h s)), b_out := b_out s @ [(rs, e)]\<rparr>"
  by (simp only: b_write_def prod.case option.case)

text \<open>What a write does to the state: it stores the buffer, records what was written and leaves
  everything but the connection alone.\<close>

definition wrote_frame :: "(jsonrpcMessage list \<times> bool) option \<times> batchCallBuffer \<Rightarrow> batchst \<Rightarrow> batchst \<Rightarrow> bool" where
  "wrote_frame r s s' \<longleftrightarrow>
     b_pc s' = b_pc s \<and> b_timer s' = b_timer s \<and> b_cancelled s' = b_cancelled s \<and> b_bytes s' = b_bytes s \<and>
     b_cp s' = b_cp s \<and> b_buf s' = snd r \<and> b_out s' = b_out s @ written (fst r) \<and>
     notifs (b_h s') = notifs (b_h s) \<and> hinv (b_h s') = hinv (b_h s)"

lemma b_write_frame: "wrote_frame r s (b_write r s)"
proof (cases r rule: prod.exhaust)
  case (Pair w b)
  show ?thesis
  proof (cases w)
    case None
    show ?thesis unfolding Pair None b_write_None by (simp add: wrote_frame_def written_def)
  next
    case (Some p)
    obtain rs e where p: "p = (rs, e)" by (cases p)
    show ?thesis unfolding Pair Some p b_write_Some by (simp add: wrote_frame_def written_def)
  qed
qed

lemma b_write_fields [simp]:
  "b_pc (b_write r s) = b_pc s" "b_timer (b_write r s) = b_timer s" "b_cancelled (b_write r s) = b_cancelled s"
  "b_bytes (b_write r s) = b_bytes s" "b_cp (b_write r s) = b_cp s" "b_buf (b_write r s) = snd r"
  "b_out (b_write r s) = b_out s @ written (fst r)" "notifs (b_h (b_write r s)) = notifs (b_h s)"
  "hinv (b_h (b_write r s)) = hinv (b_h s)"
  using b_write_frame [of r s] unfolding wrote_frame_def by blast+

lemma cp_ok_cong: "notifs h' = notifs h \<Longrightarrow> cp_ok cp h' = cp_ok cp h"
  by (simp add: cp_ok_def open_notifs_def)

lemma notif_inv_cong:
  "notifs h' = notifs h \<Longrightarrow> hinv h' = hinv h \<Longrightarrow> notif_inv pc cp h' = notif_inv pc cp h"
  using cp_ok_cong [of h' h] by (simp add: notif_inv_def)

lemma notif_inv_write [simp]: "notif_inv pc cp (b_h (b_write r s)) = notif_inv pc cp (b_h s)"
  by (rule notif_inv_cong) simp_all

lemma notif_inv_pc: "notif_inv pc cp h \<Longrightarrow> before_write pc' \<longrightarrow> before_write pc \<Longrightarrow> notif_inv pc' cp h"
  by (simp add: notif_inv_def)

lemma binv_init:
  assumes "hinv h"
  shows "binv calls (batch_init t calls h)"
  using assms buf_inv_init by (simp add: binv_def batch_init_def pc_inv_def notif_inv_def new_callProc_def)
    (simp add: new_callProc_def [symmetric])

lemma binv_proc:
  assumes "batch_proc cfg s s'" and "binv calls s" and "cfg_ok cfg"
  shows "binv calls s'"
  using assms(1)
proof cases
  case (loop_next msg)
  then show ?thesis
    using assms(2) by (auto simp: binv_def pc_inv_def notif_inv_def before_write_def nextCall_def split: list.splits)
next
  case (run_call msg resp cp h)
  have n: "hinv (b_h s)" "cp_ok (b_cp s) (b_h s)" using assms(2) run_call by (auto simp: binv_def notif_inv_def before_write_def)
  from handleCallMsg_ok [OF assms(3) n, of msg] run_call(3) have
    h: "hinv h" "cp_ok cp h" "msg_answered msg resp" by auto
  then have "notif_inv (BPush msg resp) cp h" by (auto simp: notif_inv_def cp_ok_def open_notifs_def)
  then show ?thesis using assms(2) run_call(1,2) h(3) by (auto simp: binv_def pc_inv_def)
next
  case (push msg resp b)
  have i: "buf_inv calls (b_cancelled s) (b_buf s) (b_out s)" "msg_answered msg resp" "notif_inv (BPush msg resp) (b_cp s) (b_h s)"
    and "\<exists>rest. bb_calls (b_buf s) = msg # rest"
    using assms(2) push by (auto simp: binv_def pc_inv_def)
  then obtain rest where rest: "bb_calls (b_buf s) = msg # rest" by blast
  from buf_inv_push [OF i(1) rest i(2)] push(3) have "buf_inv calls (b_cancelled s) b (b_out s)" by auto
  then show ?thesis using push(1) i(3) by (simp add: binv_def pc_inv_def notif_inv_def before_write_def)
next
  case too_large
  let ?r = "respondWithError too_large_error (b_buf s)"
  have "buf_inv calls (b_cancelled s) (snd ?r) (b_out s @ written (fst ?r)) \<and> bb_wrote (snd ?r)"
    using buf_inv_error [of calls "b_cancelled s" "b_buf s" "b_out s" too_large_error "fst ?r" "snd ?r"] assms(2) by (simp add: binv_def)
  moreover have "notif_inv BStop (b_cp s) (b_h s)"
    using notif_inv_pc [of BTooLarge _ _ BStop] too_large assms(2) by (simp add: binv_def before_write_def)
  ultimately show ?thesis using too_large by (simp add: binv_def pc_inv_def)
next
  case final_write
  let ?r = "buffer_write (b_buf s)"
  have "buf_inv calls (b_cancelled s) (snd ?r) (b_out s @ written (fst ?r)) \<and> bb_wrote (snd ?r)"
    using buf_inv_write [of calls "b_cancelled s" "b_buf s" "b_out s" "fst ?r" "snd ?r"] assms(2) final_write by (simp add: binv_def pc_inv_def)
  moreover have "notif_inv BActivate (b_cp s) (b_h s)"
    using notif_inv_pc [of BWrite _ _ BActivate] final_write assms(2) by (simp add: binv_def before_write_def)
  ultimately show ?thesis using final_write by (simp add: binv_def pc_inv_def)
next
  case add_subs
  have n: "hinv (b_h s)" "cp_ok (b_cp s) (b_h s)" using assms(2) add_subs by (auto simp: binv_def notif_inv_def before_write_def)
  then have "hinv (addSubscriptions (cp_notifiers (b_cp s)) (b_h s))" by (simp add: cp_ok_def addSubscriptions_hinv)
  then show ?thesis using add_subs assms(2) by (simp add: binv_def pc_inv_def notif_inv_def before_write_def)
next
  case (activate_subs h)
  have n: "hinv (b_h s)" "\<forall>n \<in> set (cp_notifiers (b_cp s)). n < length (notifs (b_h s))"
    using assms(2) by (auto simp: binv_def notif_inv_def)
  from activateAll_hinv [OF n] activate_subs show ?thesis
    using assms(2) by (auto simp: binv_def pc_inv_def notif_inv_def before_write_def)
qed (use assms(2) in \<open>auto simp: binv_def pc_inv_def notif_inv_def before_write_def nextCall_def split: list.splits if_splits\<close>)

lemma env_ok_notif_inv:
  assumes "env_ok (cp_notifiers cp) h h'" and "notif_inv pc cp h"
  shows "notif_inv pc cp h'"
  using assms by (force simp: env_ok_def notif_inv_def cp_ok_def open_notifs_def)

lemma binv_step:
  assumes "batch_step cfg s s'" and "binv calls s" and "cfg_ok cfg"
  shows "binv calls s'"
  using assms(1)
proof cases
  case proc
  then show ?thesis using binv_proc assms by blast
next
  case timer_responds
  let ?r = "respondWithError timeout_error (b_buf s)"
  have "buf_inv calls (b_cancelled s) (snd ?r) (b_out s @ written (fst ?r)) \<and> bb_calls (snd ?r) = bb_calls (b_buf s) \<and> bb_wrote (snd ?r)"
    using buf_inv_error [of calls "b_cancelled s" "b_buf s" "b_out s" timeout_error "fst ?r" "snd ?r"] assms(2) by (simp add: binv_def)
  then show ?thesis using timer_responds assms(2) by (simp add: binv_def pc_inv_def)
next
  case (others h')
  then show ?thesis using assms(2) env_ok_notif_inv by (simp add: binv_def)
qed (use assms(2) buf_inv_cancel in \<open>auto simp: binv_def pc_inv_def\<close>)

section \<open>Progress\<close>

definition batch_start :: "handlercfg \<Rightarrow> jsonrpcMessage list \<Rightarrow> batchst \<Rightarrow> bool" where
  "batch_start cfg calls s \<longleftrightarrow> cfg_ok cfg \<and> (\<exists>t h. hinv h \<and> s = batch_init t calls h)"

definition batch_inv :: "handlercfg \<Rightarrow> jsonrpcMessage list \<Rightarrow> batchst \<Rightarrow> bool" where
  "batch_inv cfg calls s \<longleftrightarrow> cfg_ok cfg \<and> binv calls s"

definition batch_done :: "batchst \<Rightarrow> bool" where
  "batch_done s \<longleftrightarrow> b_pc s = BDone"

fun pc_rank :: "batch_pc \<Rightarrow> nat \<Rightarrow> nat" where
  "pc_rank BLoop c = 5 * c + 8"
| "pc_rank (BRun _) c = 5 * c + 7"
| "pc_rank (BPush _ _) c = 5 * c + 6"
| "pc_rank (BSize _) c = 5 * c + 9"
| "pc_rank BTooLarge c = 7"
| "pc_rank BStop c = 5"
| "pc_rank BSubs c = 4"
| "pc_rank BWrite c = 3"
| "pc_rank BActivate c = 2"
| "pc_rank BDone c = 1"

definition batch_mu :: "batchst \<Rightarrow> nat" where
  "batch_mu s = pc_rank (b_pc s) (length (bb_calls (b_buf s)))"

lemma batch_proc_mu: "batch_proc cfg s s' \<Longrightarrow> batch_mu s' < batch_mu s"
  by (induction rule: batch_proc.induct)
    (auto simp: batch_mu_def pushResponse_def Let_def split: list.splits option.splits)

lemma batch_proc_ex:
  assumes "batch_inv cfg calls s" and "\<not> batch_done s"
  shows "\<exists>s'. batch_proc cfg s s'"
proof -
  have i: "cfg_ok cfg" "buf_inv calls (b_cancelled s) (b_buf s) (b_out s)" "pc_inv (b_pc s) (b_buf s) (b_cancelled s)"
    "notif_inv (b_pc s) (b_cp s) (b_h s)"
    using assms(1) by (auto simp: batch_inv_def binv_def)
  show ?thesis
  proof (cases "b_pc s")
    case BLoop
    then show ?thesis
      using batch_proc.loop_cancelled batch_proc.loop_empty batch_proc.loop_next by (metis not_None_eq)
  next
    case (BRun m)
    have "hinv (b_h s)" "cp_ok (b_cp s) (b_h s)" using i(4) BRun by (auto simp: notif_inv_def before_write_def)
    from handleCallMsg_ok [OF i(1) this, of m] show ?thesis using batch_proc.run_call [OF BRun] by metis
  next
    case (BPush m r)
    then obtain rest where "bb_calls (b_buf s) = m # rest" "msg_answered m r" using i(3) by (auto simp: pc_inv_def)
    from buf_inv_push [OF i(2) this] show ?thesis using batch_proc.push [OF BPush] by metis
  next
    case (BSize r)
    then show ?thesis
      using batch_proc.size_skip [of s r cfg] batch_proc.size_add [of s _ cfg] by (cases r) blast+
  next
    case BActivate
    have "hinv (b_h s)" "\<forall>n \<in> set (cp_notifiers (b_cp s)). n < length (notifs (b_h s))" using i(4) by (auto simp: notif_inv_def)
    from activateAll_hinv [OF this] show ?thesis using batch_proc.activate_subs [OF BActivate] by metis
  qed (use assms(2) in \<open>auto simp: batch_done_def intro: batch_proc.intros\<close>)
qed

interpretation batch: progress_system "batch_start cfg calls" "batch_step cfg" "batch_inv cfg calls" "batch_proc cfg" batch_done batch_mu
  for cfg calls
proof
  show "batch_start cfg calls s \<Longrightarrow> batch_inv cfg calls s" for s
    by (auto simp: batch_start_def batch_inv_def binv_init)
  show "batch_inv cfg calls s \<Longrightarrow> batch_step cfg s s' \<Longrightarrow> batch_inv cfg calls s'" for s s'
    by (auto simp: batch_inv_def binv_step)
qed (auto intro: batch_step.proc batch_proc_ex batch_proc_mu)

section \<open>The size limit\<close>

abbreviation total_len :: "jsonrpcMessage list \<Rightarrow> int" where
  "total_len rs \<equiv> sum_list (map result_len rs)"

text \<open>All responses together fit the limit, or they do without one of them.\<close>

definition size_ok :: "int \<Rightarrow> jsonrpcMessage list \<Rightarrow> bool" where
  "size_ok limit rs \<longleftrightarrow> total_len rs \<le> limit \<or> (\<exists>xs r ys. rs = xs @ r # ys \<and> total_len (xs @ ys) \<le> limit)"

lemma result_len_nonneg [simp]: "0 \<le> result_len r"
  by (simp add: result_len_def)

lemma result_len_error [simp]: "result_len (errorResponse m e) = 0"
  by (simp add: result_len_def raw_string_def)

lemma size_ok_errors: "size_ok limit rs \<Longrightarrow> size_ok limit (rs @ map (\<lambda>m. errorResponse m e) ms)"
proof -
  have z: "total_len (map (\<lambda>m. errorResponse m e) ms) = 0" by (induction ms) simp_all
  assume "size_ok limit rs"
  then consider "total_len rs \<le> limit" | xs r ys where "rs = xs @ r # ys" "total_len (xs @ ys) \<le> limit"
    by (auto simp: size_ok_def)
  then show ?thesis
  proof cases
    case 2
    then show ?thesis using z unfolding size_ok_def
      by (intro disjI2 exI [of _ xs] exI [of _ r] exI [of _ "ys @ map (\<lambda>m. errorResponse m e) ms"]) (simp add: comp_def)
  qed (use z in \<open>simp add: size_ok_def comp_def\<close>)
qed

definition size_inv :: "handlercfg \<Rightarrow> batchst \<Rightarrow> bool" where
  "size_inv cfg s \<longleftrightarrow>
     (0 < batchResponseMaxSize cfg \<longrightarrow>
        list_all (\<lambda>w. size_ok (batchResponseMaxSize cfg) (fst w)) (b_out s) \<and>
        (\<not> bb_wrote (b_buf s) \<longrightarrow>
           size_ok (batchResponseMaxSize cfg) (bb_resp (b_buf s)) \<and>
           (\<forall>r. b_pc s = BSize r \<longrightarrow> total_len (bb_resp (b_buf s)) = b_bytes s + total_len (written r)) \<and>
           (b_pc s = BLoop \<or> (\<exists>m. b_pc s = BRun m) \<or> (\<exists>m r. b_pc s = BPush m r) \<longrightarrow>
              total_len (bb_resp (b_buf s)) = b_bytes s \<and> b_bytes s \<le> batchResponseMaxSize cfg) \<and>
           ((\<exists>r. b_pc s = BSize r) \<longrightarrow> b_bytes s \<le> batchResponseMaxSize cfg)))"

lemma size_inv_write:
  assumes "size_inv cfg s" and "buffer_write (b_buf s) = (w, b) \<or> respondWithError err (b_buf s) = (w, b)"
  shows "0 < batchResponseMaxSize cfg \<longrightarrow>
    list_all (\<lambda>w. size_ok (batchResponseMaxSize cfg) (fst w)) (b_out s @ written w) \<and> bb_wrote b"
proof
  assume lim: "0 < batchResponseMaxSize cfg"
  have ok: "size_ok (batchResponseMaxSize cfg) (bb_resp (b_buf s))" if "\<not> bb_wrote (b_buf s)"
    using assms(1) lim that by (simp add: size_inv_def)
  have out: "list_all (\<lambda>w. size_ok (batchResponseMaxSize cfg) (fst w)) (b_out s)" using assms(1) lim by (simp add: size_inv_def)
  from assms(2) show "list_all (\<lambda>w. size_ok (batchResponseMaxSize cfg) (fst w)) (b_out s @ written w) \<and> bb_wrote b"
    using ok out size_ok_errors [of "batchResponseMaxSize cfg" "bb_resp (b_buf s)" err "filter expects_answer (bb_calls (b_buf s))"]
    by (auto simp: buffer_write_def respondWithError_def doWrite_def written_def split: if_splits)
qed

lemma size_inv_step:
  assumes "batch_step cfg s s'" and "size_inv cfg s"
  shows "size_inv cfg s'"
  using assms(1)
proof cases
  case proc
  then show ?thesis
  proof cases
    case (push msg resp b)
    have "bb_resp b = bb_resp (b_buf s) @ written resp" "bb_wrote b = bb_wrote (b_buf s)"
      using push(3) by (auto simp: pushResponse_def Let_def written_def split: option.splits list.splits)
    moreover have "size_ok limit (rs @ written r)" if "total_len rs \<le> limit" for limit rs and r :: "jsonrpcMessage option"
    proof (cases r)
      case (Some a)
      then show ?thesis using that unfolding size_ok_def
        by (intro disjI2 exI [of _ rs] exI [of _ a] exI [of _ "[]"]) (simp add: written_def)
    qed (use that in \<open>simp add: size_ok_def written_def\<close>)
    ultimately show ?thesis using assms(2) push(1,2) by (simp add: size_inv_def)
  next
    case (size_skip resp)
    then show ?thesis using assms(2) by (auto simp: size_inv_def written_def)
  next
    case (size_add r n)
    then show ?thesis using assms(2) by (auto simp: size_inv_def written_def)
  next
    case too_large
    let ?r = "respondWithError too_large_error (b_buf s)"
    from size_inv_write [OF assms(2), of "fst ?r" "snd ?r" too_large_error] show ?thesis
      using too_large by (simp add: size_inv_def)
  next
    case final_write
    let ?r = "buffer_write (b_buf s)"
    from size_inv_write [OF assms(2), of "fst ?r" "snd ?r"] show ?thesis
      using final_write by (simp add: size_inv_def)
  qed (use assms(2) in \<open>auto simp: size_inv_def\<close>)
next
  case timer_responds
  let ?r = "respondWithError timeout_error (b_buf s)"
  from size_inv_write [OF assms(2), of "fst ?r" "snd ?r" timeout_error] show ?thesis
    using timer_responds by (simp add: size_inv_def)
qed (use assms(2) in \<open>auto simp: size_inv_def\<close>)

interpretation batch_size: invariant_system "batch_start cfg calls" "batch_step cfg" "size_inv cfg"
  for cfg calls
proof
  show "batch_start cfg calls s \<Longrightarrow> size_inv cfg s" for s
    by (auto simp: batch_start_def size_inv_def batch_init_def size_ok_def)
qed (rule size_inv_step)

section \<open>An example batch\<close>

text \<open>One notification, without a timeout: the whole run, step by step.\<close>

definition demo_note :: jsonrpcMessage where
  "demo_note = demo_msg None ''calc_add'' ''x''"

definition demo_batch :: batchst where
  "demo_batch = batch_init False [demo_note] demo_state"

lemma demo_batch_reachable: "reachable (batch_start demo_cfg [demo_note]) (batch_step demo_cfg) demo_batch"
proof (rule reach_init)
  show "batch_start demo_cfg [demo_note] demo_batch"
    unfolding batch_start_def demo_batch_def using demo_ok by blast
qed

section \<open>Properties\<close>





text \<open>C34. With a limit on the size of batch responses, the results written for a batch exceed the limit by at
  most one result: without one of the responses their total size is within the limit.\<close>

theorem batch_response_size:
  assumes "reachable (batch_start cfg calls) (batch_step cfg) s" and "0 < batchResponseMaxSize cfg"
    and "b_out s = [(rs, e)]"
  shows "total_len rs \<le> batchResponseMaxSize cfg \<or>
    (\<exists>xs r ys. rs = xs @ r # ys \<and> total_len (xs @ ys) \<le> batchResponseMaxSize cfg)"
  using batch_size.reachable_inv [OF assms(1)] assms(2,3) by (simp add: size_inv_def size_ok_def)

text \<open>A batch with one call, whose timer fires and answers at once.\<close>

definition demo_request :: jsonrpcMessage where
  "demo_request = demo_msg (Some (JNum ''1'')) ''calc_add'' ''x''"

definition demo_limit :: handlercfg where
  "demo_limit = demo_cfg\<lparr>batchResponseMaxSize := 10\<rparr>"

theorem batch_response_size_witness:
  "\<exists>s. reachable (batch_start demo_limit [demo_request]) (batch_step demo_limit) s \<and>
     b_out s = [([errorResponse demo_request timeout_error], True)] \<and>
     (total_len [errorResponse demo_request timeout_error] \<le> batchResponseMaxSize demo_limit \<or>
      (\<exists>xs r ys. [errorResponse demo_request timeout_error] = xs @ r # ys \<and> total_len (xs @ ys) \<le> batchResponseMaxSize demo_limit))"
proof -
  let ?R = "reachable (batch_start demo_limit [demo_request]) (batch_step demo_limit)"
  let ?s0 = "batch_init True [demo_request] demo_state"
  have "cfg_ok demo_limit" using demo_ok(1) by (simp add: demo_limit_def cfg_ok_def)
  then have "?R ?s0" using demo_ok(2) unfolding batch_start_def by (intro reach_init) blast
  from reach_step [OF this timer_fires] have "?R (?s0\<lparr>b_timer := Fired, b_cancelled := True\<rparr>)" by (simp add: batch_init_def)
  from reach_step [OF this timer_responds] obtain s where s: "?R s"
    "s = (b_write (respondWithError timeout_error \<lparr>bb_calls = [demo_request], bb_resp = [], bb_wrote = False\<rparr>)
           (?s0\<lparr>b_timer := Fired, b_cancelled := True\<rparr>))\<lparr>b_timer := TimerDone\<rparr>"
    by (auto simp: batch_init_def)
  have "\<not> isNotification demo_request" by (simp add: demo_request_def isNotification_def)
  then have out: "b_out s = [([errorResponse demo_request timeout_error], True)]"
    by (simp add: s(2) respondWithError_def doWrite_def written_def batch_init_def)
  have "0 < batchResponseMaxSize demo_limit" by (simp add: demo_limit_def)
  from batch_response_size [OF s(1) this out] show ?thesis using s(1) out by blast
qed

text \<open>The timer of a batch cancels the context before it takes the lock of the buffer to write the
  timeout error. If the goroutine sees the cancelled context in between, it ends the loop and writes the responses it
  has so far, after which the timer writes nothing: the remaining calls get no answer at all. Every batch
  can end this way, with no reply to any of its calls.\<close>

theorem batch_timeout_race:
  assumes "cfg_ok cfg" and "hinv h"
  shows "\<exists>s. reachable (batch_start cfg calls) (batch_step cfg) s \<and> b_pc s = BDone \<and> b_timer s = TimerDone \<and> b_out s = []"
proof -
  let ?R = "reachable (batch_start cfg calls) (batch_step cfg)"
  define b where "b = \<lparr>bb_calls = calls, bb_resp = [], bb_wrote = False\<rparr>"
  define s0 where "s0 = batch_init True calls h"
  have s0: "s0 = \<lparr>b_buf = b, b_pc = BLoop, b_timer = Armed, b_cancelled = False, b_bytes = 0, b_cp = new_callProc, b_h = h, b_out = []\<rparr>"
    by (simp add: s0_def b_def batch_init_def)
  have nn: "cp_notifiers new_callProc = []" by (simp add: new_callProc_def)
  have "batch_start cfg calls s0" unfolding batch_start_def s0_def using assms by blast
  then have "?R s0" by (rule reach_init)
  from reach_step [OF this timer_fires] have "?R (s0\<lparr>b_timer := Fired, b_cancelled := True\<rparr>)" by (simp add: s0)
  from reach_step [OF this proc [OF loop_cancelled]]
  have "?R (s0\<lparr>b_timer := Fired, b_cancelled := True, b_pc := BStop\<rparr>)" by (simp add: s0)
  from reach_step [OF this proc [OF stop_timer]]
  have "?R (s0\<lparr>b_timer := Fired, b_cancelled := True, b_pc := BSubs\<rparr>)" by (simp add: s0)
  from reach_step [OF this proc [OF add_subs]]
  have "?R (s0\<lparr>b_timer := Fired, b_cancelled := True, b_pc := BWrite\<rparr>)" by (simp add: s0 nn)
  from reach_step [OF this proc [OF final_write]]
  have "?R (s0\<lparr>b_timer := Fired, b_cancelled := True, b_pc := BActivate, b_buf := b\<lparr>bb_wrote := True\<rparr>\<rparr>)"
    by (simp add: s0 b_write_None buffer_write_def doWrite_def b_def)
  from reach_step [OF this proc [OF activate_subs, of _ h]]
  have "?R (s0\<lparr>b_timer := Fired, b_cancelled := True, b_pc := BDone, b_buf := b\<lparr>bb_wrote := True\<rparr>\<rparr>)"
    by (simp add: s0 nn)
  from reach_step [OF this timer_responds]
  have "?R ((b_write (None, b\<lparr>bb_wrote := True, bb_resp := map (\<lambda>msg. errorResponse msg timeout_error) (filter expects_answer calls)\<rparr>)
     (s0\<lparr>b_timer := Fired, b_cancelled := True, b_pc := BDone, b_buf := b\<lparr>bb_wrote := True\<rparr>\<rparr>))\<lparr>b_timer := TimerDone\<rparr>)"
    by (simp add: s0 respondWithError_def doWrite_def b_def)
  then show ?thesis by (intro exI conjI, assumption) (simp_all add: s0 b_write_None)
qed

theorem batch_timeout_race_witness:
  "isCall demo_request \<and>
   (\<exists>s. reachable (batch_start demo_cfg [demo_request]) (batch_step demo_cfg) s \<and> b_pc s = BDone \<and> b_timer s = TimerDone \<and> b_out s = [])"
  using batch_timeout_race [OF demo_ok(1,2), of "[demo_request]"] by (simp add: demo_request_def)

end
