(* ===== verification/Rpc_Requests.thy ===== *)
theory Rpc_Requests
  imports Rpc_Batch
begin

text \<open>
  The client side of handler.go: the table of requests that wait for a response (respWait) and of the
  subscriptions of this client (clientSubs), addRequestOp, removeRequestOp, cancelAllRequests,
  handleResponses and handleSubscriptionResult; and the entry points handleMsg and handleBatch, which
  hand responses to these and start a goroutine for calls.

  A requestOp is an object that is shared between the caller and the handler, so operations live in
  a store and the table holds indices into it. A ClientSubscription is an index too; the state
  records in order what the handler does to these objects (start of run, deliver, close), which are
  the events of Rpc_ClientSub.
\<close>

section \<open>State\<close>

record requestOp =
  op_ids :: "string list"
  op_err :: "goerr option"
  op_resp :: "jsonrpcMessage list chan"
  op_sub :: "nat option"
  op_hadResponse :: bool

definition new_requestOp :: "string list \<Rightarrow> nat option \<Rightarrow> requestOp" where
  "new_requestOp ids sub = \<lparr>op_ids = ids, op_err = None, op_resp = make_chan 1, op_sub = sub, op_hadResponse = False\<rparr>"

datatype sub_event = SubRun nat | SubDeliver nat raw_message | SubClose nat goerr

record reqst =
  ops :: "requestOp list"
  respWait :: "(string, nat) gomap"
  clientSubs :: "(string, nat) gomap"
  subids :: "nat \<Rightarrow> string"
  sub_events :: "sub_event list"

definition new_reqst :: "requestOp list \<Rightarrow> reqst" where
  "new_reqst os = \<lparr>ops = os, respWait = [], clientSubs = [], subids = (\<lambda>_. ''''), sub_events = []\<rparr>"

definition upd_op :: "nat \<Rightarrow> (requestOp \<Rightarrow> requestOp) \<Rightarrow> reqst \<Rightarrow> reqst" where
  "upd_op rq f s = s\<lparr>ops := (ops s)[rq := f (ops s ! rq)]\<rparr>"

section \<open>Registering and removing\<close>

definition addRequestOp :: "nat \<Rightarrow> reqst \<Rightarrow> reqst" where
  "addRequestOp rq s = s\<lparr>respWait := map_set_all (op_ids (ops s ! rq)) rq (respWait s)\<rparr>"

definition removeRequestOp :: "nat \<Rightarrow> reqst \<Rightarrow> reqst" where
  "removeRequestOp rq s = s\<lparr>respWait := map_delete_all (op_ids (ops s ! rq)) (respWait s)\<rparr>"

text \<open>The first loop of cancelAllRequests, over the entries of respWait; the second list is
  didClose. \<^const>\<open>None\<close> is the panic of a second close.\<close>

fun cancelOps :: "goerr \<Rightarrow> (string \<times> nat) list \<Rightarrow> nat list \<Rightarrow> reqst \<Rightarrow> reqst option" where
  "cancelOps err [] didClose s = Some s"
| "cancelOps err ((i, rq) # rest) didClose s =
     (let s1 = s\<lparr>respWait := map_delete i (respWait s)\<rparr> in
      if rq \<in> set didClose then cancelOps err rest didClose s1
      else do { ch \<leftarrow> chan_close (op_resp (ops s1 ! rq));
                cancelOps err rest (rq # didClose) (upd_op rq (\<lambda>x. x\<lparr>op_err := Some err, op_resp := ch\<rparr>) s1) })"

fun cancelClientSubs :: "goerr \<Rightarrow> (string \<times> nat) list \<Rightarrow> reqst \<Rightarrow> reqst" where
  "cancelClientSubs err [] s = s"
| "cancelClientSubs err ((i, sub) # rest) s =
     cancelClientSubs err rest
       (s\<lparr>clientSubs := map_delete i (clientSubs s), sub_events := sub_events s @ [SubClose sub err]\<rparr>)"

definition cancelAllRequests :: "goerr \<Rightarrow> nat option \<Rightarrow> reqst \<Rightarrow> reqst option" where
  "cancelAllRequests err inflightReq s =
     do { s1 \<leftarrow> cancelOps err (respWait s) (case inflightReq of Some rq \<Rightarrow> [rq] | None \<Rightarrow> []) s;
          Some (cancelClientSubs err (clientSubs s1) s1) }"

section \<open>Responses\<close>

text \<open>json.Unmarshal of the result into the string op.sub.subid. A response without an error has a
  result.\<close>

definition unmarshal_subid :: "raw_message \<Rightarrow> string \<Rightarrow> goerr + string" where
  "unmarshal_subid raw old =
     (case raw of
        None \<Rightarrow> Inl (SyntaxErr ''unexpected end of JSON input'')
      | Some (JStr lit) \<Rightarrow> Inr (unquote_string lit)
      | Some JNull \<Rightarrow> Inr old
      | Some j \<Rightarrow> Inl (PlainErr (''json: cannot unmarshal '' @ json_kind j @ '' into Go value of type string'')))"

definition resolve_sub :: "jsonrpcMessage \<Rightarrow> nat \<Rightarrow> nat \<Rightarrow> reqst \<Rightarrow> reqst" where
  "resolve_sub msg rq sub s =
     (case Error msg of
        Some e \<Rightarrow> upd_op rq (\<lambda>x. x\<lparr>op_err := Some (JsonErr e)\<rparr>) s
      | None \<Rightarrow>
          (case unmarshal_subid (Result msg) (subids s sub) of
             Inl err \<Rightarrow> upd_op rq (\<lambda>x. x\<lparr>op_err := Some err\<rparr>) s
           | Inr subid \<Rightarrow>
               (upd_op rq (\<lambda>x. x\<lparr>op_err := None\<rparr>) s)
                 \<lparr>subids := (subids s)(sub := subid), sub_events := sub_events s @ [SubRun sub],
                  clientSubs := map_set subid sub (clientSubs s)\<rparr>))"

text \<open>handleResp; the list is resolvedops. \<^const>\<open>None\<close> is a send on op.resp that panics or blocks.\<close>

definition handleResp :: "jsonrpcMessage list \<Rightarrow> jsonrpcMessage \<Rightarrow> nat list \<times> reqst \<Rightarrow> (nat list \<times> reqst) option" where
  "handleResp batch msg rs =
     (case rs of (resolved, s) \<Rightarrow>
      (case map_get (respWait s) (raw_string (ID msg)) of
         None \<Rightarrow> Some (resolved, s)
       | Some rq \<Rightarrow>
           (let s1 = s\<lparr>respWait := map_delete (raw_string (ID msg)) (respWait s)\<rparr>;
                s2 = (case op_sub (ops s1 ! rq) of None \<Rightarrow> s1 | Some sub \<Rightarrow> resolve_sub msg rq sub s1)
            in if op_hadResponse (ops s2 ! rq) then Some (resolved @ [rq], s2)
               else do { ch \<leftarrow> chan_send batch (op_resp (ops s2 ! rq));
                         Some (resolved @ [rq], upd_op rq (\<lambda>x. x\<lparr>op_hadResponse := True, op_resp := ch\<rparr>) s2) })))"

text \<open>json.Unmarshal of the params into a subscriptionResult; a subscription member that is no
  string is a type error, and so are params that are no object.\<close>

definition decode_result_member :: "string \<times> json \<Rightarrow> (string \<times> raw_message \<times> bool) \<Rightarrow> (string \<times> raw_message \<times> bool)" where
  "decode_result_member kv r =
     (case r of (subid, res, bad) \<Rightarrow>
      if field_matches (fst kv) ''subscription''
      then (decode_string subid (snd kv), res, bad \<or> \<not> (snd kv = JNull \<or> json_kind (snd kv) = ''string''))
      else if field_matches (fst kv) ''result'' then (subid, Some (snd kv), bad)
      else r)"

definition decode_subscriptionResult :: "raw_message \<Rightarrow> (string \<times> raw_message) option" where
  "decode_subscriptionResult raw =
     (case raw of
        Some JNull \<Rightarrow> Some ('''', None)
      | Some (JObj _ kvs) \<Rightarrow>
          (case fold decode_result_member kvs ('''', None, False) of
             (subid, res, bad) \<Rightarrow> if bad then None else Some (subid, res))
      | _ \<Rightarrow> None)"

definition handleSubscriptionResult :: "jsonrpcMessage \<Rightarrow> reqst \<Rightarrow> reqst" where
  "handleSubscriptionResult msg s =
     (case decode_subscriptionResult (Params msg) of
        None \<Rightarrow> s
      | Some (subid, res) \<Rightarrow>
          (case map_get (clientSubs s) subid of
             None \<Rightarrow> s
           | Some sub \<Rightarrow> s\<lparr>sub_events := sub_events s @ [SubDeliver sub res]\<rparr>))"

text \<open>The loop over the messages; the first component collects what handleCall is called with.\<close>

fun handleMessages ::
    "jsonrpcMessage list \<Rightarrow> jsonrpcMessage list \<Rightarrow> jsonrpcMessage list \<times> nat list \<times> reqst \<Rightarrow>
     (jsonrpcMessage list \<times> nat list \<times> reqst) option" where
  "handleMessages batch [] acc = Some acc"
| "handleMessages batch (msg # msgs) (calls, resolved, s) =
     (if isResponse msg then
        do { (resolved', s') \<leftarrow> handleResp batch msg (resolved, s); handleMessages batch msgs (calls, resolved', s') }
      else if isNotification msg \<and> strings_HasSuffix (Method msg) notificationMethodSuffix then
        handleMessages batch msgs (calls, resolved, handleSubscriptionResult msg s)
      else handleMessages batch msgs (calls @ [msg], resolved, s))"

definition handleResponses :: "jsonrpcMessage list \<Rightarrow> reqst \<Rightarrow> (jsonrpcMessage list \<times> reqst) option" where
  "handleResponses batch s =
     do { (calls, resolved, s') \<leftarrow> handleMessages batch batch ([], [], s);
          Some (calls, fold removeRequestOp resolved s') }"

section \<open>Entry points\<close>

text \<open>What startCallProc is called with.\<close>

datatype call_proc =
    ProcCall jsonrpcMessage
  | ProcBatch "jsonrpcMessage list"
  | ProcEmptyBatch
  | ProcBatchTooLarge "jsonrpcMessage list"

definition handleMsg :: "jsonrpcMessage \<Rightarrow> reqst \<Rightarrow> (call_proc list \<times> reqst) option" where
  "handleMsg msg s =
     do { (calls, s') \<leftarrow> handleResponses [msg] s; Some (map ProcCall calls, s') }"

definition handleBatch :: "handlercfg \<Rightarrow> jsonrpcMessage list \<Rightarrow> reqst \<Rightarrow> (call_proc list \<times> reqst) option" where
  "handleBatch cfg msgs s =
     (if msgs = [] then Some ([ProcEmptyBatch], s)
      else if batchRequestLimit cfg \<noteq> 0 \<and> batchRequestLimit cfg < int (length msgs) then Some ([ProcBatchTooLarge msgs], s)
      else do { (calls, s') \<leftarrow> handleResponses msgs s;
                Some (if calls = [] then [] else [ProcBatch calls], s') })"

text \<open>What the goroutines of the two rejected kinds of batch write.\<close>

definition reject_batch :: "call_proc \<Rightarrow> hstate \<Rightarrow> hstate" where
  "reject_batch p h =
     (case p of
        ProcEmptyBatch \<Rightarrow> snd (writeJSON (WMsg (errorMessage (InvalidRequestError ''empty batch''))) True h)
      | ProcBatchTooLarge msgs \<Rightarrow> snd (writeJSON (WBatch (respondWithBatchTooLarge msgs)) True h)
      | _ \<Rightarrow> h)"

text \<open>handler.close, once the call goroutines have finished.\<close>

definition handler_close :: "goerr \<Rightarrow> nat option \<Rightarrow> reqst \<times> hstate \<Rightarrow> (reqst \<times> hstate) option" where
  "handler_close err inflightReq st =
     do { s \<leftarrow> cancelAllRequests err inflightReq (fst st);
          h \<leftarrow> cancelServerSubscriptions err (snd st);
          Some (s, h) }"

section \<open>The interface of the table\<close>

text \<open>What a table of pending requests promises: an operation that is registered waits under all
  its ids, one that is removed under none, and nothing else changes.\<close>

locale pending_table =
  fixes register :: "'op \<Rightarrow> 's \<Rightarrow> 's" and unregister :: "'op \<Rightarrow> 's \<Rightarrow> 's"
    and waiting :: "'s \<Rightarrow> 'id \<Rightarrow> 'op option" and ids_of :: "'s \<Rightarrow> 'op \<Rightarrow> 'id set"
  assumes waiting_register: "waiting (register x s) i = (if i \<in> ids_of s x then Some x else waiting s i)"
    and waiting_unregister: "waiting (unregister x s) i = (if i \<in> ids_of s x then None else waiting s i)"
    and ids_register: "ids_of (register x s) y = ids_of s y"
    and ids_unregister: "ids_of (unregister x s) y = ids_of s y"
begin

lemma register_unregister:
  assumes "\<And>i. i \<in> ids_of s x \<Longrightarrow> waiting s i = None"
  shows "waiting (unregister x (register x s)) = waiting s"
  using assms by (auto simp: fun_eq_iff waiting_register waiting_unregister ids_register)

lemma register_disjoint:
  assumes "ids_of s x \<inter> ids_of s y = {}" and "i \<in> ids_of s x"
  shows "waiting (register y (register x s)) i = Some x" and "waiting (unregister y (register x s)) i = Some x"
  using assms by (auto simp: waiting_register waiting_unregister ids_register)

lemma ids_unregister_all: "ids_of (fold unregister xs s) y = ids_of s y"
  by (induction xs arbitrary: s) (simp_all add: ids_unregister)

lemma waiting_unregister_all:
  "waiting (fold unregister xs s) i = (if \<exists>x \<in> set xs. i \<in> ids_of s x then None else waiting s i)"
  by (induction xs arbitrary: s) (auto simp: waiting_unregister ids_unregister)

end

definition wait_op :: "reqst \<Rightarrow> string \<Rightarrow> nat option" where
  "wait_op s i = map_get (respWait s) i"

definition ids_of_op :: "reqst \<Rightarrow> nat \<Rightarrow> string set" where
  "ids_of_op s rq = set (op_ids (ops s ! rq))"

interpretation requests: pending_table addRequestOp removeRequestOp wait_op ids_of_op
  by unfold_locales (simp_all add: addRequestOp_def removeRequestOp_def wait_op_def ids_of_op_def map_get_set_all map_get_delete_all)

section \<open>The invariant of the table\<close>

text \<open>An operation in the table is listed under one of its own ids and its channel is open. It is
  empty as long as there was no response; an operation that had one can come back into the table, when the
  client reconnects while it is being sent.\<close>

definition op_pending :: "requestOp \<Rightarrow> bool" where
  "op_pending x \<longleftrightarrow> \<not> chclosed (op_resp x) \<and> (op_hadResponse x \<or> chan_fresh (op_resp x))"

definition rinv :: "reqst \<Rightarrow> bool" where
  "rinv s \<longleftrightarrow>
     wf_map (respWait s) \<and> wf_map (clientSubs s) \<and>
     (\<forall>i rq. wait_op s i = Some rq \<longrightarrow> rq < length (ops s) \<and> i \<in> ids_of_op s rq \<and> op_pending (ops s ! rq))"

lemma rinvD:
  assumes "rinv s"
  shows "wf_map (respWait s)" "wf_map (clientSubs s)"
    and "\<And>i rq. wait_op s i = Some rq \<Longrightarrow> rq < length (ops s)"
    and "\<And>i rq. wait_op s i = Some rq \<Longrightarrow> i \<in> ids_of_op s rq"
    and "\<And>i rq. wait_op s i = Some rq \<Longrightarrow> op_pending (ops s ! rq)"
  using assms by (auto simp: rinv_def)

lemma rinv_new [simp]: "rinv (new_reqst os)"
  by (simp add: rinv_def new_reqst_def wait_op_def)

lemma addRequestOp_rinv [inv_intros]:
  assumes "rinv s" and "rq < length (ops s)" and "op_pending (ops s ! rq)"
  shows "rinv (addRequestOp rq s)"
proof -
  have "wf_map (respWait (addRequestOp rq s))" "wf_map (clientSubs (addRequestOp rq s))" "ops (addRequestOp rq s) = ops s"
    using rinvD(1,2) [OF assms(1)] by (simp_all add: addRequestOp_def)
  then show ?thesis
    using assms rinvD [OF assms(1)] unfolding rinv_def
    by (auto simp: requests.waiting_register requests.ids_register split: if_splits)
qed

lemma removeRequestOp_rinv [inv_intros]:
  assumes "rinv s"
  shows "rinv (removeRequestOp rq s)"
proof -
  have "wf_map (respWait (removeRequestOp rq s))" "wf_map (clientSubs (removeRequestOp rq s))" "ops (removeRequestOp rq s) = ops s"
    using rinvD(1,2) [OF assms(1)] by (simp_all add: removeRequestOp_def)
  then show ?thesis
    using rinvD [OF assms(1)] unfolding rinv_def
    by (auto simp: requests.waiting_unregister requests.ids_unregister split: if_splits)
qed

section \<open>Responses\<close>

text \<open>The operations the responses among some messages are for.\<close>

definition hit :: "reqst \<Rightarrow> jsonrpcMessage list \<Rightarrow> nat set" where
  "hit s msgs = {rq. \<exists>msg \<in> set msgs. isResponse msg \<and> wait_op s (raw_string (ID msg)) = Some rq}"

definition is_call_msg :: "jsonrpcMessage \<Rightarrow> bool" where
  "is_call_msg msg \<longleftrightarrow>
     \<not> isResponse msg \<and> \<not> (isNotification msg \<and> strings_HasSuffix (Method msg) notificationMethodSuffix)"

text \<open>An operation after the response.\<close>

definition got :: "jsonrpcMessage list \<Rightarrow> requestOp \<Rightarrow> requestOp \<Rightarrow> bool" where
  "got batch old new \<longleftrightarrow>
     op_hadResponse new \<and> op_resp new = (if op_hadResponse old then op_resp old else (op_resp old)\<lparr>chbuf := [batch]\<rparr>) \<and>
     op_ids new = op_ids old \<and> op_sub new = op_sub old \<and> (op_sub old = None \<longrightarrow> op_err new = op_err old)"

text \<open>The state of the loop after the messages \<open>pre\<close>, compared with the state \<open>s0\<close> before it.\<close>

definition resp_loop :: "reqst \<Rightarrow> jsonrpcMessage list \<Rightarrow> jsonrpcMessage list \<Rightarrow> nat list \<Rightarrow> reqst \<Rightarrow> bool" where
  "resp_loop s0 batch pre resolved s \<longleftrightarrow>
     wf_map (respWait s) \<and> wf_map (clientSubs s) \<and> length (ops s) = length (ops s0) \<and> set resolved = hit s0 pre \<and>
     (\<forall>i. wait_op s i = (if \<exists>msg \<in> set pre. isResponse msg \<and> raw_string (ID msg) = i then None else wait_op s0 i)) \<and>
     (\<forall>rq \<in> hit s0 pre. got batch (ops s0 ! rq) (ops s ! rq)) \<and>
     (\<forall>rq. rq \<notin> hit s0 pre \<longrightarrow> ops s ! rq = ops s0 ! rq)"

lemma resp_loop_init: "rinv s \<Longrightarrow> resp_loop s batch [] [] s"
  by (simp add: resp_loop_def rinv_def hit_def)

lemma hit_snoc:
  "hit s (pre @ [msg]) = hit s pre \<union> (if isResponse msg then set_option (wait_op s (raw_string (ID msg))) else {})"
  by (auto simp: hit_def split: if_splits)

lemma resp_loop_skip:
  assumes "resp_loop s0 batch pre resolved s" and "\<not> isResponse msg"
    and "ops s' = ops s" "respWait s' = respWait s" "clientSubs s' = clientSubs s"
  shows "resp_loop s0 batch (pre @ [msg]) resolved s'"
  using assms by (auto simp: resp_loop_def hit_snoc wait_op_def)

lemma handleSubscriptionResult_fields [simp]:
  "ops (handleSubscriptionResult msg s) = ops s" "respWait (handleSubscriptionResult msg s) = respWait s"
  "clientSubs (handleSubscriptionResult msg s) = clientSubs s"
  by (auto simp: handleSubscriptionResult_def split: option.splits)

lemma resolve_sub_fields:
  assumes "rq < length (ops s)"
  shows "respWait (resolve_sub msg rq sub s) = respWait s" "length (ops (resolve_sub msg rq sub s)) = length (ops s)"
    "wf_map (clientSubs s) \<Longrightarrow> wf_map (clientSubs (resolve_sub msg rq sub s))"
    "\<exists>e. ops (resolve_sub msg rq sub s) = (ops s)[rq := (ops s ! rq)\<lparr>op_err := e\<rparr>]"
  using assms by (auto simp: resolve_sub_def upd_op_def split: option.split sum.split)

text \<open>One response, in terms of what it does to the store.\<close>

lemma handleResp_Some:
  assumes "map_get (respWait s) (raw_string (ID msg)) = Some rq" and "rq < length (ops s)"
    and "op_hadResponse (ops s ! rq) \<or> chan_fresh (op_resp (ops s ! rq))"
  shows "\<exists>x s'. handleResp batch msg (resolved, s) = Some (resolved @ [rq], s') \<and>
    ops s' = (ops s)[rq := x] \<and> respWait s' = map_delete (raw_string (ID msg)) (respWait s) \<and>
    (wf_map (clientSubs s) \<longrightarrow> wf_map (clientSubs s')) \<and>
    op_hadResponse x \<and> op_ids x = op_ids (ops s ! rq) \<and> op_sub x = op_sub (ops s ! rq) \<and>
    (op_sub (ops s ! rq) = None \<longrightarrow> op_err x = op_err (ops s ! rq)) \<and>
    op_resp x = (if op_hadResponse (ops s ! rq) then op_resp (ops s ! rq) else (op_resp (ops s ! rq))\<lparr>chbuf := [batch]\<rparr>)"
proof -
  let ?s1 = "s\<lparr>respWait := map_delete (raw_string (ID msg)) (respWait s)\<rparr>"
  define s2 where "s2 = (case op_sub (ops s ! rq) of None \<Rightarrow> ?s1 | Some sub \<Rightarrow> resolve_sub msg rq sub ?s1)"
  have "\<exists>e. ops s2 = (ops s)[rq := (ops s ! rq)\<lparr>op_err := e\<rparr>] \<and> (op_sub (ops s ! rq) = None \<longrightarrow> e = op_err (ops s ! rq))"
  proof (cases "op_sub (ops s ! rq)")
    case None
    then show ?thesis by (intro exI [of _ "op_err (ops s ! rq)"]) (simp add: s2_def)
  next
    case (Some sub)
    then show ?thesis using resolve_sub_fields(4) [of rq ?s1 msg sub] assms(2) by (simp add: s2_def)
  qed
  then obtain e where ee: "ops s2 = (ops s)[rq := (ops s ! rq)\<lparr>op_err := e\<rparr>] \<and> (op_sub (ops s ! rq) = None \<longrightarrow> e = op_err (ops s ! rq))"
    by (elim exE)
  note e = conjunct1 [OF ee] and err = conjunct2 [OF ee]
  have f: "respWait s2 = respWait ?s1" "wf_map (clientSubs s) \<Longrightarrow> wf_map (clientSubs s2)"
    using resolve_sub_fields(1,3) [of rq ?s1 msg] assms(2) by (simp_all add: s2_def split: option.split)
  let ?x = "(ops s ! rq)\<lparr>op_err := e\<rparr>"
  have nth: "ops s2 ! rq = ?x" using e assms(2) by simp
  show ?thesis
  proof (cases "op_hadResponse (ops s ! rq)")
    case True
    have "handleResp batch msg (resolved, s) = Some (resolved @ [rq], s2)"
      using assms(1) nth True by (simp add: handleResp_def Let_def s2_def [symmetric])
    then show ?thesis using e err f True by (intro exI [of _ ?x] exI [of _ s2]) simp
  next
    case False
    then have fresh: "chan_fresh (op_resp (ops s ! rq))" using assms(3) by simp
    let ?y = "?x\<lparr>op_hadResponse := True, op_resp := (op_resp (ops s ! rq))\<lparr>chbuf := [batch]\<rparr>\<rparr>"
    let ?s3 = "s2\<lparr>ops := (ops s2)[rq := ?y]\<rparr>"
    have "handleResp batch msg (resolved, s) = Some (resolved @ [rq], ?s3)"
      using assms(1) nth False chan_send_fresh [OF fresh, of batch]
      by (simp add: handleResp_def Let_def s2_def [symmetric] upd_op_def)
    then show ?thesis using e err f False by (intro exI [of _ ?y] exI [of _ ?s3]) simp
  qed
qed

lemma handleResp_loop:
  assumes inv: "rinv s0" and l: "resp_loop s0 batch pre resolved s" and r: "isResponse msg"
  shows "\<exists>resolved' s'. handleResp batch msg (resolved, s) = Some (resolved', s') \<and>
    resp_loop s0 batch (pre @ [msg]) resolved' s'"
proof -
  let ?i = "raw_string (ID msg)"
  have w: "wait_op s i = (if \<exists>m \<in> set pre. isResponse m \<and> raw_string (ID m) = i then None else wait_op s0 i)" for i
    using l by (simp add: resp_loop_def)
  show ?thesis
  proof (cases "wait_op s ?i")
    case None
    have "set_option (wait_op s0 ?i) \<subseteq> hit s0 pre"
    proof
      fix rq assume "rq \<in> set_option (wait_op s0 ?i)"
      then have "wait_op s0 ?i = Some rq" by (cases "wait_op s0 ?i") auto
      moreover from this obtain m where "m \<in> set pre" "isResponse m" "raw_string (ID m) = ?i"
        using None w [of ?i] by (auto split: if_splits)
      ultimately show "rq \<in> hit s0 pre" unfolding hit_def by (simp, metis)
    qed
    then have "hit s0 (pre @ [msg]) = hit s0 pre" using r by (auto simp: hit_snoc)
    moreover have "wait_op s i = (if \<exists>m \<in> set (pre @ [msg]). isResponse m \<and> raw_string (ID m) = i then None else wait_op s0 i)" for i
      using w [of i] None r by (auto split: if_splits)
    ultimately have "resp_loop s0 batch (pre @ [msg]) resolved s" using l unfolding resp_loop_def by presburger
    then show ?thesis using None by (simp add: handleResp_def wait_op_def)
  next
    case (Some rq)
    have ns: "\<not> (\<exists>m \<in> set pre. isResponse m \<and> raw_string (ID m) = ?i)" and s0: "wait_op s0 ?i = Some rq"
      using Some w [of ?i] by (auto split: if_splits)
    have len: "rq < length (ops s)" using rinvD(3) [OF inv s0] l by (simp add: resp_loop_def)
    have pend: "op_pending (ops s0 ! rq)" by (rule rinvD(5) [OF inv s0])
    have old: "if rq \<in> hit s0 pre then got batch (ops s0 ! rq) (ops s ! rq) else ops s ! rq = ops s0 ! rq"
      using l by (simp add: resp_loop_def)
    have ready: "op_hadResponse (ops s ! rq) \<or> chan_fresh (op_resp (ops s ! rq))"
      using old pend by (auto simp: got_def op_pending_def split: if_splits)
    obtain x s' where H: "handleResp batch msg (resolved, s) = Some (resolved @ [rq], s') \<and>
        ops s' = (ops s)[rq := x] \<and> respWait s' = map_delete ?i (respWait s) \<and>
        (wf_map (clientSubs s) \<longrightarrow> wf_map (clientSubs s')) \<and>
        op_hadResponse x \<and> op_ids x = op_ids (ops s ! rq) \<and> op_sub x = op_sub (ops s ! rq) \<and>
        (op_sub (ops s ! rq) = None \<longrightarrow> op_err x = op_err (ops s ! rq)) \<and>
        op_resp x = (if op_hadResponse (ops s ! rq) then op_resp (ops s ! rq) else (op_resp (ops s ! rq))\<lparr>chbuf := [batch]\<rparr>)"
      using handleResp_Some [OF Some [unfolded wait_op_def] len ready, of batch resolved] by (elim exE)
    have got: "got batch (ops s0 ! rq) x"
      using old pend H by (auto simp: got_def op_pending_def split: if_splits)
    have hit': "hit s0 (pre @ [msg]) = insert rq (hit s0 pre)" using r s0 by (auto simp: hit_snoc)
    have w': "wait_op s' i = (if \<exists>m \<in> set (pre @ [msg]). isResponse m \<and> raw_string (ID m) = i then None else wait_op s0 i)" for i
      using w [of i] r H by (auto simp: wait_op_def map_get_delete)
    have "resp_loop s0 batch (pre @ [msg]) (resolved @ [rq]) s'"
      using l H got len w' unfolding resp_loop_def hit'
      by (auto simp: nth_list_update)
    then show ?thesis using H by (intro exI [of _ "resolved @ [rq]"] exI [of _ s']) simp
  qed
qed

lemma handleMessages_loop:
  assumes "rinv s0" and "resp_loop s0 batch pre resolved s"
  shows "\<exists>resolved' s'. handleMessages batch msgs (calls, resolved, s) = Some (calls @ filter is_call_msg msgs, resolved', s') \<and>
    resp_loop s0 batch (pre @ msgs) resolved' s'"
  using assms(2)
proof (induction msgs arbitrary: pre calls resolved s)
  case (Cons msg msgs)
  show ?case
  proof (cases "isResponse msg")
    case True
    obtain resolved1 s1 where "handleResp batch msg (resolved, s) = Some (resolved1, s1)"
      "resp_loop s0 batch (pre @ [msg]) resolved1 s1"
      using handleResp_loop [OF assms(1) Cons.prems True] by blast
    then show ?thesis using Cons.IH [of "pre @ [msg]" resolved1 s1 calls] True by (simp add: is_call_msg_def)
  next
    case False
    then show ?thesis
      using Cons.IH [of "pre @ [msg]" resolved "handleSubscriptionResult msg s" calls] Cons.IH [of "pre @ [msg]" resolved s "calls @ [msg]"]
        resp_loop_skip [OF Cons.prems False] by (simp add: is_call_msg_def)
  qed
qed simp

lemma fold_removeRequestOp_fields [simp]:
  "ops (fold removeRequestOp rqs s) = ops s" "clientSubs (fold removeRequestOp rqs s) = clientSubs s"
  "wf_map (respWait s) \<Longrightarrow> wf_map (respWait (fold removeRequestOp rqs s))"
  by (induction rqs arbitrary: s) (simp_all add: removeRequestOp_def)

text \<open>The tables after handleResponses.\<close>

definition responses_done :: "jsonrpcMessage list \<Rightarrow> reqst \<Rightarrow> reqst \<Rightarrow> bool" where
  "responses_done batch s s' \<longleftrightarrow>
     rinv s' \<and> length (ops s') = length (ops s) \<and>
     (\<forall>i. wait_op s' i = (if \<exists>rq \<in> hit s batch. i \<in> ids_of_op s rq then None else wait_op s i)) \<and>
     (\<forall>rq. if rq \<in> hit s batch then got batch (ops s ! rq) (ops s' ! rq) else ops s' ! rq = ops s ! rq)"

lemma handleResponses_ok:
  assumes "rinv s"
  shows "\<exists>s'. handleResponses batch s = Some (filter is_call_msg batch, s') \<and> responses_done batch s s'"
proof -
  obtain resolved s1 where m: "handleMessages batch batch ([], [], s) = Some (filter is_call_msg batch, resolved, s1)"
    and l: "resp_loop s batch batch resolved s1"
    using handleMessages_loop [OF assms resp_loop_init [OF assms], of batch batch "[]"] by auto
  let ?s' = "fold removeRequestOp resolved s1"
  have ids: "ids_of_op s1 rq = ids_of_op s rq" for rq
    using l by (cases "rq \<in> hit s batch") (auto simp: resp_loop_def ids_of_op_def got_def)
  have sub: "i \<in> ids_of_op s rq \<and> rq \<in> hit s batch" if "m \<in> set batch" "isResponse m" "raw_string (ID m) = i" "wait_op s i = Some rq" for m i rq
    using that rinvD(4) [OF assms] by (auto simp: hit_def)
  have w: "wait_op ?s' i = (if \<exists>rq \<in> hit s batch. i \<in> ids_of_op s rq then None else wait_op s i)" for i
  proof -
    have "wait_op ?s' i = (if \<exists>rq \<in> hit s batch. i \<in> ids_of_op s rq then None else wait_op s1 i)"
      using l unfolding requests.waiting_unregister_all ids by (simp add: resp_loop_def)
    moreover have "wait_op s1 i = (if \<exists>m \<in> set batch. isResponse m \<and> raw_string (ID m) = i then None else wait_op s i)"
      using l by (simp add: resp_loop_def)
    ultimately show ?thesis using sub by (cases "wait_op s i") auto
  qed
  have o: "rq \<in> hit s batch \<Longrightarrow> got batch (ops s ! rq) (ops ?s' ! rq)" "rq \<notin> hit s batch \<Longrightarrow> ops ?s' ! rq = ops s ! rq" for rq
    using l by (auto simp: resp_loop_def)
  have "rinv ?s'"
    unfolding rinv_def
  proof (intro conjI allI impI)
    fix i rq assume i: "wait_op ?s' i = Some rq"
    then have si: "wait_op s i = Some rq" and "rq \<notin> hit s batch"
      using w [of i] rinvD(4) [OF assms] by (auto split: if_splits)
    then have "ops ?s' ! rq = ops s ! rq" by (simp add: o(2) del: fold_removeRequestOp_fields)
    with si show "rq < length (ops ?s')" "i \<in> ids_of_op ?s' rq" "op_pending (ops ?s' ! rq)"
      using rinvD(3-5) [OF assms si] l by (simp_all add: resp_loop_def ids_of_op_def)
  qed (use l in \<open>simp_all add: resp_loop_def\<close>)
  moreover have "handleResponses batch s = Some (filter is_call_msg batch, ?s')"
    using m by (simp add: handleResponses_def)
  moreover have "length (ops ?s') = length (ops s)" using l by (simp add: resp_loop_def)
  ultimately show ?thesis unfolding responses_done_def using w o by auto
qed

section \<open>Cancelling\<close>

definition cancelled_op :: "goerr \<Rightarrow> requestOp \<Rightarrow> requestOp" where
  "cancelled_op err x = x\<lparr>op_err := Some err, op_resp := (op_resp x)\<lparr>chclosed := True\<rparr>\<rparr>"

definition registered :: "reqst \<Rightarrow> nat \<Rightarrow> bool" where
  "registered s rq \<longleftrightarrow> (\<exists>i. wait_op s i = Some rq)"

lemma cancelOps_ok:
  assumes "\<And>i rq. (i, rq) \<in> set rest \<Longrightarrow> rq < length (ops s)"
    and "\<And>i rq. (i, rq) \<in> set rest \<Longrightarrow> rq \<notin> set d \<Longrightarrow> \<not> chclosed (op_resp (ops s ! rq))"
  shows "\<exists>s'. cancelOps err rest d s = Some s' \<and> respWait s' = map_delete_all (map fst rest) (respWait s) \<and>
    clientSubs s' = clientSubs s \<and> sub_events s' = sub_events s \<and> length (ops s') = length (ops s) \<and>
    (\<forall>rq. ops s' ! rq = (if rq \<in> snd ` set rest \<and> rq \<notin> set d then cancelled_op err (ops s ! rq) else ops s ! rq))"
  using assms
proof (induction rest arbitrary: d s)
  case Nil
  then show ?case by (simp add: map_delete_all_def)
next
  case (Cons e rest)
  obtain i rq where e: "e = (i, rq)" by fastforce
  let ?s1 = "s\<lparr>respWait := map_delete i (respWait s)\<rparr>"
  have len: "rq < length (ops s)" using Cons.prems(1) [of i rq] e by simp
  show ?case
  proof (cases "rq \<in> set d")
    case True
    have "\<exists>s'. cancelOps err rest d ?s1 = Some s' \<and> respWait s' = map_delete_all (map fst rest) (respWait ?s1) \<and>
        clientSubs s' = clientSubs ?s1 \<and> sub_events s' = sub_events ?s1 \<and> length (ops s') = length (ops ?s1) \<and>
        (\<forall>rq. ops s' ! rq = (if rq \<in> snd ` set rest \<and> rq \<notin> set d then cancelled_op err (ops ?s1 ! rq) else ops ?s1 ! rq))"
      by (rule Cons.IH) (use Cons.prems in auto)
    then show ?thesis using True e by (auto simp: map_delete_all_def)
  next
    case False
    let ?s2 = "?s1\<lparr>ops := (ops s)[rq := cancelled_op err (ops s ! rq)]\<rparr>"
    have "\<not> chclosed (op_resp (ops s ! rq))" using Cons.prems(2) [of i rq] e False by simp
    then have step: "cancelOps err (e # rest) d s = cancelOps err rest (rq # d) ?s2"
      using False by (simp add: e chan_close_open upd_op_def cancelled_op_def)
    have "\<exists>s'. cancelOps err rest (rq # d) ?s2 = Some s' \<and> respWait s' = map_delete_all (map fst rest) (respWait ?s2) \<and>
        clientSubs s' = clientSubs ?s2 \<and> sub_events s' = sub_events ?s2 \<and> length (ops s') = length (ops ?s2) \<and>
        (\<forall>q. ops s' ! q = (if q \<in> snd ` set rest \<and> q \<notin> set (rq # d) then cancelled_op err (ops ?s2 ! q) else ops ?s2 ! q))"
      by (rule Cons.IH) (use Cons.prems in \<open>auto simp: nth_list_update\<close>)
    then obtain s' where s': "cancelOps err rest (rq # d) ?s2 = Some s'" "respWait s' = map_delete_all (map fst rest) (respWait ?s2)"
        "clientSubs s' = clientSubs s" "sub_events s' = sub_events s" "length (ops s') = length (ops s)"
        "\<And>q. ops s' ! q = (if q \<in> snd ` set rest \<and> q \<notin> set (rq # d) then cancelled_op err (ops ?s2 ! q) else ops ?s2 ! q)"
      by auto
    have "ops s' ! q = (if q \<in> snd ` set (e # rest) \<and> q \<notin> set d then cancelled_op err (ops s ! q) else ops s ! q)" for q
      using s'(6) [of q] len False e by (cases "q = rq") auto
    moreover have "respWait s' = map_delete_all (map fst (e # rest)) (respWait s)" using s'(2) e by (simp add: map_delete_all_def)
    ultimately show ?thesis unfolding step using s'(1,3-5) by blast
  qed
qed

lemma cancelClientSubs_eq:
  "cancelClientSubs err rest s =
     s\<lparr>clientSubs := map_delete_all (map fst rest) (clientSubs s),
       sub_events := sub_events s @ map (\<lambda>kv. SubClose (snd kv) err) rest\<rparr>"
  by (induction rest arbitrary: s) (auto simp: map_delete_all_def)

lemma registered_iff: "wf_map (respWait s) \<Longrightarrow> registered s rq \<longleftrightarrow> rq \<in> snd ` set (respWait s)"
  by (force simp: registered_def wait_op_def wf_map_def image_iff)

lemma cancelAllRequests_ok:
  assumes "rinv s"
  obtains s' where "cancelAllRequests err inflight s = Some s'" "respWait s' = []" "clientSubs s' = []"
    "length (ops s') = length (ops s)"
    "\<And>rq. ops s' ! rq = (if registered s rq \<and> inflight \<noteq> Some rq then cancelled_op err (ops s ! rq) else ops s ! rq)"
    "sub_events s' = sub_events s @ map (\<lambda>kv. SubClose (snd kv) err) (clientSubs s)"
proof -
  let ?d = "case inflight of Some rq \<Rightarrow> [rq] | None \<Rightarrow> []"
  have mem: "wait_op s i = Some rq" if "(i, rq) \<in> set (respWait s)" for i rq
    using that rinvD(1) [OF assms] by (simp add: wait_op_def wf_map_def)
  have lt: "rq < length (ops s)" and open_: "\<not> chclosed (op_resp (ops s ! rq))" if "(i, rq) \<in> set (respWait s)" for i rq
    using rinvD(3,5) [OF assms mem [OF that]] by (simp_all add: op_pending_def chan_fresh_def)
  have "\<exists>s1. cancelOps err (respWait s) ?d s = Some s1 \<and> respWait s1 = map_delete_all (map fst (respWait s)) (respWait s) \<and>
    clientSubs s1 = clientSubs s \<and> sub_events s1 = sub_events s \<and> length (ops s1) = length (ops s) \<and>
    (\<forall>rq. ops s1 ! rq = (if rq \<in> snd ` set (respWait s) \<and> rq \<notin> set ?d then cancelled_op err (ops s ! rq) else ops s ! rq))"
    by (rule cancelOps_ok) (use lt open_ in blast)+
  then obtain s1 where s1: "cancelOps err (respWait s) ?d s = Some s1"
      "respWait s1 = []" "clientSubs s1 = clientSubs s" "sub_events s1 = sub_events s" "length (ops s1) = length (ops s)"
      "\<And>rq. ops s1 ! rq = (if rq \<in> snd ` set (respWait s) \<and> rq \<notin> set ?d then cancelled_op err (ops s ! rq) else ops s ! rq)"
    unfolding map_delete_all_keys by blast
  have d: "rq \<notin> set ?d \<longleftrightarrow> inflight \<noteq> Some rq" for rq by (auto split: option.split)
  let ?s' = "cancelClientSubs err (clientSubs s1) s1"
  have "ops ?s' ! rq = (if registered s rq \<and> inflight \<noteq> Some rq then cancelled_op err (ops s ! rq) else ops s ! rq)" for rq
    using s1(6) [of rq] registered_iff [OF rinvD(1) [OF assms]] d by (simp add: cancelClientSubs_eq)
  then show ?thesis
    using s1 by (intro that [of ?s']) (simp_all add: cancelAllRequests_def cancelClientSubs_eq)
qed

text \<open>A table with one call that waits under the id 1, for the witnesses.\<close>

definition one_request :: reqst where
  "one_request = addRequestOp 0 (new_reqst [new_requestOp [''1''] None])"

definition one_response :: jsonrpcMessage where
  "one_response = new_jsonrpcMessage\<lparr>Version := vsn, ID := Some (JNum ''1''), Result := Some JNull\<rparr>"

lemma one_request_rinv: "rinv one_request"
  unfolding one_request_def
  by (rule addRequestOp_rinv) (simp_all, simp_all add: new_reqst_def new_requestOp_def op_pending_def make_chan_def chan_fresh_def)

lemma one_request_waits: "map_get (respWait one_request) ''1'' = Some 0" "ops one_request = [new_requestOp [''1''] None]"
  by (simp_all add: one_request_def addRequestOp_def new_reqst_def new_requestOp_def map_get_set_all)

lemma one_response_class: "isResponse one_response" "raw_string (ID one_response) = ''1''"
  by (simp_all add: one_response_def isResponse_def hasValidVersion_def hasValidID_def raw_string_def new_jsonrpcMessage_def)

section \<open>Properties\<close>



text \<open>C22. cancelAllRequests never closes a channel twice. It leaves no request and no client subscription in
  the tables; every pending request but the one in flight has its error set and its channel closed, so that its caller
  wakes up with the error, the others are untouched, and every client subscription is told to close.\<close>

theorem cancelAllRequests_correct:
  assumes "rinv s"
  shows "\<exists>s'. cancelAllRequests err inflight s = Some s' \<and> respWait s' = [] \<and> clientSubs s' = [] \<and>
    (\<forall>rq. if (\<exists>i. map_get (respWait s) i = Some rq) \<and> inflight \<noteq> Some rq
          then op_err (ops s' ! rq) = Some err \<and> chclosed (op_resp (ops s' ! rq)) \<and>
               chbuf (op_resp (ops s' ! rq)) = chbuf (op_resp (ops s ! rq))
          else ops s' ! rq = ops s ! rq) \<and>
    sub_events s' = sub_events s @ map (\<lambda>kv. SubClose (snd kv) err) (clientSubs s)"
proof -
  from cancelAllRequests_ok [OF assms, of err inflight] obtain s' where
    c: "cancelAllRequests err inflight s = Some s'" "respWait s' = []" "clientSubs s' = []"
    "\<And>rq. ops s' ! rq = (if registered s rq \<and> inflight \<noteq> Some rq then cancelled_op err (ops s ! rq) else ops s ! rq)"
    "sub_events s' = sub_events s @ map (\<lambda>kv. SubClose (snd kv) err) (clientSubs s)" by blast
  then show ?thesis
    by (intro exI [of _ s']) (simp add: registered_def wait_op_def cancelled_op_def)
qed

theorem cancelAllRequests_correct_witness:
  "\<exists>s'. cancelAllRequests ErrClientQuit None one_request = Some s' \<and> respWait s' = [] \<and>
     op_err (ops s' ! 0) = Some ErrClientQuit \<and> chclosed (op_resp (ops s' ! 0))"
proof -
  have "(\<exists>i. map_get (respWait one_request) i = Some 0) \<and> None \<noteq> Some (0::nat)" using one_request_waits(1) by auto
  then show ?thesis using cancelAllRequests_correct [OF one_request_rinv, of ErrClientQuit None] by metis
qed

text \<open>handleBatch: an empty batch and a batch over the limit start one goroutine that writes a single
  error, in the second case in an array and with the id of the first call of the batch, or a null
  id, and touch no request; any other batch hands the responses to their requests and starts one
  goroutine with exactly the calls of the batch in order, or none if it has no calls.\<close>

theorem handleBatch_dispatch:
  assumes "rinv s"
  shows "\<exists>procs s'. handleBatch cfg msgs s = Some (procs, s') \<and> rinv s' \<and>
    (if msgs = [] then procs = [ProcEmptyBatch] \<and> s' = s
     else if batchRequestLimit cfg \<noteq> 0 \<and> batchRequestLimit cfg < int (length msgs) then
       procs = [ProcBatchTooLarge msgs] \<and> s' = s \<and>
       (\<exists>r. respondWithBatchTooLarge msgs = [r] \<and> isResponse r \<and>
            ID r = (case filter isCall msgs of [] \<Rightarrow> Some JNull | m # _ \<Rightarrow> ID m))
     else procs = (if filter is_call_msg msgs = [] then [] else [ProcBatch (filter is_call_msg msgs)]))"
proof -
  have find: "find isCall ms = (case filter isCall ms of [] \<Rightarrow> None | m # _ \<Rightarrow> Some m)" for ms
    by (induction ms) simp_all
  have "\<exists>r. respondWithBatchTooLarge msgs = [r] \<and> isResponse r \<and>
            ID r = (case filter isCall msgs of [] \<Rightarrow> Some JNull | m # _ \<Rightarrow> ID m)"
  proof (cases "filter isCall msgs")
    case Nil
    then show ?thesis using isResponse_errorMessage by (simp add: respondWithBatchTooLarge_def find)
  next
    case (Cons m ms)
    then have "m \<in> set (filter isCall msgs)" by simp
    then have "hasValidID m" by (simp add: isCall_def)
    then have "isResponse (errorResponse m (InvalidRequestError errMsgBatchTooLarge))" by (rule isResponse_errorResponse)
    then show ?thesis using Cons by (simp add: respondWithBatchTooLarge_def find errorResponse_def)
  qed
  moreover obtain s' where "handleResponses msgs s = Some (filter is_call_msg msgs, s')" "rinv s'"
    using handleResponses_ok [OF assms, of msgs] by (auto simp: responses_done_def)
  ultimately show ?thesis using assms by (simp add: handleBatch_def)
qed

theorem handleBatch_dispatch_witness:
  "\<exists>s'. handleBatch demo_cfg [one_response] one_request = Some ([], s') \<and> rinv s'"
proof -
  have c: "filter is_call_msg [one_response] = []" using one_response_class by (simp add: is_call_msg_def)
  have l: "batchRequestLimit demo_cfg = 0" by (simp add: demo_cfg_def)
  from handleBatch_dispatch [OF one_request_rinv, of demo_cfg "[one_response]"] show ?thesis
    unfolding c l by auto
qed

end
