(* ===== verification/Rpc_Options.thy ===== *)
theory Rpc_Options
  imports Rpc_Errors
begin

text \<open>
  client_opt.go and context_headers.go: the client configuration with its options, and the HTTP
  headers a context carries; with the parts of package net/http they use (http.Header and the canonical
  form of header names).

  A http.Header is a Go map from names to lists of values. http.Client and websocket.Dialer values
  are opaque, an authentication provider is a function that changes the headers or fails.
\<close>

section \<open>http.Header\<close>

type_synonym http_header = "(string, string list) gomap"

text \<open>The token characters of RFC 7230.\<close>

definition is_lower :: "char \<Rightarrow> bool" where
  "is_lower c \<longleftrightarrow> in_range 0x61 0x7A (byte c)"

definition is_upper :: "char \<Rightarrow> bool" where
  "is_upper c \<longleftrightarrow> in_range 0x41 0x5A (byte c)"

definition to_upper :: "char \<Rightarrow> char" where
  "to_upper c = (if is_lower c then char_of (byte c - 0x20) else c)"

definition to_lower :: "char \<Rightarrow> char" where
  "to_lower c = (if is_upper c then char_of (byte c + 0x20) else c)"

definition validHeaderFieldByte :: "char \<Rightarrow> bool" where
  "validHeaderFieldByte c \<longleftrightarrow>
     is_lower c \<or> is_upper c \<or> in_range 0x30 0x39 (byte c) \<or>
     byte c \<in> {0x21, 0x23, 0x24, 0x25, 0x26, 0x27, 0x2A, 0x2B, 0x2D, 0x2E, 0x5E, 0x5F, 0x60, 0x7C, 0x7E}"

text \<open>A letter at the beginning and after a hyphen is upper case, the others are lower case; a name
  with an invalid byte is left alone.\<close>

fun canonical_from :: "bool \<Rightarrow> string \<Rightarrow> string" where
  "canonical_from up [] = []"
| "canonical_from up (c # cs) = (if up then to_upper c else to_lower c) # canonical_from (byte c = 0x2D) cs"

definition CanonicalHeaderKey :: "string \<Rightarrow> string" where
  "CanonicalHeaderKey s = (if list_all validHeaderFieldByte s then canonical_from True s else s)"

definition header_Set :: "string \<Rightarrow> string \<Rightarrow> http_header \<Rightarrow> http_header" where
  "header_Set key v h = map_set (CanonicalHeaderKey key) [v] h"

definition header_Add :: "string \<Rightarrow> string \<Rightarrow> http_header \<Rightarrow> http_header" where
  "header_Add key v h =
     (let k = CanonicalHeaderKey key in
      map_set k ((case map_get h k of Some vs \<Rightarrow> vs | None \<Rightarrow> []) @ [v]) h)"

definition header_Get :: "http_header \<Rightarrow> string \<Rightarrow> string" where
  "header_Get h key = (case map_get h (CanonicalHeaderKey key) of Some (v # _) \<Rightarrow> v | _ \<Rightarrow> '''')"

section \<open>Headers in a context\<close>

text \<open>The header map the context holds under mdHeaderKey, if any. Cloning a map has no effect on
  values.\<close>

definition headersFromContext :: "http_header option \<Rightarrow> http_header" where
  "headersFromContext ctx = (case ctx of Some h \<Rightarrow> h | None \<Rightarrow> [])"

definition setHeaders :: "http_header \<Rightarrow> http_header \<Rightarrow> http_header" where
  "setHeaders dst src = fold (\<lambda>kv. map_set (CanonicalHeaderKey (fst kv)) (snd kv)) src dst"

definition NewContextWithHeaders :: "http_header option \<Rightarrow> http_header \<Rightarrow> http_header option" where
  "NewContextWithHeaders ctx h =
     (if h = [] then ctx
      else Some (case ctx of Some prev \<Rightarrow> setHeaders prev h | None \<Rightarrow> h))"

section \<open>The client configuration\<close>

type_synonym HTTPAuth = "http_header \<Rightarrow> goerr option \<times> http_header"

record clientConfig =
  httpClient :: "nat option"
  httpHeaders :: "http_header option"
  httpAuth :: "HTTPAuth option"
  wsDialer :: "nat option"
  wsMessageSizeLimit :: "int option"
  cfg_idgen :: "(nat \<Rightarrow> string) option"
  batchItemLimit :: int
  batchResponseLimit :: int

definition new_clientConfig :: clientConfig where
  "new_clientConfig =
     \<lparr>httpClient = None, httpHeaders = None, httpAuth = None, wsDialer = None, wsMessageSizeLimit = None,
      cfg_idgen = None, batchItemLimit = 0, batchResponseLimit = 0\<rparr>"

definition initHeaders :: "clientConfig \<Rightarrow> clientConfig" where
  "initHeaders cfg = (case httpHeaders cfg of None \<Rightarrow> cfg\<lparr>httpHeaders := Some []\<rparr> | Some _ \<Rightarrow> cfg)"

definition cfg_headers :: "clientConfig \<Rightarrow> http_header" where
  "cfg_headers cfg = (case httpHeaders cfg of Some h \<Rightarrow> h | None \<Rightarrow> [])"

definition cfg_setHeader :: "string \<Rightarrow> string \<Rightarrow> clientConfig \<Rightarrow> clientConfig" where
  "cfg_setHeader key v cfg = (let c = initHeaders cfg in c\<lparr>httpHeaders := Some (header_Set key v (cfg_headers c))\<rparr>)"

type_synonym ClientOption = "clientConfig \<Rightarrow> clientConfig"

definition applyOption :: "ClientOption \<Rightarrow> clientConfig \<Rightarrow> clientConfig" where
  "applyOption opt cfg = opt cfg"

definition WithWebsocketDialer :: "nat \<Rightarrow> ClientOption" where
  "WithWebsocketDialer dialer cfg = cfg\<lparr>wsDialer := Some dialer\<rparr>"

definition WithWebsocketMessageSizeLimit :: "int \<Rightarrow> ClientOption" where
  "WithWebsocketMessageSizeLimit limit cfg = cfg\<lparr>wsMessageSizeLimit := Some limit\<rparr>"

definition WithHeader :: "string \<Rightarrow> string \<Rightarrow> ClientOption" where
  "WithHeader key v cfg = (let c = initHeaders cfg in c\<lparr>httpHeaders := Some (header_Set key v (cfg_headers c))\<rparr>)"

definition WithHeaders :: "http_header \<Rightarrow> ClientOption" where
  "WithHeaders headers cfg =
     (let c = initHeaders cfg in c\<lparr>httpHeaders := Some (fold (\<lambda>kv. map_set (fst kv) (snd kv)) headers (cfg_headers c))\<rparr>)"

definition WithHTTPClient :: "nat option \<Rightarrow> ClientOption" where
  "WithHTTPClient c cfg = cfg\<lparr>httpClient := c\<rparr>"

text \<open>The panic for a nil provider happens when the option is made.\<close>

definition WithHTTPAuth :: "HTTPAuth option \<Rightarrow> ClientOption option" where
  "WithHTTPAuth a = (case a of None \<Rightarrow> None | Some f \<Rightarrow> Some (\<lambda>cfg. cfg\<lparr>httpAuth := Some f\<rparr>))"

definition WithBatchItemLimit :: "int \<Rightarrow> ClientOption" where
  "WithBatchItemLimit limit cfg = cfg\<lparr>batchItemLimit := limit\<rparr>"

definition WithBatchResponseSizeLimit :: "int \<Rightarrow> ClientOption" where
  "WithBatchResponseSizeLimit limit cfg = cfg\<lparr>batchResponseLimit := limit\<rparr>"

text \<open>The loop of DialOptions over the options.\<close>

definition apply_options :: "ClientOption list \<Rightarrow> clientConfig" where
  "apply_options opts = fold applyOption opts new_clientConfig"

section \<open>Canonical names\<close>

lemma byte_bounds: "byte c < 256"
  by (simp add: byte_def)

lemma byte_char_of: "n < 256 \<Longrightarrow> byte (char_of n) = n"
  by (simp add: byte_def)

lemma in_range_iff: "in_range a b n \<longleftrightarrow> a \<le> n \<and> n \<le> b"
  by (simp add: in_range_def)

lemma byte_to_upper: "byte (to_upper c) = (if is_lower c then byte c - 0x20 else byte c)"
  by (auto simp: to_upper_def is_lower_def in_range_iff byte_char_of byte_bounds)

lemma byte_to_lower: "byte (to_lower c) = (if is_upper c then byte c + 0x20 else byte c)"
  by (auto simp: to_lower_def is_upper_def in_range_iff byte_char_of)

lemma byte_inject: "byte a = byte b \<Longrightarrow> a = b"
  by (simp add: byte_def)

lemma case_class:
  "is_lower c \<Longrightarrow> is_upper (to_upper c)" "is_upper c \<Longrightarrow> is_lower (to_lower c)"
  "\<not> is_lower (to_upper c)" "\<not> is_upper (to_lower c)"
  by (auto simp: byte_to_upper byte_to_lower is_lower_def is_upper_def in_range_iff)

lemma case_idem: "to_upper (to_upper c) = to_upper c" "to_lower (to_lower c) = to_lower c"
  using case_class(3,4) [of c] by (simp_all add: to_upper_def [of "to_upper c"] to_lower_def [of "to_lower c"])

lemma case_hyphen: "(byte (to_upper c) = 0x2D) = (byte c = 0x2D)" "(byte (to_lower c) = 0x2D) = (byte c = 0x2D)"
  by (auto simp: byte_to_upper byte_to_lower is_lower_def is_upper_def in_range_iff)

lemma valid_case:
  assumes "validHeaderFieldByte c"
  shows "validHeaderFieldByte (to_upper c)" "validHeaderFieldByte (to_lower c)"
proof -
  show "validHeaderFieldByte (to_upper c)"
    using assms case_class(1) [of c] by (cases "is_lower c") (simp add: validHeaderFieldByte_def, simp add: to_upper_def)
  show "validHeaderFieldByte (to_lower c)"
    using assms case_class(2) [of c] by (cases "is_upper c") (simp add: validHeaderFieldByte_def, simp add: to_lower_def)
qed

lemma canonical_from_idem: "canonical_from up (canonical_from up s) = canonical_from up s"
  by (induction up s rule: canonical_from.induct) (simp_all add: case_idem case_hyphen)

lemma canonical_from_valid: "list_all validHeaderFieldByte s \<Longrightarrow> list_all validHeaderFieldByte (canonical_from up s)"
  by (induction up s rule: canonical_from.induct) (simp_all add: valid_case)

lemma CanonicalHeaderKey_idem [simp]: "CanonicalHeaderKey (CanonicalHeaderKey s) = CanonicalHeaderKey s"
  by (simp add: CanonicalHeaderKey_def canonical_from_idem canonical_from_valid)

section \<open>Setting headers\<close>

text \<open>No two names of a header map have the same canonical form.\<close>

definition canonical_distinct :: "http_header \<Rightarrow> bool" where
  "canonical_distinct h \<longleftrightarrow> distinct (map (\<lambda>kv. CanonicalHeaderKey (fst kv)) h)"

definition canonical_keys :: "http_header \<Rightarrow> bool" where
  "canonical_keys h \<longleftrightarrow> (\<forall>kv \<in> set h. CanonicalHeaderKey (fst kv) = fst kv)"

text \<open>What a header map says about the canonical name \<open>k\<close>.\<close>

definition canonical_get :: "http_header \<Rightarrow> string \<Rightarrow> string list option" where
  "canonical_get h k = map_of (map (\<lambda>kv. (CanonicalHeaderKey (fst kv), snd kv)) h) k"

lemma canonical_get_Nil [simp]: "canonical_get [] k = None"
  by (simp add: canonical_get_def)

lemma canonical_get_Cons: "canonical_get (kv # h) k = (if k = CanonicalHeaderKey (fst kv) then Some (snd kv) else canonical_get h k)"
  by (simp add: canonical_get_def)

lemma canonical_get_keys: "canonical_keys h \<Longrightarrow> canonical_get h k = map_get h k"
proof -
  assume "canonical_keys h"
  then have "map (\<lambda>kv. (CanonicalHeaderKey (fst kv), snd kv)) h = map id h"
    by (intro map_cong) (auto simp: canonical_keys_def)
  then show ?thesis by (simp add: canonical_get_def)
qed

lemma canonical_get_perm:
  assumes "canonical_distinct h" and "canonical_distinct h'" and "set h = set h'"
  shows "canonical_get h k = canonical_get h' k"
proof -
  let ?c = "map (\<lambda>kv. (CanonicalHeaderKey (fst kv), snd kv))"
  have "distinct (map fst (?c h))" "distinct (map fst (?c h'))"
    using assms(1,2) by (simp_all add: canonical_distinct_def comp_def)
  moreover have "set (?c h) = set (?c h')" using assms(3) by simp
  ultimately have "map_of (?c h) = map_of (?c h')" by (simp only: map_of_inject_set)
  then show ?thesis by (simp add: canonical_get_def)
qed

lemma setHeaders_get:
  assumes "canonical_distinct src"
  shows "map_get (setHeaders dst src) k = (case canonical_get src k of Some vs \<Rightarrow> Some vs | None \<Rightarrow> map_get dst k)"
  using assms unfolding setHeaders_def
proof (induction src arbitrary: dst)
  case (Cons kv src)
  have "canonical_get src (CanonicalHeaderKey (fst kv)) = None"
    using Cons.prems by (auto simp: canonical_get_def canonical_distinct_def map_of_eq_None_iff comp_def image_iff)
  then show ?case using Cons by (simp add: canonical_get_Cons map_get_set canonical_distinct_def split: option.split)
qed simp

lemma setHeaders_wf: "wf_map dst \<Longrightarrow> wf_map (setHeaders dst src)"
  unfolding setHeaders_def by (induction src arbitrary: dst) auto

section \<open>Properties\<close>

text \<open>Adding a header to a context twice, under a name that is not in canonical form, leaves both values in the map of the context, under the
  two spellings. Which one a request is sent with depends on the order in which the map is ranged over: in one order the later
  value, in the other one the earlier value that it should have replaced.\<close>

theorem nested_context_headers:
  assumes "CanonicalHeaderKey k \<noteq> k"
  shows "\<exists>m. NewContextWithHeaders (NewContextWithHeaders None [(k, v1)]) [(k, v2)] = Some m \<and>
    set m = {(k, v1), (CanonicalHeaderKey k, v2)} \<and>
    map_get (setHeaders dst m) (CanonicalHeaderKey k) = Some v2 \<and>
    map_get (setHeaders dst (rev m)) (CanonicalHeaderKey k) = Some v1"
  using assms by (auto simp: NewContextWithHeaders_def setHeaders_def CanonicalHeaderKey_idem map_get_set)

theorem nested_context_headers_witness:
  "\<exists>m. NewContextWithHeaders (NewContextWithHeaders None [(''x-id'', [''1''])]) [(''x-id'', [''2''])] = Some m \<and>
    map_get (setHeaders [] m) ''X-Id'' = Some [''2''] \<and> map_get (setHeaders [] (rev m)) ''X-Id'' = Some [''1'']"
proof -
  have k: "CanonicalHeaderKey ''x-id'' = ''X-Id''" by code_simp
  then have n: "CanonicalHeaderKey ''x-id'' \<noteq> ''x-id''" by simp
  from nested_context_headers [OF n, of "[''1'']" "[''2'']" "[]"] show ?thesis unfolding k by blast
qed

end
