(* ===== verification/Go_Url.thy ===== *)
theory Go_Url
  imports Rpc_Options
begin

text \<open>
  Package net/url as far as the transports use it: url.Parse with its errors, Hostname and Port, the text of a URL
  and of its user information, and the standard base64 encoding.
\<close>

section \<open>Strings\<close>

definition strings_Contains :: "string \<Rightarrow> string \<Rightarrow> bool" where
  "strings_Contains s t \<longleftrightarrow> snd (snd (strings_Cut s t))"

definition strings_ToLower :: "string \<Rightarrow> string" where
  "strings_ToLower s = map to_lower s"

text \<open>The part before the last occurrence of a byte and the part after it.\<close>

definition cut_last :: "string \<Rightarrow> char \<Rightarrow> (string \<times> string) option" where
  "cut_last s c =
     (if c \<in> set s
      then Some (rev (tl (dropWhile (\<lambda>x. x \<noteq> c) (rev s))), rev (takeWhile (\<lambda>x. x \<noteq> c) (rev s)))
      else None)"

section \<open>Escaping\<close>

datatype encoding = EncPath | EncUserPassword | EncHost | EncZone | EncFragment

definition is_alnum :: "char \<Rightarrow> bool" where
  "is_alnum c \<longleftrightarrow> is_lower c \<or> is_upper c \<or> is_digit c"

definition shouldEscape :: "char \<Rightarrow> encoding \<Rightarrow> bool" where
  "shouldEscape c m =
     (if is_alnum c then False
      else if (m = EncHost \<or> m = EncZone) \<and>
        byte c \<in> {0x21, 0x24, 0x26, 0x27, 0x28, 0x29, 0x2A, 0x2B, 0x2C, 0x3B, 0x3D, 0x3A, 0x5B, 0x5D, 0x3C, 0x3E, 0x22} then False
      else if byte c \<in> {0x2D, 0x5F, 0x2E, 0x7E} then False
      else if byte c \<in> {0x24, 0x26, 0x2B, 0x2C, 0x2F, 0x3A, 0x3B, 0x3D, 0x3F, 0x40} \<and> m = EncPath then byte c = 0x3F
      else if byte c \<in> {0x24, 0x26, 0x2B, 0x2C, 0x2F, 0x3A, 0x3B, 0x3D, 0x3F, 0x40} \<and> m = EncUserPassword
        then byte c \<in> {0x40, 0x2F, 0x3F, 0x3A}
      else if byte c \<in> {0x24, 0x26, 0x2B, 0x2C, 0x2F, 0x3A, 0x3B, 0x3D, 0x3F, 0x40} \<and> m = EncFragment then False
      else if m = EncFragment \<and> byte c \<in> {0x21, 0x28, 0x29, 0x2A} then False
      else True)"

definition upper_hex :: "nat \<Rightarrow> char" where
  "upper_hex d = (if d < 10 then char_of (48 + d) else char_of (55 + d))"

definition url_escape :: "string \<Rightarrow> encoding \<Rightarrow> string" where
  "url_escape s m =
     concat (map (\<lambda>c. if shouldEscape c m then [CHR 0x25, upper_hex (byte c div 16), upper_hex (byte c mod 16)] else [c]) s)"

text \<open>unescape: the first loop finds the errors, the second decodes.\<close>

fun unescape_check :: "encoding \<Rightarrow> string \<Rightarrow> goerr option" where
  "unescape_check m [] = None"
| "unescape_check m (c # cs) =
     (if c = CHR 0x25 then
        (case cs of
           a # b # rest \<Rightarrow>
             (case (hex_val a, hex_val b) of
                (Some x, Some y) \<Rightarrow>
                  (if m = EncHost \<and> x < 8 \<and> \<not> (a = CHR ''2'' \<and> b = CHR ''5'') then Some (PlainErr (''invalid URL escape '' @ fmt_q [c, a, b]))
                   else if m = EncZone \<and> \<not> (a = CHR ''2'' \<and> b = CHR ''5'') \<and> x * 16 + y \<noteq> 0x20 \<and> shouldEscape (char_of (x * 16 + y)) EncHost
                   then Some (PlainErr (''invalid URL escape '' @ fmt_q [c, a, b]))
                   else unescape_check m rest)
              | _ \<Rightarrow> Some (PlainErr (''invalid URL escape '' @ fmt_q (take 3 (c # cs)))))
         | _ \<Rightarrow> Some (PlainErr (''invalid URL escape '' @ fmt_q (take 3 (c # cs)))))
      else if (m = EncHost \<or> m = EncZone) \<and> byte c < 0x80 \<and> shouldEscape c m
      then Some (PlainErr (''invalid character '' @ fmt_q [c] @ '' in host name''))
      else unescape_check m cs)"

fun unescape_decode :: "string \<Rightarrow> string" where
  "unescape_decode [] = []"
| "unescape_decode (c # cs) =
     (if c = CHR 0x25 then
        (case cs of
           a # b # rest \<Rightarrow> char_of (the (hex_val a) * 16 + the (hex_val b)) # unescape_decode rest
         | _ \<Rightarrow> [])
      else c # unescape_decode cs)"

definition url_unescape :: "string \<Rightarrow> encoding \<Rightarrow> goerr + string" where
  "url_unescape s m = (case unescape_check m s of Some err \<Rightarrow> Inl err | None \<Rightarrow> Inr (unescape_decode s))"

section \<open>Parsing\<close>

text \<open>User information: the name and, if it was set, the password.\<close>

record URL =
  u_Scheme :: string
  u_Opaque :: string
  u_User :: "(string \<times> string option) option"
  u_Host :: string
  u_Path :: string
  u_RawPath :: string
  u_OmitHost :: bool
  u_ForceQuery :: bool
  u_RawQuery :: string
  u_Fragment :: string
  u_RawFragment :: string

definition new_URL :: URL where
  "new_URL =
     \<lparr>u_Scheme = [], u_Opaque = [], u_User = None, u_Host = [], u_Path = [], u_RawPath = [], u_OmitHost = False,
      u_ForceQuery = False, u_RawQuery = [], u_Fragment = [], u_RawFragment = []\<rparr>"

text \<open>getScheme; the second argument is what was read so far, reversed.\<close>

fun getScheme_from :: "string \<Rightarrow> string \<Rightarrow> string \<Rightarrow> goerr + string \<times> string" where
  "getScheme_from raw acc [] = Inr ([], raw)"
| "getScheme_from raw acc (c # cs) =
     (if is_lower c \<or> is_upper c then getScheme_from raw (c # acc) cs
      else if is_digit c \<or> c = CHR ''+'' \<or> c = CHR ''-'' \<or> c = CHR ''.'' then
        (if acc = [] then Inr ([], raw) else getScheme_from raw (c # acc) cs)
      else if c = CHR '':'' then
        (if acc = [] then Inl (PlainErr ''missing protocol scheme'') else Inr (rev acc, cs))
      else Inr ([], raw))"

definition getScheme :: "string \<Rightarrow> goerr + string \<times> string" where
  "getScheme raw = getScheme_from raw [] raw"

definition validOptionalPort :: "string \<Rightarrow> bool" where
  "validOptionalPort port = (case port of [] \<Rightarrow> True | c # cs \<Rightarrow> c = CHR '':'' \<and> list_all is_digit cs)"

definition bad_port :: "string \<Rightarrow> goerr" where
  "bad_port p = PlainErr (''invalid port '' @ fmt_q p @ '' after host'')"

text \<open>A zone identifier may use other escapes than the rest of the host.\<close>

definition unescape_zone :: "string \<Rightarrow> string \<Rightarrow> string \<Rightarrow> goerr + string" where
  "unescape_zone h1 zone h3 =
     (case (url_unescape h1 EncHost, url_unescape zone EncZone, url_unescape h3 EncHost) of
        (Inl err, _, _) \<Rightarrow> Inl err
      | (_, Inl err, _) \<Rightarrow> Inl err
      | (_, _, Inl err) \<Rightarrow> Inl err
      | (Inr a, Inr b, Inr c) \<Rightarrow> Inr (a @ b @ c))"

definition parseHost :: "string \<Rightarrow> goerr + string" where
  "parseHost host =
     (if strings_HasPrefix host ''['' then
        (case cut_last host (CHR '']'') of
           None \<Rightarrow> Inl (PlainErr (''missing '' @ [CHR 0x27, CHR '']'', CHR 0x27] @ '' in host''))
         | Some (inner, colonPort) \<Rightarrow>
             (if \<not> validOptionalPort colonPort then Inl (bad_port colonPort)
              else (case strings_Cut inner [CHR 0x25, CHR ''2'', CHR ''5''] of
                      (h1, zone, found) \<Rightarrow>
                        if found then unescape_zone h1 ([CHR 0x25, CHR ''2'', CHR ''5''] @ zone) ('']'' @ colonPort)
                        else url_unescape host EncHost)))
      else (case cut_last host (CHR '':'') of
              Some (_, p) \<Rightarrow>
                (if \<not> validOptionalPort (CHR '':'' # p) then Inl (bad_port (CHR '':'' # p)) else url_unescape host EncHost)
            | None \<Rightarrow> url_unescape host EncHost))"

definition validUserinfo :: "string \<Rightarrow> bool" where
  "validUserinfo s \<longleftrightarrow>
     list_all (\<lambda>c. is_alnum c \<or>
       byte c \<in> {0x2D, 0x2E, 0x5F, 0x3A, 0x7E, 0x21, 0x24, 0x26, 0x27, 0x28, 0x29, 0x2A, 0x2B, 0x2C, 0x3B, 0x3D, 0x25, 0x40}) s"

definition parseUserinfo :: "string \<Rightarrow> goerr + string \<times> string option" where
  "parseUserinfo s =
     (if \<not> validUserinfo s then Inl (PlainErr ''net/url: invalid userinfo'')
      else case strings_Cut s '':'' of
        (name, pw, found) \<Rightarrow>
          (case url_unescape name EncUserPassword of
             Inl err \<Rightarrow> Inl err
           | Inr n \<Rightarrow>
               (if \<not> found then Inr (n, None)
                else case url_unescape pw EncUserPassword of Inl err \<Rightarrow> Inl err | Inr p \<Rightarrow> Inr (n, Some p))))"

definition parseAuthority :: "string \<Rightarrow> goerr + (string \<times> string option) option \<times> string" where
  "parseAuthority authority =
     (case cut_last authority (CHR ''@'') of
        None \<Rightarrow> (case parseHost authority of Inl err \<Rightarrow> Inl err | Inr h \<Rightarrow> Inr (None, h))
      | Some (userinfo, host) \<Rightarrow>
          (case parseHost host of
             Inl err \<Rightarrow> Inl err
           | Inr h \<Rightarrow> (case parseUserinfo userinfo of Inl err \<Rightarrow> Inl err | Inr u \<Rightarrow> Inr (Some u, h))))"

definition setPath :: "string \<Rightarrow> URL \<Rightarrow> goerr + URL" where
  "setPath p u =
     (case url_unescape p EncPath of
        Inl err \<Rightarrow> Inl err
      | Inr path \<Rightarrow> Inr (u\<lparr>u_Path := path, u_RawPath := (if url_escape path EncPath = p then [] else p)\<rparr>))"

definition setFragment :: "string \<Rightarrow> URL \<Rightarrow> goerr + URL" where
  "setFragment f u =
     (case url_unescape f EncFragment of
        Inl err \<Rightarrow> Inl err
      | Inr frag \<Rightarrow> Inr (u\<lparr>u_Fragment := frag, u_RawFragment := (if url_escape frag EncFragment = f then [] else f)\<rparr>))"

text \<open>The query is cut off at the first question mark; a single one at the end is kept as ForceQuery.\<close>

definition cut_query :: "string \<Rightarrow> URL \<Rightarrow> string \<times> URL" where
  "cut_query rest u =
     (if strings_HasSuffix rest ''?'' \<and> length (filter (\<lambda>c. c = CHR ''?'') rest) = 1
      then (butlast rest, u\<lparr>u_ForceQuery := True\<rparr>)
      else case strings_Cut rest ''?'' of (r, q, _) \<Rightarrow> (r, u\<lparr>u_RawQuery := q\<rparr>))"

definition parse_hier :: "string \<Rightarrow> URL \<Rightarrow> goerr + URL" where
  "parse_hier rest u =
     (if (u_Scheme u \<noteq> [] \<or> \<not> strings_HasPrefix rest ''///'') \<and> strings_HasPrefix rest ''//'' then
        (let a = drop 2 rest; authority = takeWhile (\<lambda>c. c \<noteq> CHR ''/'') a; path = dropWhile (\<lambda>c. c \<noteq> CHR ''/'') a in
         case parseAuthority authority of
           Inl err \<Rightarrow> Inl err
         | Inr (user, host) \<Rightarrow> setPath path (u\<lparr>u_User := user, u_Host := host\<rparr>))
      else setPath rest (if u_Scheme u \<noteq> [] \<and> strings_HasPrefix rest ''/'' then u\<lparr>u_OmitHost := True\<rparr> else u))"

definition url_parse :: "string \<Rightarrow> goerr + URL" where
  "url_parse raw =
     (if list_ex (\<lambda>c. byte c < 0x20 \<or> byte c = 0x7F) raw then Inl (PlainErr ''net/url: invalid control character in URL'')
      else if raw = ''*'' then Inr (new_URL\<lparr>u_Path := ''*''\<rparr>)
      else case getScheme raw of
        Inl err \<Rightarrow> Inl err
      | Inr (scheme, rest0) \<Rightarrow>
          (case cut_query rest0 (new_URL\<lparr>u_Scheme := strings_ToLower scheme\<rparr>) of
             (rest, u) \<Rightarrow>
               (if \<not> strings_HasPrefix rest ''/'' \<and> u_Scheme u \<noteq> [] then Inr (u\<lparr>u_Opaque := rest\<rparr>)
                else if \<not> strings_HasPrefix rest ''/'' \<and> CHR '':'' \<in> set (takeWhile (\<lambda>c. c \<noteq> CHR ''/'') rest)
                then Inl (PlainErr ''first path segment in URL cannot contain colon'')
                else parse_hier rest u)))"

definition url_error :: "string \<Rightarrow> goerr \<Rightarrow> goerr" where
  "url_error u err = PlainErr (''parse '' @ fmt_q u @ '': '' @ ErrorString err)"

definition url_Parse :: "string \<Rightarrow> goerr + URL" where
  "url_Parse rawURL =
     (case strings_Cut rawURL ''#'' of
        (u, frag, _) \<Rightarrow>
          (case url_parse u of
             Inl err \<Rightarrow> Inl (url_error u err)
           | Inr r \<Rightarrow>
               (if frag = [] then Inr r
                else case setFragment frag r of Inl err \<Rightarrow> Inl (url_error rawURL err) | Inr r' \<Rightarrow> Inr r')))"

section \<open>Hostname and Port\<close>

text \<open>splitHostPort.\<close>

definition split_port :: "string \<Rightarrow> string \<times> string" where
  "split_port hostPort =
     (case cut_last hostPort (CHR '':'') of
        Some (h, p) \<Rightarrow> if validOptionalPort (CHR '':'' # p) then (h, p) else (hostPort, [])
      | None \<Rightarrow> (hostPort, []))"

definition unbracket :: "string \<Rightarrow> string" where
  "unbracket h = (if strings_HasPrefix h ''['' \<and> strings_HasSuffix h '']'' then butlast (tl h) else h)"

definition url_Hostname :: "URL \<Rightarrow> string" where
  "url_Hostname u = unbracket (fst (split_port (u_Host u)))"

definition url_Port :: "URL \<Rightarrow> string" where
  "url_Port u = snd (split_port (u_Host u))"

section \<open>Text\<close>

definition Userinfo_String :: "string \<times> string option \<Rightarrow> string" where
  "Userinfo_String ui =
     (case ui of (name, pw) \<Rightarrow>
      (if name \<noteq> [] \<or> (case pw of Some p \<Rightarrow> p \<noteq> [] | None \<Rightarrow> False)
       then url_escape name EncUserPassword @ (case pw of Some p \<Rightarrow> '':'' @ url_escape p EncUserPassword | None \<Rightarrow> [])
       else []))"

definition validEncoded :: "string \<Rightarrow> encoding \<Rightarrow> bool" where
  "validEncoded s m \<longleftrightarrow>
     list_all (\<lambda>c. byte c \<in> {0x21, 0x24, 0x26, 0x27, 0x28, 0x29, 0x2A, 0x2B, 0x2C, 0x3B, 0x3D, 0x3A, 0x40, 0x5B, 0x5D, 0x25} \<or>
       \<not> shouldEscape c m) s"

definition EscapedPath :: "URL \<Rightarrow> string" where
  "EscapedPath u =
     (if u_RawPath u \<noteq> [] \<and> validEncoded (u_RawPath u) EncPath \<and> url_unescape (u_RawPath u) EncPath = Inr (u_Path u)
      then u_RawPath u
      else if u_Path u = ''*'' then ''*'' else url_escape (u_Path u) EncPath)"

definition EscapedFragment :: "URL \<Rightarrow> string" where
  "EscapedFragment u =
     (if u_RawFragment u \<noteq> [] \<and> validEncoded (u_RawFragment u) EncFragment \<and> url_unescape (u_RawFragment u) EncFragment = Inr (u_Fragment u)
      then u_RawFragment u else url_escape (u_Fragment u) EncFragment)"

definition url_String :: "URL \<Rightarrow> string" where
  "url_String u =
     (let scheme = (if u_Scheme u \<noteq> [] then u_Scheme u @ '':'' else []);
          auth = (if (u_Scheme u \<noteq> [] \<or> u_Host u \<noteq> [] \<or> u_User u \<noteq> None) \<and> \<not> (u_OmitHost u \<and> u_Host u = [] \<and> u_User u = None)
                  then (if u_Host u \<noteq> [] \<or> u_Path u \<noteq> [] \<or> u_User u \<noteq> None then ''//'' else []) @
                       (case u_User u of Some ui \<Rightarrow> Userinfo_String ui @ ''@'' | None \<Rightarrow> []) @ url_escape (u_Host u) EncHost
                  else []);
          path = EscapedPath u;
          slash = (if path \<noteq> [] \<and> hd path \<noteq> CHR ''/'' \<and> u_Host u \<noteq> [] then ''/'' else []);
          dot = (if scheme @ auth @ slash = [] \<and> CHR '':'' \<in> set (takeWhile (\<lambda>c. c \<noteq> CHR ''/'') path) then ''./'' else [])
      in scheme @ (if u_Opaque u \<noteq> [] then u_Opaque u else auth @ slash @ dot @ path) @
         (if u_ForceQuery u \<or> u_RawQuery u \<noteq> [] then ''?'' @ u_RawQuery u else []) @
         (if u_Fragment u \<noteq> [] then ''#'' @ EscapedFragment u else []))"

section \<open>base64\<close>

definition b64_char :: "nat \<Rightarrow> char" where
  "b64_char n =
     (if n < 26 then char_of (65 + n) else if n < 52 then char_of (71 + n) else if n < 62 then char_of (n - 4)
      else if n = 62 then CHR ''+'' else CHR ''/'')"

fun base64_Encode :: "string \<Rightarrow> string" where
  "base64_Encode [] = []"
| "base64_Encode [a] = (let n = byte a * 16 in [b64_char (n div 64), b64_char (n mod 64), CHR ''='', CHR ''=''])"
| "base64_Encode [a, b] =
     (let n = (byte a * 256 + byte b) * 4 in [b64_char (n div 4096), b64_char (n div 64 mod 64), b64_char (n mod 64), CHR ''=''])"
| "base64_Encode (a # b # c # rest) =
     (let n = (byte a * 256 + byte b) * 256 + byte c in
      b64_char (n div 262144) # b64_char (n div 4096 mod 64) # b64_char (n div 64 mod 64) # b64_char (n mod 64) # base64_Encode rest)"

end
