(* ===== verification/Rpc_HttpConn.thy ===== *)
theory Rpc_HttpConn
  imports Rpc_Requests Rpc_Encoding Go_Url
begin

text \<open>
  The client side of http.go: httpConn with its headers, doRequest, sendHTTP and sendBatchHTTP.

  The HTTP client is the environment: a function from the URL, the headers and the body of a POST request
  to an error or a response. The body of a response arrives completely, or, where that matters, reading it
  fails.
\<close>

section \<open>State\<close>

definition defaultBodyLimit :: int where
  "defaultBodyLimit = 5 * 1024 * 1024"

definition contentType :: string where
  "contentType = ''application/json''"

record httpConn =
  hc_url :: string
  hc_headers :: http_header
  hc_auth :: "HTTPAuth option"
  hc_closeOnce :: bool
  hc_closeCh :: "unit chan"

definition newClientTransportHTTP :: "string \<Rightarrow> clientConfig \<Rightarrow> httpConn" where
  "newClientTransportHTTP endpoint cfg =
     (let headers = header_Set ''content-type'' contentType (header_Set ''accept'' contentType [])
      in \<lparr>hc_url = endpoint, hc_headers = fold (\<lambda>kv. map_set (fst kv) (snd kv)) (cfg_headers cfg) headers,
          hc_auth = httpAuth cfg, hc_closeOnce = False, hc_closeCh = make_chan 0\<rparr>)"

text \<open>close, which closes the channel once; \<^const>\<open>None\<close> would be the panic of a second close.\<close>

definition httpConn_close :: "httpConn \<Rightarrow> httpConn option" where
  "httpConn_close hc =
     (if hc_closeOnce hc then Some hc
      else do { ch \<leftarrow> chan_close (hc_closeCh hc); Some (hc\<lparr>hc_closeOnce := True, hc_closeCh := ch\<rparr>) })"

text \<open>readBatch waits until the connection is closed.\<close>

definition httpConn_readBatch :: "httpConn \<Rightarrow> (goerr + jsonrpcMessage list \<times> bool) option" where
  "httpConn_readBatch hc = (if chclosed (hc_closeCh hc) then Some (Inl IoEOF) else None)"

definition hc_SetHeader :: "string \<Rightarrow> string \<Rightarrow> httpConn \<Rightarrow> httpConn" where
  "hc_SetHeader key v hc = hc\<lparr>hc_headers := header_Set key v (hc_headers hc)\<rparr>"

section \<open>Requests\<close>

record http_response =
  StatusCode :: int
  Status :: string
  resp_body :: string
  resp_readErr :: bool

type_synonym http_do = "string \<Rightarrow> http_header \<Rightarrow> string \<Rightarrow> goerr + http_response"

text \<open>json.Marshal of a subscription notification; no member is left out.\<close>

definition encode_notification :: "usertypes \<Rightarrow> jsonrpcSubscriptionNotification \<Rightarrow> string + string" where
  "encode_notification ut n =
     (case json_Marshal ut (enc_Result (nt_Params n)) of
        Inl err \<Rightarrow> Inl err
      | Inr j \<Rightarrow>
          Inr (encode_object
            [(''jsonrpc'', quote_string (nt_Version n)), (''method'', quote_string (nt_Method n)),
             (''params'', encode_object
                [(''subscription'', quote_string (enc_ID (nt_Params n))), (''result'', encode_raw j)])]))"

definition encode_wire :: "usertypes \<Rightarrow> wire \<Rightarrow> string + string" where
  "encode_wire ut w =
     (case w of
        WMsg m \<Rightarrow> encode_message ut m
      | WBatch ms \<Rightarrow> encode_batch ut ms
      | WNotif n \<Rightarrow> encode_notification ut n)"

text \<open>The headers of a request: those of the connection, then those of the context, then what the
  authentication provider makes of them.\<close>

definition request_headers :: "httpConn \<Rightarrow> http_header option \<Rightarrow> goerr + http_header" where
  "request_headers hc ctx =
     (let h = setHeaders (hc_headers hc) (headersFromContext ctx) in
      case hc_auth hc of
        None \<Rightarrow> Inr h
      | Some auth \<Rightarrow> (case auth h of (Some err, _) \<Rightarrow> Inl err | (None, h') \<Rightarrow> Inr h'))"

text \<open>http.NewRequestWithContext fails for a URL that does not parse.\<close>

definition doRequest :: "usertypes \<Rightarrow> http_do \<Rightarrow> httpConn \<Rightarrow> http_header option \<Rightarrow> wire \<Rightarrow> goerr + string" where
  "doRequest ut client_Do hc ctx msg =
     (case encode_wire ut msg of
        Inl err \<Rightarrow> Inl (PlainErr err)
      | Inr payload \<Rightarrow>
          (case url_Parse (hc_url hc) of
             Inl err \<Rightarrow> Inl err
           | Inr _ \<Rightarrow>
               (case request_headers hc ctx of
                  Inl err \<Rightarrow> Inl err
                | Inr headers \<Rightarrow>
                    (case client_Do (hc_url hc) headers payload of
                       Inl err \<Rightarrow> Inl err
                     | Inr resp \<Rightarrow>
                         (if StatusCode resp < 200 \<or> 300 \<le> StatusCode resp
                          then Inl (HTTPError (StatusCode resp) (Status resp) (if resp_readErr resp then [] else resp_body resp))
                          else Inr (resp_body resp))))))"

section \<open>Decoding responses\<close>

text \<open>Whether json.Decoder reports a type error for a value decoded into a jsonrpcMessage. (A number of the
  data that no float64 can hold would be reported too.)\<close>

definition bad_error_member :: "string \<times> json \<Rightarrow> bool" where
  "bad_error_member kv =
     (if field_matches (fst kv) ''code''
      then (case snd kv of JNull \<Rightarrow> False | JNum lit \<Rightarrow> parse_int64 lit = None | _ \<Rightarrow> True)
      else field_matches (fst kv) ''message'' \<and> json_kind (snd kv) \<noteq> ''string'' \<and> snd kv \<noteq> JNull)"

definition bad_member :: "string \<times> json \<Rightarrow> bool" where
  "bad_member kv =
     (if field_matches (fst kv) ''jsonrpc'' then json_kind (snd kv) \<noteq> ''string'' \<and> snd kv \<noteq> JNull
      else if field_matches (fst kv) ''id'' then False
      else if field_matches (fst kv) ''method'' then json_kind (snd kv) \<noteq> ''string'' \<and> snd kv \<noteq> JNull
      else if field_matches (fst kv) ''params'' then False
      else if field_matches (fst kv) ''error''
      then (case snd kv of JNull \<Rightarrow> False | JObj _ kvs \<Rightarrow> list_ex bad_error_member kvs | _ \<Rightarrow> True)
      else False)"

definition type_error :: goerr where
  "type_error = PlainErr ''json: cannot unmarshal value into Go value''"

definition decode_strict :: "json \<Rightarrow> goerr + jsonrpcMessage" where
  "decode_strict j =
     (case j of
        JNull \<Rightarrow> Inr new_jsonrpcMessage
      | JObj _ kvs \<Rightarrow>
          (if list_ex bad_member kvs then Inl type_error else Inr (fold decode_member kvs new_jsonrpcMessage))
      | _ \<Rightarrow> Inl type_error)"

text \<open>A slice of pointers to messages; null elements are nil pointers.\<close>

fun decode_strict_all :: "json list \<Rightarrow> goerr + jsonrpcMessage option list" where
  "decode_strict_all [] = Inr []"
| "decode_strict_all (j # js) =
     (case (if j = JNull then Inr None else map_sum id Some (decode_strict j)) of
        Inl err \<Rightarrow> Inl err
      | Inr m \<Rightarrow> (case decode_strict_all js of Inl err \<Rightarrow> Inl err | Inr ms \<Rightarrow> Inr (m # ms)))"

definition decode_strict_batch :: "json \<Rightarrow> goerr + jsonrpcMessage option list" where
  "decode_strict_batch j = (case j of JNull \<Rightarrow> Inr [] | JArr _ es \<Rightarrow> decode_strict_all es | _ \<Rightarrow> Inl type_error)"

text \<open>The decoder reads the first value of the body; an empty body is io.EOF, other text that is no JSON a syntax
  error.\<close>

definition decoder_Decode :: "string \<Rightarrow> goerr + json" where
  "decoder_Decode s =
     (case json_parse s of
        None \<Rightarrow> Inl (if skip_ws s = [] then IoEOF else SyntaxErr ''invalid character'')
      | Some (j, _) \<Rightarrow> Inr j)"

section \<open>Sending\<close>

text \<open>What a call that may block or panic does.\<close>

datatype 'a goresult = Ret 'a | Blocks | Panics

text \<open>new(requestOp) has a nil channel, on which every send blocks.\<close>

definition zero_requestOp :: requestOp where
  "zero_requestOp = \<lparr>op_ids = [], op_err = None, op_resp = make_chan 0, op_sub = None, op_hadResponse = False\<rparr>"

definition op_send :: "jsonrpcMessage list \<Rightarrow> requestOp \<Rightarrow> requestOp goresult" where
  "op_send ms x = (case chan_send ms (op_resp x) of None \<Rightarrow> Blocks | Some ch \<Rightarrow> Ret (x\<lparr>op_resp := ch\<rparr>))"

definition sendHTTP ::
    "usertypes \<Rightarrow> http_do \<Rightarrow> httpConn \<Rightarrow> http_header option \<Rightarrow> requestOp \<Rightarrow> jsonrpcMessage \<Rightarrow> (goerr option \<times> requestOp) goresult" where
  "sendHTTP ut client_Do hc ctx x msg =
     (case doRequest ut client_Do hc ctx (WMsg msg) of
        Inl err \<Rightarrow> Ret (Some err, x)
      | Inr respBody \<Rightarrow>
          (case decoder_Decode respBody of
             Inl err \<Rightarrow> Ret (Some err, x)
           | Inr j \<Rightarrow>
               (case decode_strict j of
                  Inl err \<Rightarrow> Ret (Some err, x)
                | Inr resp \<Rightarrow> (case op_send [resp] x of Ret x' \<Rightarrow> Ret (None, x') | Blocks \<Rightarrow> Blocks | Panics \<Rightarrow> Panics))))"

text \<open>sendBatchHTTP; the second case is the value sent on the channel of the operation, which has room for it. The
  elements are pointers, and a null in the response is a nil pointer.\<close>

definition sendBatchHTTP ::
    "usertypes \<Rightarrow> http_do \<Rightarrow> httpConn \<Rightarrow> http_header option \<Rightarrow> jsonrpcMessage list \<Rightarrow> goerr + jsonrpcMessage option list" where
  "sendBatchHTTP ut client_Do hc ctx msgs =
     (case doRequest ut client_Do hc ctx (WBatch msgs) of
        Inl err \<Rightarrow> Inl err
      | Inr respBody \<Rightarrow> (case decoder_Decode respBody of Inl err \<Rightarrow> Inl err | Inr j \<Rightarrow> decode_strict_batch j))"

section \<open>Headers of a request\<close>

lemma map_set_all_get:
  assumes "wf_map src"
  shows "map_get (fold (\<lambda>kv. map_set (fst kv) (snd kv)) src dst) k = (case map_get src k of Some vs \<Rightarrow> Some vs | None \<Rightarrow> map_get dst k)"
  using assms
proof (induction src arbitrary: dst)
  case (Cons kv src)
  have "map_get src (fst kv) = None" using Cons.prems by (auto simp: wf_map_def map_of_eq_None_iff)
  then show ?case using Cons by (cases kv) (simp add: map_get_set wf_map_def split: option.split)
qed simp

lemma canonical_literals: "CanonicalHeaderKey ''content-type'' = ''Content-Type''" "CanonicalHeaderKey ''accept'' = ''Accept''"
  by code_simp+

lemma transport_headers_get:
  assumes "wf_map (cfg_headers cfg)"
  shows "map_get (hc_headers (newClientTransportHTTP endpoint cfg)) k =
    (case map_get (cfg_headers cfg) k of
       Some vs \<Rightarrow> Some vs
     | None \<Rightarrow> if k = ''Content-Type'' \<or> k = ''Accept'' then Some [contentType] else None)"
  unfolding newClientTransportHTTP_def Let_def httpConn.simps map_set_all_get [OF assms]
  by (simp add: header_Set_def map_get_set canonical_literals split: option.split)

section \<open>Properties\<close>

text \<open>Which value of a header a request is sent with, without an authentication provider: the one of the context
  if the context has the header, under any spelling, else the one the client was configured with, else the default
  content type for Accept and Content-Type; this does not depend on the order in which the map of the
  context is ranged over.\<close>

theorem request_header_precedence:
  assumes "wf_map (cfg_headers cfg)" and "httpAuth cfg = None"
    and "canonical_distinct (headersFromContext ctx)"
  shows "\<exists>h. request_headers (newClientTransportHTTP endpoint cfg) ctx = Inr h \<and>
    (\<forall>k. map_get h k =
      (case canonical_get (headersFromContext ctx) k of
         Some vs \<Rightarrow> Some vs
       | None \<Rightarrow>
           (case map_get (cfg_headers cfg) k of
              Some vs \<Rightarrow> Some vs
            | None \<Rightarrow> if k = ''Content-Type'' \<or> k = ''Accept'' then Some [contentType] else None))) \<and>
    (\<forall>ctx'. set ctx' = set (headersFromContext ctx) \<longrightarrow> canonical_distinct ctx' \<longrightarrow>
       (\<forall>k. map_get (setHeaders (hc_headers (newClientTransportHTTP endpoint cfg)) ctx') k = map_get h k))"
proof -
  let ?hc = "newClientTransportHTTP endpoint cfg"
  have "hc_auth ?hc = None" using assms(2) by (simp add: newClientTransportHTTP_def Let_def)
  then have "request_headers ?hc ctx = Inr (setHeaders (hc_headers ?hc) (headersFromContext ctx))"
    by (simp add: request_headers_def)
  moreover have "map_get (setHeaders (hc_headers ?hc) ctx') k = map_get (setHeaders (hc_headers ?hc) (headersFromContext ctx)) k"
    if "set ctx' = set (headersFromContext ctx)" "canonical_distinct ctx'" for ctx' k
    unfolding setHeaders_get [OF that(2)] setHeaders_get [OF assms(3)] canonical_get_perm [OF that(2) assms(3) that(1)] by (rule refl)
  ultimately show ?thesis
    unfolding transport_headers_get [OF assms(1), of endpoint, symmetric] setHeaders_get [OF assms(3), symmetric] by blast
qed

theorem request_header_precedence_witness:
  "\<exists>h. request_headers (newClientTransportHTTP ''http://localhost'' (WithHeader ''x-a'' ''1'' new_clientConfig))
         (NewContextWithHeaders None [(''x-a'', [''2''])]) = Inr h \<and>
     map_get h ''X-A'' = Some [''2''] \<and> map_get h ''Accept'' = Some [contentType]"
proof -
  let ?cfg = "WithHeader ''x-a'' ''1'' new_clientConfig" and ?ctx = "NewContextWithHeaders None [(''x-a'', [''2''])]"
  have c: "CanonicalHeaderKey ''x-a'' = ''X-A''" by code_simp
  have h: "cfg_headers ?cfg = [(''X-A'', [''1''])]" "httpAuth ?cfg = None" "headersFromContext ?ctx = [(''x-a'', [''2''])]"
    by (simp_all add: WithHeader_def initHeaders_def new_clientConfig_def cfg_headers_def header_Set_def c Let_def
        headersFromContext_def NewContextWithHeaders_def)
  have w: "wf_map (cfg_headers ?cfg)" "canonical_distinct (headersFromContext ?ctx)"
    unfolding h by (simp_all add: wf_map_def canonical_distinct_def)
  obtain hh where r: "request_headers (newClientTransportHTTP ''http://localhost'' ?cfg) ?ctx = Inr hh"
    and g: "\<forall>k. map_get hh k = (case canonical_get [(''x-a'', [''2''])] k of Some vs \<Rightarrow> Some vs | None \<Rightarrow>
      (case map_get [(''X-A'', [''1''])] k of Some vs \<Rightarrow> Some vs
       | None \<Rightarrow> if k = ''Content-Type'' \<or> k = ''Accept'' then Some [contentType] else None))"
    using request_header_precedence [OF w(1) h(2) w(2), of "''http://localhost''"] unfolding h(1,3) by blast
  have "map_get hh ''X-A'' = Some [''2'']" "map_get hh ''Accept'' = Some [contentType]"
    unfolding spec [OF g] by (simp_all add: canonical_get_Cons c)
  then show ?thesis using r by blast
qed

section \<open>Decoding what the server wrote\<close>

lemma decode_key_neq:
  "\<not> field_matches (quote_string ''code'') ''message''" "\<not> field_matches (quote_string ''message'') ''code''"
  "\<not> field_matches (quote_string ''data'') ''code''" "\<not> field_matches (quote_string ''data'') ''message''"
  "field_matches (quote_string ''code'') ''code''" "field_matches (quote_string ''message'') ''message''"
  by (simp_all add: decode_key del: fold_name.simps)

lemma error_tree_not_bad:
  assumes "error_ok ut e"
  shows "\<not> (case error_tree ut e of JNull \<Rightarrow> False | JObj _ kvs \<Rightarrow> list_ex bad_error_member kvs | _ \<Rightarrow> True)"
proof -
  have c: "\<not> bad_error_member (quote_string ''code'', JNum (strconv_Itoa (Code e)))"
    using assms parse_int64_Itoa [of "Code e"] by (simp add: bad_error_member_def decode_key_neq error_ok_def)
  have m: "\<not> bad_error_member (quote_string ''message'', str_json (Message e))"
    by (simp add: bad_error_member_def decode_key_neq)
  have d: "\<not> bad_error_member (quote_string ''data'', j)" for j
    by (simp add: bad_error_member_def decode_key_neq)
  show ?thesis using c m d by (simp add: error_tree_def object_tree_def data_tree_def split: sum.split)
qed

lemma not_bad_member:
  "\<not> bad_member (quote_string ''jsonrpc'', str_json s)" "\<not> bad_member (quote_string ''method'', str_json s)"
  "\<not> bad_member (quote_string ''id'', j)" "\<not> bad_member (quote_string ''params'', j)" "\<not> bad_member (quote_string ''result'', j)"
  "\<not> (case j of JNull \<Rightarrow> False | JObj _ kvs \<Rightarrow> list_ex bad_error_member kvs | _ \<Rightarrow> True) \<Longrightarrow> \<not> bad_member (quote_string ''error'', j)"
  by (simp_all add: bad_member_def decode_key del: fold_name.simps)

lemma decode_strict_tree:
  assumes "msg_ok ut m" and "encode_message ut m = Inr t"
  shows "decode_strict (message_tree ut m) = Inr (received ut m)"
proof -
  let ?q = "\<lambda>kj. (quote_string (fst kj), snd kj)"
  obtain raw kvs where k: "message_tree ut m = JObj raw kvs"
    by (simp add: message_tree_def object_tree_def)
  have raw: "list_ex bad_member (map ?q (raw_tree key r)) \<longleftrightarrow> (\<exists>j. r = Some j \<and> bad_member (quote_string key, j))" for key r
    by (cases r) (simp_all add: raw_tree_def)
  have opt: "list_ex bad_member (map ?q (opt_tree b key j)) \<longleftrightarrow> b \<and> bad_member (quote_string key, j)" for b key j
    by (simp add: opt_tree_def)
  have err: "\<not> list_ex bad_member (map ?q (case Error m of None \<Rightarrow> [] | Some e \<Rightarrow> [(''error'', error_tree ut e)]))"
    using assms(1) not_bad_member(6) [OF error_tree_not_bad [of ut]] by (cases "Error m") (simp_all add: msg_ok_def)
  have "\<not> list_ex bad_member kvs"
    using k err unfolding message_tree_def object_tree_def map_append
    by (auto simp: raw opt not_bad_member simp del: list_ex_iff)
  moreover have "fold decode_member kvs new_jsonrpcMessage = received ut m"
    using decode_message_tree [OF assms] k by (simp add: decode_message_def)
  ultimately show ?thesis by (simp add: decode_strict_def k)
qed

text \<open>A call over HTTP: if the server answers with status 2xx and a body that starts with the encoding of a reply,
  sendHTTP succeeds and hands exactly that reply to the waiting caller; a status outside 2xx gives an
  HTTPError with the status and the body, and nothing is handed over.\<close>

theorem sendHTTP_delivers:
  assumes "encode_wire ut (WMsg msg) = Inr payload" and "url_Parse (hc_url hc) = Inr u" and "request_headers hc ctx = Inr headers"
    and "client_Do (hc_url hc) headers payload = Inr resp" and "chan_fresh (op_resp x)"
    and "msg_ok ut reply" and "encode_message ut reply = Inr t" and "delim rest" and "resp_body resp = t @ rest"
  shows "sendHTTP ut client_Do hc ctx x msg =
    (if 200 \<le> StatusCode resp \<and> StatusCode resp < 300
     then Ret (None, x\<lparr>op_resp := (op_resp x)\<lparr>chbuf := [[received ut reply]]\<rparr>\<rparr>)
     else Ret (Some (HTTPError (StatusCode resp) (Status resp) (if resp_readErr resp then [] else resp_body resp)), x))"
proof -
  note enc = encode_message_tree [OF assms(6,7)]
  have "json_parse (resp_body resp) = Some (message_tree ut reply, rest)"
    using json_parse_text [OF enc(2) assms(8)] enc(1) assms(9) by simp
  then show ?thesis
    using assms(1-5) decode_strict_tree [OF assms(6,7)]
    by (simp add: sendHTTP_def doRequest_def decoder_Decode_def op_send_def chan_send_fresh)
qed

text \<open>An HTTP client that answers every request with the same response, for the witnesses.\<close>

definition answer_with :: "int \<Rightarrow> string \<Rightarrow> http_do" where
  "answer_with code s = (\<lambda>_ _ _. Inr \<lparr>StatusCode = code, Status = ''status'', resp_body = s, resp_readErr = False\<rparr>)"

theorem sendHTTP_delivers_witness:
  "\<exists>t. encode_message no_types enc_error = Inr t \<and>
     sendHTTP no_types (answer_with 200 (t @ [CHR 0x0A])) (newClientTransportHTTP ''http://localhost'' new_clientConfig) None
       (new_requestOp [''1''] None) enc_call =
     Ret (None, (new_requestOp [''1''] None)\<lparr>op_resp := (make_chan 1)\<lparr>chbuf := [[received no_types enc_error]]\<rparr>\<rparr>)"
proof -
  let ?hc = "newClientTransportHTTP ''http://localhost'' new_clientConfig"
  have d: "\<exists>e. Error enc_error = Some e \<and> Data e = GoNil" "Error enc_call = None"
    by (simp_all add: enc_error_def errorResponse_def errorMessage_def enc_call_def new_jsonrpcMessage_def)
  obtain t where t: "encode_message no_types enc_error = Inr t"
    using d by (auto simp: encode_message_def encode_jsonError_def Let_def)
  obtain p where p: "encode_wire no_types (WMsg enc_call) = Inr p"
    using d by (auto simp: encode_wire_def encode_message_def Let_def)
  have "\<not> isl (url_Parse ''http://localhost'')" by code_simp
  then obtain u where "url_Parse ''http://localhost'' = Inr u" by (cases "url_Parse ''http://localhost''") auto
  then have u: "url_Parse (hc_url ?hc) = Inr u" by (simp add: newClientTransportHTTP_def Let_def)
  have h: "request_headers ?hc None = Inr (hc_headers ?hc)"
    by (simp add: request_headers_def newClientTransportHTTP_def new_clientConfig_def headersFromContext_def setHeaders_def Let_def)
  have r: "answer_with 200 (t @ [CHR 0x0A]) (hc_url ?hc) (hc_headers ?hc) p =
      Inr \<lparr>StatusCode = 200, Status = ''status'', resp_body = t @ [CHR 0x0A], resp_readErr = False\<rparr>"
    by (simp add: answer_with_def)
  have f: "chan_fresh (op_resp (new_requestOp [''1''] None))" by (simp add: new_requestOp_def)
  have "delim [CHR 0x0A]" by code_simp
  from sendHTTP_delivers [where client_Do = "answer_with 200 (t @ [CHR 0x0A])", OF p u h r f enc_demo_ok(2) t this] t
  show ?thesis by (simp add: new_requestOp_def)
qed

end
