(* ===== verification/Rpc_ClientSub.thy ===== *)
theory Rpc_ClientSub
  imports Rpc_Errors
begin

text \<open>
  ClientSubscription of subscription.go: the forwarding loop of a client subscription and the
  goroutines that talk to it. These are the client's dispatcher (deliver and close), the
  goroutine of run with the loop forward, and the callers of Unsubscribe.

  The channels in and quit are unbuffered, so a send on them is a common step of the two goroutines.
  A select is a choice between the steps that are possible. The element type of the user's channel
  and how a notification is decoded into it are parameters (\<open>'v\<close> and \<open>unmarshal\<close>). Three fields of the state
  record history that the program does not keep: the notifications that were accepted, the values
  that were sent to the user's channel and to the error channel.
\<close>

section \<open>State\<close>

definition maxClientSubscriptionBuffer :: nat where
  "maxClientSubscriptionBuffer = 20000"

text \<open>The goroutine of run: in forward, at the close of forwardDone, at the unsubscribe request, at
  the send of the error, at the deferred close of unsubDone, finished. The arguments are the two
  results of forward.\<close>

datatype run_pc =
    RForward
  | RCloseForward bool "goerr option"
  | RRequest bool "goerr option"
  | RSend "goerr option"
  | RCloseUnsub
  | RDone

text \<open>The dispatcher: elsewhere, or in the select of deliver or of close.\<close>

datatype disp_pc = DIdle | DDeliver json | DClose "goerr option"

text \<open>Unsubscribe under its Once: not called, in the select, waiting for unsubDone, at the close of
  the error channel, done.\<close>

datatype once_pc = ONotStarted | OSelect | OWaitDone | OCloseErr | ODone

record 'v ClientSubscription =
  cs_run :: run_pc
  cs_disp :: disp_pc
  cs_once :: once_pc
  cs_buffer :: "'v list"
  cs_err :: "goerr option chan"
  cs_forwardDone :: bool
  cs_unsubDone :: bool
  cs_requests :: nat \<comment> \<open>unsubscribe requests sent to the server\<close>
  cs_end :: "(bool \<times> goerr option) option" \<comment> \<open>results of forward\<close>
  cs_accepted :: "json list"
  cs_sent :: "'v list"
  cs_errs :: "goerr option list"

definition newClientSubscription :: "'v ClientSubscription" where
  "newClientSubscription =
     \<lparr>cs_run = RForward, cs_disp = DIdle, cs_once = ONotStarted, cs_buffer = [], cs_err = make_chan 1,
      cs_forwardDone = False, cs_unsubDone = False, cs_requests = 0, cs_end = None,
      cs_accepted = [], cs_sent = [], cs_errs = []\<rparr>"

section \<open>The loop\<close>

text \<open>forward returns its results to run.\<close>

definition forward_return :: "bool \<Rightarrow> goerr option \<Rightarrow> 'v ClientSubscription \<Rightarrow> 'v ClientSubscription" where
  "forward_return unsubscribe err s = s\<lparr>cs_run := RCloseForward unsubscribe err, cs_end := Some (unsubscribe, err)\<rparr>"

definition forward_quit :: "goerr option \<Rightarrow> 'v ClientSubscription \<Rightarrow> 'v ClientSubscription" where
  "forward_quit recv s =
     (if recv = Some ErrUnsubscribed then forward_return True None s else forward_return False recv s)"

definition forward_in :: "(json \<Rightarrow> string + 'v) \<Rightarrow> json \<Rightarrow> 'v ClientSubscription \<Rightarrow> 'v ClientSubscription" where
  "forward_in unmarshal recv s =
     (case unmarshal recv of
        Inl err \<Rightarrow> forward_return True (Some (PlainErr err)) s
      | Inr val \<Rightarrow>
          (if length (cs_buffer s) = maxClientSubscriptionBuffer then forward_return True (Some ErrSubscriptionQueueOverflow) s
           else s\<lparr>cs_buffer := cs_buffer s @ [val]\<rparr>))"

definition err_value :: "goerr \<Rightarrow> goerr option" where
  "err_value err = (if err = ErrClientQuit then None else Some err)"

section \<open>The goroutines\<close>

inductive csub_step :: "(json \<Rightarrow> string + 'v) \<Rightarrow> 'v ClientSubscription \<Rightarrow> 'v ClientSubscription \<Rightarrow> bool" for unmarshal where
  deliver_call: "cs_disp s = DIdle \<Longrightarrow> csub_step unmarshal s (s\<lparr>cs_disp := DDeliver result\<rparr>)"
| deliver_in: "cs_disp s = DDeliver result \<Longrightarrow> cs_run s = RForward \<Longrightarrow>
    csub_step unmarshal s ((forward_in unmarshal result s)\<lparr>cs_disp := DIdle, cs_accepted := cs_accepted s @ [result]\<rparr>)"
| deliver_done: "cs_disp s = DDeliver result \<Longrightarrow> cs_forwardDone s \<Longrightarrow> csub_step unmarshal s (s\<lparr>cs_disp := DIdle\<rparr>)"
| close_call: "cs_disp s = DIdle \<Longrightarrow> csub_step unmarshal s (s\<lparr>cs_disp := DClose err\<rparr>)"
| close_quit: "cs_disp s = DClose err \<Longrightarrow> cs_run s = RForward \<Longrightarrow>
    csub_step unmarshal s ((forward_quit err s)\<lparr>cs_disp := DIdle\<rparr>)"
| close_done: "cs_disp s = DClose err \<Longrightarrow> cs_forwardDone s \<Longrightarrow> csub_step unmarshal s (s\<lparr>cs_disp := DIdle\<rparr>)"
| send_channel: "cs_run s = RForward \<Longrightarrow> cs_buffer s = v # rest \<Longrightarrow>
    csub_step unmarshal s (s\<lparr>cs_buffer := rest, cs_sent := cs_sent s @ [v]\<rparr>)"
| unsub_call: "cs_once s = ONotStarted \<Longrightarrow> csub_step unmarshal s (s\<lparr>cs_once := OSelect\<rparr>)"
| unsub_quit: "cs_once s = OSelect \<Longrightarrow> cs_run s = RForward \<Longrightarrow>
    csub_step unmarshal s ((forward_quit (Some ErrUnsubscribed) s)\<lparr>cs_once := OWaitDone\<rparr>)"
| unsub_done: "cs_once s = OSelect \<or> cs_once s = OWaitDone \<Longrightarrow> cs_unsubDone s \<Longrightarrow>
    csub_step unmarshal s (s\<lparr>cs_once := OCloseErr\<rparr>)"
| unsub_close: "cs_once s = OCloseErr \<Longrightarrow> chan_close (cs_err s) = Some ch \<Longrightarrow>
    csub_step unmarshal s (s\<lparr>cs_err := ch, cs_once := ODone\<rparr>)"
| run_close: "cs_run s = RCloseForward u e \<Longrightarrow> csub_step unmarshal s (s\<lparr>cs_forwardDone := True, cs_run := RRequest u e\<rparr>)"
| run_request: "cs_run s = RRequest u e \<Longrightarrow>
    csub_step unmarshal s (s\<lparr>cs_requests := (if u then Suc (cs_requests s) else cs_requests s), cs_run := RSend e\<rparr>)"
| run_nosend: "cs_run s = RSend None \<Longrightarrow> csub_step unmarshal s (s\<lparr>cs_run := RCloseUnsub\<rparr>)"
| run_send: "cs_run s = RSend (Some err) \<Longrightarrow> chan_send (err_value err) (cs_err s) = Some ch \<Longrightarrow>
    csub_step unmarshal s (s\<lparr>cs_err := ch, cs_errs := cs_errs s @ [err_value err], cs_run := RCloseUnsub\<rparr>)"
| run_finish: "cs_run s = RCloseUnsub \<Longrightarrow> csub_step unmarshal s (s\<lparr>cs_unsubDone := True, cs_run := RDone\<rparr>)"
| user_recv: "chbuf (cs_err s) = v # rest \<Longrightarrow> csub_step unmarshal s (s\<lparr>cs_err := (cs_err s)\<lparr>chbuf := rest\<rparr>\<rparr>)"

definition csub_init :: "'v ClientSubscription \<Rightarrow> bool" where
  "csub_init s \<longleftrightarrow> s = newClientSubscription"

section \<open>Invariant\<close>

text \<open>The phases of run and of Unsubscribe, the flags, and what is known of the error channel.\<close>

definition csub_phases :: "'v ClientSubscription \<Rightarrow> bool" where
  "csub_phases s \<longleftrightarrow>
     (cs_forwardDone s \<longleftrightarrow> cs_run s \<noteq> RForward \<and> (\<forall>u e. cs_run s \<noteq> RCloseForward u e)) \<and>
     (cs_unsubDone s \<longleftrightarrow> cs_run s = RDone) \<and>
     (cs_run s = RForward \<longleftrightarrow> cs_end s = None) \<and>
     (\<forall>u e. cs_run s = RCloseForward u e \<or> cs_run s = RRequest u e \<longrightarrow> cs_end s = Some (u, e)) \<and>
     (\<forall>e. cs_run s = RSend e \<longrightarrow> (\<exists>u. cs_end s = Some (u, e))) \<and>
     (cs_once s = OWaitDone \<longrightarrow> cs_run s \<noteq> RForward) \<and>
     (cs_once s = OCloseErr \<or> cs_once s = ODone \<longrightarrow> cs_unsubDone s)"

definition csub_errs :: "'v ClientSubscription \<Rightarrow> bool" where
  "csub_errs s \<longleftrightarrow>
     chcap (cs_err s) = 1 \<and> (chclosed (cs_err s) \<longleftrightarrow> cs_once s = ODone) \<and>
     (if cs_run s = RCloseUnsub \<or> cs_run s = RDone
      then \<exists>u e. cs_end s = Some (u, e) \<and> cs_errs s = (case e of None \<Rightarrow> [] | Some err \<Rightarrow> [err_value err]) \<and>
                 cs_requests s = (if u then 1 else 0)
      else chbuf (cs_err s) = [] \<and> cs_errs s = [] \<and>
           cs_requests s = (case cs_run s of RSend _ \<Rightarrow> (if fst (the (cs_end s)) then 1 else 0) | _ \<Rightarrow> 0))"

text \<open>The values in the buffer and on the user's channel are the accepted notifications, decoded, in
  order; only the last accepted one may be missing, when it ended the loop.\<close>

definition decoded :: "(json \<Rightarrow> string + 'v) \<Rightarrow> json list \<Rightarrow> 'v list \<Rightarrow> bool" where
  "decoded unmarshal rs vs \<longleftrightarrow> map unmarshal rs = map Inr vs"

definition csub_queue :: "(json \<Rightarrow> string + 'v) \<Rightarrow> 'v ClientSubscription \<Rightarrow> bool" where
  "csub_queue unmarshal s \<longleftrightarrow>
     length (cs_buffer s) \<le> maxClientSubscriptionBuffer \<and>
     (decoded unmarshal (cs_accepted s) (cs_sent s @ cs_buffer s) \<or>
      cs_run s \<noteq> RForward \<and> cs_accepted s \<noteq> [] \<and>
      decoded unmarshal (butlast (cs_accepted s)) (cs_sent s @ cs_buffer s) \<and>
      (cs_end s = Some (True, Some ErrSubscriptionQueueOverflow) \<or>
       (\<exists>err. unmarshal (last (cs_accepted s)) = Inl err \<and> cs_end s = Some (True, Some (PlainErr err)))))"

definition csub_inv :: "(json \<Rightarrow> string + 'v) \<Rightarrow> 'v ClientSubscription \<Rightarrow> bool" where
  "csub_inv unmarshal s \<longleftrightarrow> csub_phases s \<and> csub_errs s \<and> csub_queue unmarshal s"

lemmas forward_defs = forward_in_def forward_quit_def forward_return_def

lemma csub_phases_step: "csub_step unmarshal s s' \<Longrightarrow> csub_phases s \<Longrightarrow> csub_phases s'"
  by (induction rule: csub_step.induct)
    (auto simp: csub_phases_def forward_defs split: sum.splits if_splits)

lemma csub_errs_step:
  assumes "csub_step unmarshal s s'" and "csub_phases s" and "csub_errs s"
  shows "csub_errs s'"
  using assms
proof (induction rule: csub_step.induct)
  case (deliver_in s result)
  then show ?case by (auto simp: csub_errs_def csub_phases_def forward_defs split: sum.split)
next
  case (unsub_close s ch)
  then show ?case by (auto simp: csub_errs_def csub_phases_def chan_close_def split: if_splits)
next
  case (run_send s err ch)
  then show ?case by (auto simp: csub_errs_def csub_phases_def chan_send_def split: if_splits)
qed (auto simp: csub_errs_def csub_phases_def forward_defs split: if_splits)

lemma csub_queue_step:
  assumes "csub_step unmarshal s s'" and "csub_phases s" and "csub_queue unmarshal s"
  shows "csub_queue unmarshal s'"
  using assms
proof (induction rule: csub_step.induct)
  case (deliver_in s result)
  have d: "decoded unmarshal (cs_accepted s) (cs_sent s @ cs_buffer s)" "length (cs_buffer s) \<le> maxClientSubscriptionBuffer"
    using deliver_in by (auto simp: csub_queue_def)
  show ?case
  proof (cases "unmarshal result")
    case (Inl err)
    then show ?thesis using d by (simp add: csub_queue_def forward_defs)
  next
    case (Inr v)
    then show ?thesis using d deliver_in(2) by (auto simp: csub_queue_def forward_defs decoded_def)
  qed
qed (auto simp: csub_queue_def csub_phases_def forward_defs split: if_splits)

section \<open>Progress\<close>

text \<open>The operations on the error channel are always possible when their turn comes.\<close>

lemma csub_send_possible:
  assumes "csub_inv unmarshal s" and "cs_run s = RSend (Some err)"
  shows "\<exists>ch. chan_send (err_value err) (cs_err s) = Some ch"
  using assms by (auto simp: csub_inv_def csub_phases_def csub_errs_def chan_send_def)

lemma csub_close_possible:
  assumes "csub_inv unmarshal s" and "cs_once s = OCloseErr"
  shows "\<exists>ch. chan_close (cs_err s) = Some ch"
  using assms by (auto simp: csub_inv_def csub_errs_def chan_close_def)

fun once_rank :: "once_pc \<Rightarrow> nat" where
  "once_rank ONotStarted = 0"
| "once_rank OSelect = 4"
| "once_rank OWaitDone = 3"
| "once_rank OCloseErr = 2"
| "once_rank ODone = 1"

fun run_rank :: "run_pc \<Rightarrow> nat" where
  "run_rank RForward = 5"
| "run_rank (RCloseForward _ _) = 4"
| "run_rank (RRequest _ _) = 3"
| "run_rank (RSend _) = 2"
| "run_rank RCloseUnsub = 1"
| "run_rank RDone = 0"

definition csub_mu :: "'v ClientSubscription \<Rightarrow> nat" where
  "csub_mu s = once_rank (cs_once s) + run_rank (cs_run s)"

text \<open>The steps that bring the goroutines closer to the end of an Unsubscribe call.\<close>

definition csub_pstep :: "(json \<Rightarrow> string + 'v) \<Rightarrow> 'v ClientSubscription \<Rightarrow> 'v ClientSubscription \<Rightarrow> bool" where
  "csub_pstep unmarshal s s' \<longleftrightarrow> csub_step unmarshal s s' \<and> csub_mu s' < csub_mu s"

definition no_unsub_pending :: "'v ClientSubscription \<Rightarrow> bool" where
  "no_unsub_pending s \<longleftrightarrow> cs_once s = ONotStarted \<or> cs_once s = ODone"

lemma csub_run_goes_on:
  assumes "csub_inv unmarshal s" and "cs_run s \<noteq> RForward" and "cs_run s \<noteq> RDone"
  shows "\<exists>s'. csub_pstep unmarshal s s' \<and> cs_disp s' = cs_disp s"
proof (cases "cs_run s")
  case (RCloseForward u e)
  then show ?thesis using csub_step.run_close [OF RCloseForward]
    by (intro exI [of _ "s\<lparr>cs_forwardDone := True, cs_run := RRequest u e\<rparr>"]) (simp add: csub_pstep_def csub_mu_def)
next
  case (RRequest u e)
  then show ?thesis using csub_step.run_request [OF RRequest]
    by (intro exI [of _ "s\<lparr>cs_requests := (if u then Suc (cs_requests s) else cs_requests s), cs_run := RSend e\<rparr>"])
      (simp add: csub_pstep_def csub_mu_def)
next
  case (RSend e)
  show ?thesis
  proof (cases e)
    case None
    then show ?thesis using csub_step.run_nosend [of s] RSend
      by (intro exI [of _ "s\<lparr>cs_run := RCloseUnsub\<rparr>"]) (simp add: csub_pstep_def csub_mu_def)
  next
    case (Some err)
    then obtain ch where "chan_send (err_value err) (cs_err s) = Some ch" using csub_send_possible [OF assms(1)] RSend by blast
    with csub_step.run_send [of s err ch unmarshal] RSend Some show ?thesis
      by (intro exI [of _ "s\<lparr>cs_err := ch, cs_errs := cs_errs s @ [err_value err], cs_run := RCloseUnsub\<rparr>"])
        (simp add: csub_pstep_def csub_mu_def)
  qed
next
  case RCloseUnsub
  then show ?thesis using csub_step.run_finish [OF RCloseUnsub]
    by (intro exI [of _ "s\<lparr>cs_unsubDone := True, cs_run := RDone\<rparr>"]) (simp add: csub_pstep_def csub_mu_def)
qed (use assms(2,3) in simp_all)

lemma csub_pstep_ex:
  assumes inv: "csub_inv unmarshal s" and "\<not> no_unsub_pending s"
  shows "\<exists>s'. csub_pstep unmarshal s s'"
proof -
  have ph: "csub_phases s" using inv by (simp add: csub_inv_def)
  have unsub: ?thesis if "cs_once s = OSelect \<or> cs_once s = OWaitDone" "cs_unsubDone s"
    using csub_step.unsub_done [OF that, of unmarshal] that(1)
    by (intro exI [of _ "s\<lparr>cs_once := OCloseErr\<rparr>"]) (auto simp: csub_pstep_def csub_mu_def)
  consider "cs_once s = OSelect" "cs_run s = RForward" | "cs_once s = OCloseErr"
    | "cs_once s = OSelect \<or> cs_once s = OWaitDone" "cs_run s = RDone"
    | "cs_run s \<noteq> RForward" "cs_run s \<noteq> RDone"
    using assms(2) ph by (cases "cs_once s") (auto simp: no_unsub_pending_def csub_phases_def)
  then show ?thesis
  proof cases
    case 1
    then show ?thesis using csub_step.unsub_quit [OF 1, of unmarshal]
      by (intro exI [of _ "(forward_quit (Some ErrUnsubscribed) s)\<lparr>cs_once := OWaitDone\<rparr>"])
        (simp add: csub_pstep_def csub_mu_def forward_defs)
  next
    case 2
    then obtain ch where "chan_close (cs_err s) = Some ch" using csub_close_possible [OF inv] by blast
    with csub_step.unsub_close [OF 2 this, of unmarshal] 2 show ?thesis
      by (intro exI [of _ "s\<lparr>cs_err := ch, cs_once := ODone\<rparr>"]) (simp add: csub_pstep_def csub_mu_def)
  next
    case 3
    then show ?thesis using unsub ph by (simp add: csub_phases_def)
  next
    case 4
    then show ?thesis using csub_run_goes_on [OF inv] by blast
  qed
qed

interpretation csub: progress_system csub_init "csub_step unmarshal" "csub_inv unmarshal" "csub_pstep unmarshal" no_unsub_pending csub_mu
  for unmarshal
proof
  show "csub_init s \<Longrightarrow> csub_inv unmarshal s" for s
    by (simp add: csub_init_def newClientSubscription_def csub_inv_def csub_phases_def csub_errs_def csub_queue_def
        make_chan_def decoded_def)
  show "csub_inv unmarshal s \<Longrightarrow> csub_step unmarshal s s' \<Longrightarrow> csub_inv unmarshal s'" for s s'
    using csub_phases_step csub_errs_step csub_queue_step by (fastforce simp: csub_inv_def)
  show "csub_inv unmarshal s \<Longrightarrow> \<not> no_unsub_pending s \<Longrightarrow> \<exists>s'. csub_pstep unmarshal s s'" for s
    by (rule csub_pstep_ex)
qed (simp_all add: csub_pstep_def)

section \<open>The queue a subscription promises\<close>

text \<open>The specification: a queue of bounded length, what was taken from it, and whether it is still
  open.\<close>

type_synonym 'v queue = "'v list \<times> 'v list \<times> bool"

inductive queue_step :: "nat \<Rightarrow> 'v queue \<Rightarrow> 'v queue \<Rightarrow> bool" for bound where
  queue_stay: "queue_step bound x x"
| queue_put: "length q < bound \<Longrightarrow> queue_step bound (q, out, True) (q @ [v], out, True)"
| queue_take: "queue_step bound (v # q, out, True) (q, out @ [v], True)"
| queue_stop: "queue_step bound (q, out, True) (q, out, False)"

definition csub_abs :: "'v ClientSubscription \<Rightarrow> 'v queue" where
  "csub_abs s = (cs_buffer s, cs_sent s, cs_run s = RForward)"

lemma forward_in_queue:
  assumes "cs_run s = RForward" and "length (cs_buffer s) \<le> maxClientSubscriptionBuffer"
  shows "queue_step maxClientSubscriptionBuffer (csub_abs s) (csub_abs (forward_in unmarshal r s))"
proof (cases "unmarshal r")
  case (Inr v)
  then show ?thesis using assms queue_put [of "cs_buffer s"] queue_stop by (auto simp: csub_abs_def forward_defs)
qed (use assms queue_stop in \<open>simp add: csub_abs_def forward_defs\<close>)

lemma csub_step_queue:
  assumes "csub_step unmarshal s s'" and "csub_inv unmarshal s"
  shows "queue_step maxClientSubscriptionBuffer (csub_abs s) (csub_abs s')"
  using assms
proof (induction rule: csub_step.induct)
  case (deliver_in s result)
  then have "length (cs_buffer s) \<le> maxClientSubscriptionBuffer" by (simp add: csub_inv_def csub_queue_def)
  from forward_in_queue [OF deliver_in(2) this, of unmarshal result] show ?case by (simp add: csub_abs_def)
qed (simp_all add: csub_abs_def forward_defs queue_stay queue_take queue_stop)

interpretation csub_fifo: simulation csub_init "csub_step unmarshal" "csub_inv unmarshal" csub_abs "\<lambda>x. x = ([], [], True)"
    "queue_step maxClientSubscriptionBuffer"
  for unmarshal
proof
  show "csub_init s \<Longrightarrow> csub_abs s = ([], [], True)" for s :: "'v ClientSubscription"
    by (simp add: csub_init_def csub_abs_def newClientSubscription_def)
qed (rule csub_step_queue)

text \<open>Some reachable states, for the witnesses.\<close>

lemma csub_reach_new: "reachable csub_init (csub_step unmarshal) newClientSubscription"
  by (rule reach_init) (simp add: csub_init_def)

lemma csub_reach_deliver:
  "reachable csub_init (csub_step unmarshal) (newClientSubscription\<lparr>cs_disp := DDeliver JNull\<rparr>)"
  using reach_step [OF csub_reach_new csub_step.deliver_call [where result = JNull]]
  by (simp add: newClientSubscription_def)

lemma csub_reach_select:
  "reachable csub_init (csub_step unmarshal) (newClientSubscription\<lparr>cs_once := OSelect\<rparr>)"
  using reach_step [OF csub_reach_new csub_step.unsub_call] by (simp add: newClientSubscription_def)

definition csub_buffered :: "json ClientSubscription" where
  "csub_buffered = newClientSubscription\<lparr>cs_buffer := [JNull], cs_accepted := [JNull]\<rparr>"

lemma csub_reach_buffered: "reachable csub_init (csub_step Inr) csub_buffered"
  using reach_step [OF csub_reach_deliver csub_step.deliver_in [where result = JNull and unmarshal = Inr]]
  by (simp add: csub_buffered_def newClientSubscription_def forward_in_def maxClientSubscriptionBuffer_def)

definition csub_dead :: "json ClientSubscription" where
  "csub_dead = newClientSubscription\<lparr>cs_run := RSend (Some ErrDead), cs_forwardDone := True, cs_end := Some (False, Some ErrDead)\<rparr>"

lemma csub_reach_dead: "reachable csub_init (csub_step Inr) csub_dead"
proof -
  let ?R = "reachable csub_init (csub_step Inr)" and ?n = "newClientSubscription :: json ClientSubscription"
  have "?R (?n\<lparr>cs_disp := DClose (Some ErrDead)\<rparr>)"
    using reach_step [OF csub_reach_new csub_step.close_call [where err = "Some ErrDead"]] by (simp add: newClientSubscription_def)
  from reach_step [OF this csub_step.close_quit [where err = "Some ErrDead"]]
  have "?R (?n\<lparr>cs_run := RCloseForward False (Some ErrDead), cs_end := Some (False, Some ErrDead)\<rparr>)"
    by (simp add: newClientSubscription_def forward_defs)
  from reach_step [OF this csub_step.run_close [where u = False and e = "Some ErrDead"]]
  have "?R (?n\<lparr>cs_run := RRequest False (Some ErrDead), cs_forwardDone := True, cs_end := Some (False, Some ErrDead)\<rparr>)"
    by (simp add: newClientSubscription_def)
  from reach_step [OF this csub_step.run_request [where u = False and e = "Some ErrDead"]] show ?thesis
    by (simp add: newClientSubscription_def csub_dead_def)
qed

section \<open>Properties\<close>

text \<open>C6. The values sent to the user's channel, followed by those still buffered, are the accepted
  notifications decoded in order of arrival, so none is lost, repeated or reordered; only a last one
  that could not be decoded or found the buffer full is dropped, and then the subscription has ended with
  that error. The buffer never holds more than maxClientSubscriptionBuffer values: buffer and channel implement a bounded queue.\<close>

theorem client_subscription_fifo:
  assumes "reachable csub_init (csub_step unmarshal) s"
  shows "length (cs_buffer s) \<le> 20000 \<and> reachable (\<lambda>x. x = ([], [], True)) (queue_step 20000) (csub_abs s) \<and>
    (map unmarshal (cs_accepted s) = map Inr (cs_sent s @ cs_buffer s) \<or>
     cs_accepted s \<noteq> [] \<and> map unmarshal (butlast (cs_accepted s)) = map Inr (cs_sent s @ cs_buffer s) \<and>
     (cs_end s = Some (True, Some ErrSubscriptionQueueOverflow) \<or>
      (\<exists>err. unmarshal (last (cs_accepted s)) = Inl err \<and> cs_end s = Some (True, Some (PlainErr err)))))"
  using csub.reachable_inv [OF assms] csub_fifo.reachable_sim [OF assms]
  by (auto simp: csub_inv_def csub_queue_def decoded_def maxClientSubscriptionBuffer_def)

theorem client_subscription_fifo_witness:
  "length (cs_buffer csub_buffered) \<le> 20000 \<and>
   map Inr (cs_accepted csub_buffered) = map (Inr :: json \<Rightarrow> string + json) (cs_sent csub_buffered @ cs_buffer csub_buffered)"
  using client_subscription_fifo [OF csub_reach_buffered] by (simp add: csub_buffered_def newClientSubscription_def)

text \<open>The error channel of a client subscription is used safely: the send of run never blocks and never hits a
  closed channel, and Unsubscribe never closes it twice. When run has finished, the channel got at
  most one value: nothing after Unsubscribe, nil when the client was closed, and otherwise the error that
  ended the subscription; and the server was asked to unsubscribe exactly when it was not the
  connection that ended it.\<close>

theorem client_subscription_errors:
  assumes "reachable csub_init (csub_step unmarshal) s"
  shows "(\<forall>err. cs_run s = RSend (Some err) \<longrightarrow> chan_send (err_value err) (cs_err s) \<noteq> None) \<and>
    (cs_once s = OCloseErr \<longrightarrow> chan_close (cs_err s) \<noteq> None) \<and>
    (cs_run s = RDone \<longrightarrow>
       (\<exists>unsub e. cs_end s = Some (unsub, e) \<and> cs_requests s = (if unsub then 1 else 0) \<and>
          cs_errs s = (case e of None \<Rightarrow> [] | Some err \<Rightarrow> [if err = ErrClientQuit then None else Some err])))"
proof -
  have inv: "csub_inv unmarshal s" by (rule csub.reachable_inv [OF assms])
  have "\<exists>unsub e. cs_end s = Some (unsub, e) \<and> cs_requests s = (if unsub then 1 else 0) \<and>
      cs_errs s = (case e of None \<Rightarrow> [] | Some err \<Rightarrow> [if err = ErrClientQuit then None else Some err])" if "cs_run s = RDone"
    using inv that unfolding csub_inv_def csub_errs_def err_value_def [abs_def] by auto
  then show ?thesis using csub_send_possible [OF inv] csub_close_possible [OF inv] by auto
qed

theorem client_subscription_errors_witness:
  "cs_run csub_dead = RSend (Some ErrDead) \<and> chan_send (err_value ErrDead) (cs_err csub_dead) \<noteq> None"
proof -
  have r: "cs_run csub_dead = RSend (Some ErrDead)" by (simp add: csub_dead_def)
  with client_subscription_errors [OF csub_reach_dead] show ?thesis by blast
qed

text \<open>The client's dispatcher is never stuck in deliver or close: at most two more steps of the
  subscription's own goroutine let it go on, even if the user does not receive from the channel.\<close>

theorem dispatcher_not_stuck:
  assumes "reachable csub_init (csub_step unmarshal) s" and "cs_disp s \<noteq> DIdle"
  shows "\<exists>s'. csub_step unmarshal s s' \<and> (cs_disp s' = DIdle \<or> (\<exists>s''. csub_step unmarshal s' s'' \<and> cs_disp s'' = DIdle))"
proof -
  have inv: "csub_inv unmarshal s" by (rule csub.reachable_inv [OF assms(1)])
  then have fd: "cs_forwardDone s \<longleftrightarrow> cs_run s \<noteq> RForward \<and> (\<forall>u e. cs_run s \<noteq> RCloseForward u e)"
    by (simp add: csub_inv_def csub_phases_def)
  have fin: "\<exists>s'. csub_step unmarshal t s' \<and> cs_disp s' = DIdle" if "cs_disp t \<noteq> DIdle" "cs_forwardDone t" for t
    using that csub_step.deliver_done [of t _ unmarshal] csub_step.close_done [of t _ unmarshal]
    by (cases "cs_disp t") fastforce+
  consider "cs_run s = RForward" | u e where "cs_run s = RCloseForward u e" | "cs_forwardDone s" using fd by blast
  then show ?thesis
  proof cases
    case 1
    then show ?thesis
      using csub_step.deliver_in [of s _ unmarshal] csub_step.close_quit [of s _ unmarshal] assms(2)
      by (cases "cs_disp s") fastforce+
  next
    case (2 u e)
    then show ?thesis using csub_step.run_close [OF 2, of unmarshal] fin [of "s\<lparr>cs_forwardDone := True, cs_run := RRequest u e\<rparr>"] assms(2)
      by fastforce
  next
    case 3
    then show ?thesis using fin assms(2) by blast
  qed
qed

theorem dispatcher_not_stuck_witness:
  "\<exists>s'. csub_step Inr (newClientSubscription\<lparr>cs_disp := DDeliver JNull\<rparr>) s' \<and>
     (cs_disp s' = DIdle \<or> (\<exists>s''. csub_step Inr s' s'' \<and> cs_disp s'' = DIdle))"
  by (rule dispatcher_not_stuck [OF csub_reach_deliver]) simp



end
