(* ===== verification/Rpc_Client.thy ===== *)
theory Rpc_Client
  imports Rpc_HttpConn Rpc_ClientSub
begin

text \<open>
  client.go: request ids and messages, CallContext, BatchCallContext, Notify and Subscribe,
  sending with one retry over a new connection, and the dispatch loop with the goroutines that talk to it.

  The 32-bit counter of the ids is a word. What the network does is a parameter: the outcomes of
  writes and of reconnect attempts, and what a send and the wait after it find.
\<close>

section \<open>Messages\<close>

record Client =
  isHTTP :: bool
  c_services :: "middleware serviceRegistry"
  c_idgen :: "nat \<Rightarrow> string"
  idCounter :: "32 word"
  c_reconnectFunc :: bool
  c_batchItemLimit :: int
  c_batchResponseMaxSize :: int

text \<open>initClient; the parameter \<open>random\<close> stands for the ids of randomIDGenerator, the default.\<close>

definition initClient :: "(nat \<Rightarrow> string) \<Rightarrow> bool \<Rightarrow> middleware serviceRegistry \<Rightarrow> clientConfig \<Rightarrow> Client" where
  "initClient random isHTTPConn reg cfg =
     \<lparr>isHTTP = isHTTPConn, c_services = reg, c_idgen = (case cfg_idgen cfg of None \<Rightarrow> random | Some g \<Rightarrow> g), idCounter = 0,
      c_reconnectFunc = False, c_batchItemLimit = batchItemLimit cfg, c_batchResponseMaxSize = batchResponseLimit cfg\<rparr>"

definition newClient ::
    "(nat \<Rightarrow> string) \<Rightarrow> bool \<Rightarrow> clientConfig \<Rightarrow> goerr option \<Rightarrow> goerr + Client" where
  "newClient random isHTTPConn cfg connect =
     (case connect of
        Some err \<Rightarrow> Inl err
      | None \<Rightarrow> Inr ((initClient random isHTTPConn new_serviceRegistry cfg)\<lparr>c_reconnectFunc := True\<rparr>))"

text \<open>newClientConn: the configuration of the handler of a connection, and its empty state.\<close>

definition newClientConn :: "usertypes \<Rightarrow> goerr option list \<Rightarrow> Client \<Rightarrow> handlercfg \<times> hstate" where
  "newClientConn ut plan c =
     (\<lparr>hreg = c_services c, huser = ut, batchRequestLimit = c_batchItemLimit c, batchResponseMaxSize = c_batchResponseMaxSize c\<rparr>,
      new_hstate (c_idgen c) plan)"

definition Client_RegisterName :: "string \<Rightarrow> receiver \<Rightarrow> Client \<Rightarrow> goerr + Client" where
  "Client_RegisterName name rv c =
     (case registerName name rv (c_services c) of Inl err \<Rightarrow> Inl err | Inr reg \<Rightarrow> Inr (c\<lparr>c_services := reg\<rparr>))"

definition SupportsSubscriptions :: "Client \<Rightarrow> bool" where
  "SupportsSubscriptions c \<longleftrightarrow> \<not> isHTTP c"

section \<open>Request ids\<close>

definition nextID :: "Client \<Rightarrow> json \<times> Client" where
  "nextID c = (let n = idCounter c + 1 in (JNum (dec_digits (unat n)), c\<lparr>idCounter := n\<rparr>))"

text \<open>json.Marshal of the slice of arguments.\<close>

fun marshal_all :: "usertypes \<Rightarrow> goval list \<Rightarrow> string + json list" where
  "marshal_all ut [] = Inr []"
| "marshal_all ut (v # vs) =
     (case json_Marshal ut v of
        Inl err \<Rightarrow> Inl err
      | Inr j \<Rightarrow> (case marshal_all ut vs of Inl err \<Rightarrow> Inl err | Inr js \<Rightarrow> Inr (j # js)))"

definition marshal_params :: "usertypes \<Rightarrow> goval list \<Rightarrow> string + json" where
  "marshal_params ut vs =
     (case marshal_all ut vs of
        Inl err \<Rightarrow> Inl err
      | Inr js \<Rightarrow> Inr (JArr (''['' @ join_comma (map raw_of js) @ '']'') js))"

text \<open>newMessage; \<^const>\<open>None\<close> is a call without arguments. The id is used up even when the arguments
  cannot be encoded.\<close>

definition newMessage :: "usertypes \<Rightarrow> string \<Rightarrow> goval list option \<Rightarrow> Client \<Rightarrow> (goerr + jsonrpcMessage) \<times> Client" where
  "newMessage ut meth paramsIn c =
     (case nextID c of
        (i, c') \<Rightarrow>
          (let msg = new_jsonrpcMessage\<lparr>Version := vsn, ID := Some i, Method := meth\<rparr> in
           case paramsIn of
             None \<Rightarrow> (Inr msg, c')
           | Some vs \<Rightarrow>
               (case marshal_params ut vs of
                  Inl err \<Rightarrow> (Inl (PlainErr err), c')
                | Inr p \<Rightarrow> (Inr (msg\<lparr>Params := Some p\<rparr>), c'))))"

section \<open>Single calls\<close>

text \<open>requestOp.wait: the deadline of the context, or what the channel gives; \<^const>\<open>None\<close> means that the
  caller still waits. A closed channel gives no messages.\<close>

definition op_wait :: "goerr option \<Rightarrow> requestOp \<Rightarrow> (goerr + jsonrpcMessage list) goresult" where
  "op_wait ctxErr x =
     (case ctxErr of
        Some e \<Rightarrow> Ret (Inl e)
      | None \<Rightarrow>
          (let result = (\<lambda>resp. Ret (case op_err x of Some e \<Rightarrow> Inl e | None \<Rightarrow> Inr resp)) in
           case chbuf (op_resp x) of
             resp # _ \<Rightarrow> result resp
           | [] \<Rightarrow> (if chclosed (op_resp x) then result [] else Blocks)))"

text \<open>The end of CallContext: the result is decoded into the type the pointer of the caller points
  to, if it passed one. An empty slice of responses panics.\<close>

definition call_outcome ::
    "usertypes \<Rightarrow> rtype option \<Rightarrow> jsonrpcMessage list \<Rightarrow> (goerr + goval option) goresult" where
  "call_outcome ut t batchresp =
     (case batchresp of
        [] \<Rightarrow> Panics
      | resp # _ \<Rightarrow>
          Ret (case Error resp of
                 Some e \<Rightarrow> Inl (JsonErr e)
               | None \<Rightarrow>
                   (case Result resp of
                      None \<Rightarrow> Inl ErrNoResult
                    | Some j \<Rightarrow>
                        (case t of
                           None \<Rightarrow> Inr None
                         | Some ty \<Rightarrow>
                             (case json_Unmarshal ut ty j of
                                Inl err \<Rightarrow> Inl (PlainErr err)
                              | Inr v \<Rightarrow> Inr (Some v))))))"

text \<open>What sending an operation does: the error of send, or the operation as its caller finds it when it stops waiting.
  Over HTTP this is \<^const>\<open>sendHTTP\<close>, else what the dispatch loop below does to the operation.\<close>

type_synonym transport = "requestOp \<Rightarrow> wire \<Rightarrow> (goerr option \<times> requestOp) goresult"

fun bind_result :: "'a goresult \<Rightarrow> ('a \<Rightarrow> 'b goresult) \<Rightarrow> 'b goresult" where
  "bind_result (Ret x) f = f x"
| "bind_result Blocks f = Blocks"
| "bind_result Panics f = Panics"

text \<open>CallContext; \<open>result\<close> is the type of the result argument, if it is not nil, which has to be a
  pointer. (The text of that error also shows the argument.)\<close>

fun elem_type :: "rtype \<Rightarrow> rtype" where
  "elem_type (TPtr t _) = t"
| "elem_type t = t"

definition CallContext ::
    "usertypes \<Rightarrow> transport \<Rightarrow> goerr option \<Rightarrow> rtype option \<Rightarrow> string \<Rightarrow> goval list option \<Rightarrow> Client \<Rightarrow>
     (goerr + goval option) goresult \<times> Client" where
  "CallContext ut send ctxErr result meth args c =
     (if (case result of Some t \<Rightarrow> \<not> is_ptr t | None \<Rightarrow> False)
      then (Ret (Inl (PlainErr ''call result parameter must be pointer or nil interface'')), c)
      else case newMessage ut meth args c of
        (Inl err, c') \<Rightarrow> (Ret (Inl err), c')
      | (Inr msg, c') \<Rightarrow>
          (bind_result (send (new_requestOp [raw_string (ID msg)] None) (WMsg msg)) (\<lambda>(err, x).
             case err of
               Some e \<Rightarrow> Ret (Inl e)
             | None \<Rightarrow> bind_result (op_wait ctxErr x) (\<lambda>w.
                 case w of Inl e \<Rightarrow> Ret (Inl e) | Inr batchresp \<Rightarrow> call_outcome ut (map_option elem_type result) batchresp)), c'))"

definition Client_Call ::
    "usertypes \<Rightarrow> transport \<Rightarrow> rtype option \<Rightarrow> string \<Rightarrow> goval list option \<Rightarrow> Client \<Rightarrow> (goerr + goval option) goresult \<times> Client" where
  "Client_Call ut send result meth args c = CallContext ut send None result meth args c"

text \<open>The transport of an HTTP client.\<close>

definition http_transport :: "usertypes \<Rightarrow> http_do \<Rightarrow> httpConn \<Rightarrow> http_header option \<Rightarrow> transport" where
  "http_transport ut client_Do hc ctx x w = (case w of WMsg msg \<Rightarrow> sendHTTP ut client_Do hc ctx x msg | _ \<Rightarrow> Panics)"

text \<open>Notify sends a message without id for an operation that waits for nothing.\<close>

definition Client_Notify ::
    "usertypes \<Rightarrow> transport \<Rightarrow> string \<Rightarrow> goval list option \<Rightarrow> Client \<Rightarrow> goerr option goresult \<times> Client" where
  "Client_Notify ut send meth args c =
     (case newMessage ut meth args c of
        (Inl err, c') \<Rightarrow> (Ret (Some err), c')
      | (Inr msg, c') \<Rightarrow> (bind_result (send zero_requestOp (WMsg (msg\<lparr>ID := None\<rparr>))) (\<lambda>(err, x). Ret err), c'))"

text \<open>Subscribe; the channel argument is no channel, a channel one cannot send on, nil, or fine. The
  subscription is the index \<open>sub\<close>.\<close>

datatype chan_arg = NoChan | RecvOnlyChan | NilChan | SendChan

definition Subscribe ::
    "usertypes \<Rightarrow> transport \<Rightarrow> goerr option \<Rightarrow> nat \<Rightarrow> string \<Rightarrow> chan_arg \<Rightarrow> goval list option \<Rightarrow> Client \<Rightarrow>
     (goerr + nat) goresult \<times> Client" where
  "Subscribe ut send ctxErr sub namespace ch args c =
     (if ch \<noteq> SendChan then (Panics, c)
      else if isHTTP c then (Ret (Inl NotificationsUnsupportedError), c)
      else case newMessage ut (namespace @ subscribeMethodSuffix) args c of
        (Inl err, c') \<Rightarrow> (Ret (Inl err), c')
      | (Inr msg, c') \<Rightarrow>
          (bind_result (send (new_requestOp [raw_string (ID msg)] (Some sub)) (WMsg msg)) (\<lambda>(err, x).
             case err of
               Some e \<Rightarrow> Ret (Inl e)
             | None \<Rightarrow> bind_result (op_wait ctxErr x) (\<lambda>w. Ret (case w of Inl e \<Rightarrow> Inl e | Inr _ \<Rightarrow> Inr sub))), c'))"

definition EthSubscribe ::
    "usertypes \<Rightarrow> transport \<Rightarrow> goerr option \<Rightarrow> nat \<Rightarrow> chan_arg \<Rightarrow> goval list option \<Rightarrow> Client \<Rightarrow> (goerr + nat) goresult \<times> Client" where
  "EthSubscribe ut send ctxErr sub ch args c = Subscribe ut send ctxErr sub ''eth'' ch args c"

definition ShhSubscribe ::
    "usertypes \<Rightarrow> transport \<Rightarrow> goerr option \<Rightarrow> nat \<Rightarrow> chan_arg \<Rightarrow> goval list option \<Rightarrow> Client \<Rightarrow> (goerr + nat) goresult \<times> Client" where
  "ShhSubscribe ut send ctxErr sub ch args c = Subscribe ut send ctxErr sub ''shh'' ch args c"

text \<open>SupportedModules asks for a map.\<close>

definition SupportedModules ::
    "usertypes \<Rightarrow> transport \<Rightarrow> goerr option \<Rightarrow> rtype \<Rightarrow> Client \<Rightarrow> (goerr + goval option) goresult \<times> Client" where
  "SupportedModules ut send ctxErr map_ptr c = CallContext ut send ctxErr (Some map_ptr) ''rpc_modules'' None c"

section \<open>Batch calls\<close>

record BatchElem =
  be_Method :: string
  be_Args :: "goval list option"
  be_Type :: "rtype option" \<comment> \<open>what the pointer Result points to, if it is not nil\<close>
  be_Result :: "goval option"
  be_Error :: "goerr option"

text \<open>The first loop: the messages, the ids of the operation, and the map from ids to positions.\<close>

fun batch_messages ::
    "usertypes \<Rightarrow> nat \<Rightarrow> BatchElem list \<Rightarrow> jsonrpcMessage list \<times> (string, nat) gomap \<Rightarrow> Client \<Rightarrow>
     (goerr + jsonrpcMessage list \<times> (string, nat) gomap) \<times> Client" where
  "batch_messages ut i [] acc c = (Inr acc, c)"
| "batch_messages ut i (e # es) (msgs, byID) c =
     (case newMessage ut (be_Method e) (be_Args e) c of
        (Inl err, c') \<Rightarrow> (Inl err, c')
      | (Inr msg, c') \<Rightarrow>
          batch_messages ut (Suc i) es (msgs @ [msg], map_set (raw_string (ID msg)) i byID) c')"

definition assign_response :: "usertypes \<Rightarrow> jsonrpcMessage \<Rightarrow> BatchElem \<Rightarrow> BatchElem" where
  "assign_response ut resp e =
     (case Error resp of
        Some err \<Rightarrow> e\<lparr>be_Error := Some (JsonErr err)\<rparr>
      | None \<Rightarrow>
          (case Result resp of
             None \<Rightarrow> e\<lparr>be_Error := Some ErrNoResult\<rparr>
           | Some j \<Rightarrow>
               (case be_Type e of
                  None \<Rightarrow> e\<lparr>be_Error := Some (PlainErr ''json: Unmarshal(nil)'')\<rparr>
                | Some t \<Rightarrow>
                    (case json_Unmarshal ut t j of
                       Inl err \<Rightarrow> e\<lparr>be_Error := Some (PlainErr err)\<rparr>
                     | Inr v \<Rightarrow> e\<lparr>be_Error := None, be_Result := Some v\<rparr>))))"

text \<open>The second loop, over the responses; a nil response is skipped.\<close>

fun assign_responses ::
    "usertypes \<Rightarrow> jsonrpcMessage option list \<Rightarrow> (string, nat) gomap \<Rightarrow> BatchElem list \<Rightarrow>
     (string, nat) gomap \<times> BatchElem list" where
  "assign_responses ut [] byID b = (byID, b)"
| "assign_responses ut (None # resps) byID b = assign_responses ut resps byID b"
| "assign_responses ut (Some resp # resps) byID b =
     (case map_get byID (raw_string (ID resp)) of
        None \<Rightarrow> assign_responses ut resps byID b
      | Some index \<Rightarrow>
          assign_responses ut resps (map_delete (raw_string (ID resp)) byID) (b[index := assign_response ut resp (b ! index)]))"

text \<open>The last loop marks the elements without a response.\<close>

definition mark_missing :: "(string, nat) gomap \<Rightarrow> BatchElem list \<Rightarrow> BatchElem list" where
  "mark_missing byID b = fold (\<lambda>kv b. b[snd kv := (b ! snd kv)\<lparr>be_Error := Some ErrMissingBatchResponse\<rparr>]) byID b"

definition BatchCall_assign :: "usertypes \<Rightarrow> jsonrpcMessage option list \<Rightarrow> (string, nat) gomap \<Rightarrow> BatchElem list \<Rightarrow> BatchElem list" where
  "BatchCall_assign ut batchresp byID b =
     (case assign_responses ut batchresp byID b of (byID', b') \<Rightarrow> mark_missing byID' b')"

text \<open>BatchCallContext over HTTP and over a connection. The first component is the error it returns, with the batch
  as the call leaves it.\<close>

definition BatchCallContext_HTTP ::
    "usertypes \<Rightarrow> http_do \<Rightarrow> httpConn \<Rightarrow> http_header option \<Rightarrow> BatchElem list \<Rightarrow> Client \<Rightarrow> (goerr option \<times> BatchElem list) \<times> Client" where
  "BatchCallContext_HTTP ut client_Do hc ctx b c =
     (case batch_messages ut 0 b ([], []) c of
        (Inl err, c') \<Rightarrow> ((Some err, b), c')
      | (Inr (msgs, byID), c') \<Rightarrow>
          (case sendBatchHTTP ut client_Do hc ctx msgs of
             Inl err \<Rightarrow> ((Some err, b), c')
           | Inr batchresp \<Rightarrow> ((None, BatchCall_assign ut batchresp byID b), c')))"

definition BatchCallContext ::
    "usertypes \<Rightarrow> transport \<Rightarrow> goerr option \<Rightarrow> BatchElem list \<Rightarrow> Client \<Rightarrow> (goerr option \<times> BatchElem list) goresult \<times> Client" where
  "BatchCallContext ut send ctxErr b c =
     (case batch_messages ut 0 b ([], []) c of
        (Inl err, c') \<Rightarrow> (Ret (Some err, b), c')
      | (Inr (msgs, byID), c') \<Rightarrow>
          (bind_result (send (new_requestOp (map (\<lambda>m. raw_string (ID m)) msgs) None) (WBatch msgs)) (\<lambda>(err, x).
             case err of
               Some e \<Rightarrow> Ret (Some e, b)
             | None \<Rightarrow> bind_result (op_wait ctxErr x) (\<lambda>w. Ret
                 (case w of
                    Inl e \<Rightarrow> (Some e, b)
                  | Inr batchresp \<Rightarrow> (None, BatchCall_assign ut (map Some batchresp) byID b)))), c'))"

definition BatchCall ::
    "usertypes \<Rightarrow> transport \<Rightarrow> BatchElem list \<Rightarrow> Client \<Rightarrow> (goerr option \<times> BatchElem list) goresult \<times> Client" where
  "BatchCall ut send b c = BatchCallContext ut send None b c"

section \<open>Sending\<close>

text \<open>write and reconnect. The state is whether writeConn is set and how many writes and
  reconnects were made; the parameters give the outcome of the n-th write and of the n-th reconnect. Without a
  reconnect function every reconnect fails with errDead.\<close>

record wstate =
  writeConn :: bool
  w_writes :: nat
  w_reconnects :: nat

definition client_reconnect :: "bool \<Rightarrow> (nat \<Rightarrow> goerr option) \<Rightarrow> wstate \<Rightarrow> goerr option \<times> wstate" where
  "client_reconnect hasFunc rc w =
     (if \<not> hasFunc then (Some ErrDead, w)
      else case rc (w_reconnects w) of
        Some err \<Rightarrow> (Some err, w\<lparr>w_reconnects := Suc (w_reconnects w)\<rparr>)
      | None \<Rightarrow> (None, w\<lparr>w_reconnects := Suc (w_reconnects w), writeConn := True\<rparr>))"

text \<open>One attempt: reconnect if the previous write failed, then write.\<close>

definition write_attempt ::
    "bool \<Rightarrow> (nat \<Rightarrow> goerr option) \<Rightarrow> (nat \<Rightarrow> goerr option) \<Rightarrow> wstate \<Rightarrow> (bool \<times> goerr option) \<times> wstate" where
  "write_attempt hasFunc rc wr w =
     (case (if writeConn w then (None, w) else client_reconnect hasFunc rc w) of
        (Some err, w1) \<Rightarrow> ((False, Some err), w1)
      | (None, w1) \<Rightarrow>
          (let err = wr (w_writes w1); w2 = w1\<lparr>w_writes := Suc (w_writes w1)\<rparr> in
           ((True, err), if err \<noteq> None then w2\<lparr>writeConn := False\<rparr> else w2)))"

definition client_write ::
    "bool \<Rightarrow> (nat \<Rightarrow> goerr option) \<Rightarrow> (nat \<Rightarrow> goerr option) \<Rightarrow> wstate \<Rightarrow> goerr option \<times> wstate" where
  "client_write hasFunc rc wr w =
     (case write_attempt hasFunc rc wr w of
        ((False, err), w1) \<Rightarrow> (err, w1)
      | ((True, None), w1) \<Rightarrow> (None, w1)
      | ((True, Some _), w1) \<Rightarrow> (case write_attempt hasFunc rc wr w1 of ((_, err), w2) \<Rightarrow> (err, w2)))"

section \<open>The dispatch loop\<close>

text \<open>
  The goroutine of dispatch, the sender that holds the write lock, the read goroutine and callers that
  time out. The fields are the tables of the current handler and the operations, lastOp, whether the
  sender holds the lock (reqInitLock is nil) and how far it is, whether the read loop runs, whether the client was
  closed, which operations were already sent on reqInit, and whether there is a reconnect function. Only one sender can be between its send on
  reqInit and the receipt of its reqSent, because the loop does not listen on reqInit in between.
\<close>

datatype sender = SNone | SWriting | SSent "goerr option"

record dispst =
  d_req :: reqst
  d_lastOp :: "nat option"
  d_sender :: sender
  d_reading :: bool
  d_closed :: bool
  d_started :: "nat set"
  d_reconnect :: bool

text \<open>An operation that may be sent: its channel can take the response, or it waits for none.\<close>

definition op_sendable :: "requestOp \<Rightarrow> bool" where
  "op_sendable x \<longleftrightarrow> op_ids x = [] \<or> op_pending x"

definition disp_init :: "requestOp list \<Rightarrow> dispst \<Rightarrow> bool" where
  "disp_init os d \<longleftrightarrow>
     (\<forall>x \<in> set os. op_sendable x \<and> \<not> op_hadResponse x) \<and>
     (\<exists>rf. d = \<lparr>d_req = new_reqst os, d_lastOp = None, d_sender = SNone, d_reading = True, d_closed = False, d_started = {}, d_reconnect = rf\<rparr>)"

text \<open>newClientConn: a handler with empty tables; the operations and subscriptions are objects of
  their own.\<close>

definition new_conn :: "reqst \<Rightarrow> reqst" where
  "new_conn s = s\<lparr>respWait := [], clientSubs := []\<rparr>"

text \<open>The message or batch that was read goes to the handler.\<close>

definition dispatch_read :: "handlercfg \<Rightarrow> jsonrpcMessage list \<Rightarrow> bool \<Rightarrow> reqst \<Rightarrow> (call_proc list \<times> reqst) option" where
  "dispatch_read cfg msgs batch s = (if batch then handleBatch cfg msgs s else handleMsg (msgs ! 0) s)"

inductive disp_step :: "handlercfg \<Rightarrow> dispst \<Rightarrow> dispst \<Rightarrow> bool" for cfg where
  req_init: "\<not> d_closed d \<Longrightarrow> d_sender d = SNone \<Longrightarrow> rq < length (ops (d_req d)) \<Longrightarrow> rq \<notin> d_started d \<Longrightarrow>
    disp_step cfg d (d\<lparr>d_lastOp := Some rq, d_sender := SWriting, d_req := addRequestOp rq (d_req d), d_started := insert rq (d_started d)\<rparr>)"
| reconnected: "\<not> d_closed d \<Longrightarrow> d_reconnect d \<Longrightarrow> d_sender d = SWriting \<Longrightarrow> d_lastOp d = Some rq \<Longrightarrow>
    (if d_reading d then cancelAllRequests ErrClientReconnected (d_lastOp d) (d_req d) else Some (d_req d)) = Some s \<Longrightarrow>
    disp_step cfg d (d\<lparr>d_req := addRequestOp rq (new_conn s), d_reading := True\<rparr>)"
| write_done: "d_sender d = SWriting \<Longrightarrow> disp_step cfg d (d\<lparr>d_sender := SSent err\<rparr>)"
| req_sent: "\<not> d_closed d \<Longrightarrow> d_sender d = SSent err \<Longrightarrow> d_lastOp d = Some rq \<Longrightarrow>
    disp_step cfg d (d\<lparr>d_req := (if err \<noteq> None then removeRequestOp rq (d_req d) else d_req d), d_sender := SNone, d_lastOp := None\<rparr>)"
| read_op: "\<not> d_closed d \<Longrightarrow> d_reading d \<Longrightarrow> batch \<or> msgs \<noteq> [] \<Longrightarrow> dispatch_read cfg msgs batch (d_req d) = Some (procs, s) \<Longrightarrow>
    disp_step cfg d (d\<lparr>d_req := s\<rparr>)"
| read_err: "\<not> d_closed d \<Longrightarrow> d_reading d \<Longrightarrow> cancelAllRequests err (d_lastOp d) (d_req d) = Some s \<Longrightarrow>
    disp_step cfg d (d\<lparr>d_req := s, d_reading := False\<rparr>)"
| req_timeout: "\<not> d_closed d \<Longrightarrow> rq \<in> d_started d \<Longrightarrow> disp_step cfg d (d\<lparr>d_req := removeRequestOp rq (d_req d)\<rparr>)"
| close: "\<not> d_closed d \<Longrightarrow> (if d_reading d then cancelAllRequests ErrClientQuit None (d_req d) else Some (d_req d)) = Some s \<Longrightarrow>
    disp_step cfg d (d\<lparr>d_req := s, d_closed := True\<rparr>)"

text \<open>The tables are in order, lastOp is set exactly while there is a sender, and it is an operation
  that can be registered again.\<close>

definition dinv :: "dispst \<Rightarrow> bool" where
  "dinv d \<longleftrightarrow>
     rinv (d_req d) \<and>
     (d_lastOp d = None \<longleftrightarrow> d_sender d = SNone) \<and>
     (\<forall>rq. d_lastOp d = Some rq \<longrightarrow> rq < length (ops (d_req d)) \<and> rq \<in> d_started d \<and>
        (\<not> d_closed d \<longrightarrow> op_sendable (ops (d_req d) ! rq))) \<and>
     (\<forall>rq. registered (d_req d) rq \<longrightarrow> rq \<in> d_started d) \<and>
     (\<forall>rq < length (ops (d_req d)). rq \<notin> d_started d \<longrightarrow> op_sendable (ops (d_req d) ! rq))"

section \<open>The invariant of the dispatch loop\<close>

lemma addRequestOp_ops [simp]: "ops (addRequestOp rq s) = ops s"
  by (simp add: addRequestOp_def)

lemma removeRequestOp_ops [simp]: "ops (removeRequestOp rq s) = ops s"
  by (simp add: removeRequestOp_def)

lemma new_conn_fields [simp]: "ops (new_conn s) = ops s" "rinv (new_conn s)" "wait_op (new_conn s) i = None"
  by (simp_all add: new_conn_def rinv_def wait_op_def)

lemma addRequestOp_sendable:
  assumes "rinv s" and "rq < length (ops s)" and "op_sendable (ops s ! rq)"
  shows "rinv (addRequestOp rq s)"
proof (cases "op_ids (ops s ! rq) = []")
  case True
  then have "addRequestOp rq s = s" by (simp add: addRequestOp_def map_set_all_def)
  then show ?thesis using assms(1) by simp
next
  case False
  then show ?thesis using assms by (intro addRequestOp_rinv) (simp_all add: op_sendable_def)
qed

lemma registered_add: "registered (addRequestOp rq s) q \<Longrightarrow> q = rq \<or> registered s q"
  by (auto simp: registered_def requests.waiting_register split: if_splits)

lemma registered_remove: "registered (removeRequestOp rq s) q \<Longrightarrow> registered s q"
  by (auto simp: registered_def requests.waiting_unregister split: if_splits)

lemma not_registered_new_conn [simp]: "\<not> registered (new_conn s) rq"
  by (simp add: registered_def)

text \<open>What reading does to the operations: those that were registered may have got a response, the
  others are untouched, and nothing becomes registered.\<close>

definition read_frame :: "reqst \<Rightarrow> reqst \<Rightarrow> bool" where
  "read_frame s s' \<longleftrightarrow>
     rinv s' \<and> length (ops s') = length (ops s) \<and>
     (\<forall>rq. registered s' rq \<longrightarrow> registered s rq) \<and>
     (\<forall>rq. op_sendable (ops s ! rq) \<longrightarrow> op_sendable (ops s' ! rq)) \<and>
     (\<forall>rq. \<not> registered s rq \<longrightarrow> ops s' ! rq = ops s ! rq)"

lemma read_frame_refl: "rinv s \<Longrightarrow> read_frame s s"
  by (simp add: read_frame_def)

lemma responses_frame:
  assumes "responses_done batch s s'"
  shows "read_frame s s'"
proof -
  have r: "registered s' rq \<Longrightarrow> registered s rq" for rq
    using assms by (auto simp: responses_done_def registered_def split: if_splits)
  have o: "if rq \<in> hit s batch then got batch (ops s ! rq) (ops s' ! rq) else ops s' ! rq = ops s ! rq" for rq
    using assms by (simp add: responses_done_def)
  have "rq \<in> hit s batch \<Longrightarrow> registered s rq" for rq by (auto simp: hit_def registered_def)
  then have "\<not> registered s rq \<Longrightarrow> ops s' ! rq = ops s ! rq" for rq using o [of rq] by (auto split: if_splits)
  moreover have "op_sendable (ops s ! rq) \<Longrightarrow> op_sendable (ops s' ! rq)" for rq
    using o [of rq] by (auto simp: got_def op_sendable_def op_pending_def split: if_splits)
  ultimately show ?thesis using r assms by (simp add: read_frame_def responses_done_def)
qed

lemma dispatch_read_ok:
  assumes "rinv s"
  shows "\<exists>procs s'. dispatch_read cfg msgs batch s = Some (procs, s') \<and> read_frame s s'"
proof -
  obtain s1 where s1: "handleResponses [msgs ! 0] s = Some (filter is_call_msg [msgs ! 0], s1)" "read_frame s s1"
    using handleResponses_ok [OF assms] responses_frame by blast
  obtain s2 where s2: "handleResponses msgs s = Some (filter is_call_msg msgs, s2)" "read_frame s s2"
    using handleResponses_ok [OF assms] responses_frame by blast
  show ?thesis
    using s1 s2 read_frame_refl [OF assms] by (simp add: dispatch_read_def handleMsg_def handleBatch_def)
qed

text \<open>What cancelling does to them.\<close>

definition cancel_frame :: "nat option \<Rightarrow> reqst \<Rightarrow> reqst \<Rightarrow> bool" where
  "cancel_frame inflight s s' \<longleftrightarrow>
     rinv s' \<and> length (ops s') = length (ops s) \<and> (\<forall>rq. \<not> registered s' rq) \<and>
     (\<forall>rq. \<not> registered s rq \<or> inflight = Some rq \<longrightarrow> ops s' ! rq = ops s ! rq)"

lemma cancel_ok:
  assumes "rinv s"
  shows "\<exists>s'. cancelAllRequests err inflight s = Some s' \<and> cancel_frame inflight s s'"
proof -
  from cancelAllRequests_ok [OF assms, of err inflight] obtain s' where
    "cancelAllRequests err inflight s = Some s'" "respWait s' = []" "clientSubs s' = []" "length (ops s') = length (ops s)"
    "\<And>rq. ops s' ! rq = (if registered s rq \<and> inflight \<noteq> Some rq then cancelled_op err (ops s ! rq) else ops s ! rq)" by metis
  then show ?thesis by (simp add: cancel_frame_def rinv_def wait_op_def registered_def)
qed

lemma cancel_eq: "rinv s \<Longrightarrow> cancelAllRequests err inflight s = Some s' \<Longrightarrow> cancel_frame inflight s s'"
  using cancel_ok [of s err inflight] by auto

lemma read_eq: "rinv s \<Longrightarrow> dispatch_read cfg msgs batch s = Some (procs, s') \<Longrightarrow> read_frame s s'"
  using dispatch_read_ok [of s cfg msgs batch] by auto

lemma dinv_req_unregistered:
  "dinv d \<Longrightarrow> cancel_frame inflight (d_req d) s \<Longrightarrow> rq < length (ops (d_req d)) \<Longrightarrow> rq \<notin> d_started d \<Longrightarrow> op_sendable (ops s ! rq)"
  by (metis cancel_frame_def dinv_def)

lemma dinv_step:
  assumes "disp_step cfg d d'" and "dinv d"
  shows "dinv d'"
  using assms
proof (induction rule: disp_step.induct)
  case (req_init d rq)
  have p: "op_sendable (ops (d_req d) ! rq)" using req_init by (simp add: dinv_def)
  have "rinv (addRequestOp rq (d_req d))" using req_init p by (auto simp: dinv_def intro: addRequestOp_sendable)
  then show ?case using req_init p by (auto simp: dinv_def dest: registered_add)
next
  case (reconnected d rq s)
  have inv: "rinv (d_req d)" using reconnected by (simp add: dinv_def)
  have "cancel_frame (d_lastOp d) (d_req d) s \<or> s = d_req d"
    using reconnected(5) cancel_eq [OF inv] by (auto split: if_splits)
  moreover have "q \<notin> d_started d \<Longrightarrow> \<not> registered (d_req d) q" for q using reconnected(6) by (auto simp: dinv_def)
  ultimately have s: "length (ops s) = length (ops (d_req d))" "ops s ! rq = ops (d_req d) ! rq"
    "\<And>q. q \<notin> d_started d \<Longrightarrow> ops s ! q = ops (d_req d) ! q"
    using reconnected(4) by (auto simp: cancel_frame_def)
  have "rinv (addRequestOp rq (new_conn s))"
    by (rule addRequestOp_sendable) (use reconnected s in \<open>auto simp: dinv_def\<close>)
  moreover have "q = rq" if "registered (addRequestOp rq (new_conn s)) q" for q using registered_add [OF that] by simp
  ultimately show ?case using reconnected s by (auto simp: dinv_def)
next
  case (req_sent d err rq)
  then show ?case using removeRequestOp_rinv registered_remove by (auto simp: dinv_def)
next
  case (read_op d batch msgs procs s)
  then have "read_frame (d_req d) s" using read_eq by (auto simp: dinv_def)
  then show ?case using read_op(5) by (simp add: dinv_def read_frame_def)
next
  case (read_err d err s)
  then have c: "cancel_frame (d_lastOp d) (d_req d) s" using cancel_eq by (auto simp: dinv_def)
  then show ?case using read_err dinv_req_unregistered [OF _ c] by (auto simp: dinv_def cancel_frame_def)
next
  case (req_timeout d rq)
  then show ?case using removeRequestOp_rinv registered_remove by (auto simp: dinv_def)
next
  case (close d s)
  show ?case
  proof (cases "d_reading d")
    case True
    then have c: "cancel_frame None (d_req d) s" using close cancel_eq by (auto simp: dinv_def)
    then show ?thesis using close dinv_req_unregistered [OF _ c] by (auto simp: dinv_def cancel_frame_def)
  next
    case False
    then show ?thesis using close by (auto simp: dinv_def)
  qed
qed (auto simp: dinv_def)

interpretation dispatch: invariant_system "disp_init os" "disp_step cfg" dinv
  for os cfg
proof
  show "disp_init os d \<Longrightarrow> dinv d" for d
    by (auto simp: disp_init_def dinv_def registered_def wait_op_def new_reqst_def rinv_def)
qed (rule dinv_step)

text \<open>A step changes an operation only if it is registered.\<close>

lemma unregistered_unchanged:
  assumes "disp_step cfg d d'" and "dinv d" and "\<not> registered (d_req d) rq"
  shows "ops (d_req d') ! rq = ops (d_req d) ! rq"
proof -
  have inv: "rinv (d_req d)" using assms(2) by (simp add: dinv_def)
  from assms(1) show ?thesis
  proof cases
    case (reconnected rq' s)
    then show ?thesis using assms(3) cancel_eq [OF inv] by (auto simp: cancel_frame_def split: if_splits)
  next
    case (read_op batch msgs procs s)
    then have "read_frame (d_req d) s" using read_eq [OF inv] by auto
    then show ?thesis using read_op assms(3) by (auto simp: read_frame_def)
  next
    case (read_err err s)
    then have "cancel_frame (d_lastOp d) (d_req d) s" using cancel_eq [OF inv] by auto
    then show ?thesis using read_err assms(3) by (auto simp: cancel_frame_def)
  next
    case (close s)
    then have "cancel_frame None (d_req d) s \<or> s = d_req d" using cancel_eq [OF inv] by (auto split: if_splits)
    then show ?thesis using close assms(3) by (auto simp: cancel_frame_def)
  qed auto
qed

lemma registered_step:
  assumes "disp_step cfg d d'" and "dinv d" and "registered (d_req d') rq"
  shows "registered (d_req d) rq \<or> d_lastOp d = Some rq \<or> rq \<notin> d_started d"
proof -
  have inv: "rinv (d_req d)" using assms(2) by (simp add: dinv_def)
  from assms(1) show ?thesis
  proof cases
    case (reconnected rq' s)
    then show ?thesis using assms(3) registered_add [of rq' "new_conn s" rq] by auto
  next
    case (read_op batch msgs procs s)
    then have "read_frame (d_req d) s" using read_eq [OF inv] by auto
    then show ?thesis using read_op assms(3) by (auto simp: read_frame_def)
  next
    case (read_err err s)
    then have "cancel_frame (d_lastOp d) (d_req d) s" using cancel_eq [OF inv] by auto
    then show ?thesis using read_err assms(3) by (auto simp: cancel_frame_def)
  next
    case (close s)
    then have "cancel_frame None (d_req d) s \<or> s = d_req d" using cancel_eq [OF inv] by (auto split: if_splits)
    then show ?thesis using close assms(3) by (auto simp: cancel_frame_def)
  qed (use assms(3) in \<open>auto dest: registered_add registered_remove split: if_splits\<close>)
qed

section \<open>Requests that are never resolved\<close>

text \<open>An operation that was sent and is neither registered nor in flight: nothing can reach it any
  more.\<close>

definition unreachable_op :: "nat \<Rightarrow> requestOp \<Rightarrow> dispst \<Rightarrow> bool" where
  "unreachable_op rq x d \<longleftrightarrow>
     dinv d \<and> rq \<in> d_started d \<and> \<not> registered (d_req d) rq \<and> d_lastOp d \<noteq> Some rq \<and> ops (d_req d) ! rq = x"

lemma unreachable_op_step:
  assumes "disp_step cfg d d'" and "unreachable_op rq x d"
  shows "unreachable_op rq x d'"
proof -
  have u: "dinv d" "rq \<in> d_started d" "\<not> registered (d_req d) rq" "d_lastOp d \<noteq> Some rq" "ops (d_req d) ! rq = x"
    using assms(2) by (simp_all add: unreachable_op_def)
  have "rq \<in> d_started d' \<and> d_lastOp d' \<noteq> Some rq" using assms(1) u(2,4) by cases auto
  then show ?thesis
    using dinv_step [OF assms(1) u(1)] registered_step [OF assms(1) u(1)] unregistered_unchanged [OF assms(1) u(1,3)] u
    unfolding unreachable_op_def by blast
qed

lemma unreachable_op_steps: "(disp_step cfg)\<^sup>*\<^sup>* d d' \<Longrightarrow> unreachable_op rq x d \<Longrightarrow> unreachable_op rq x d'"
  by (induction rule: rtranclp_induct) (auto intro: unreachable_op_step)

text \<open>The run that loses a request: it is registered and written, the connection breaks before the
  loop hears that it was written, and then the loop does.\<close>

lemma lost_run:
  assumes "disp_init os d0" and "rq < length os"
  shows "\<exists>d1 d. reachable (disp_init os) (disp_step cfg) d1 \<and> d_sender d1 = SSent None \<and> d_lastOp d1 = Some rq \<and>
    (disp_step cfg)\<^sup>*\<^sup>* d1 d \<and> unreachable_op rq (os ! rq) d \<and> d_sender d = SNone \<and> \<not> d_closed d"
proof -
  let ?R = "reachable (disp_init os) (disp_step cfg)"
  let ?t = "addRequestOp rq (new_reqst os)"
  obtain rf where d0: "d0 = \<lparr>d_req = new_reqst os, d_lastOp = None, d_sender = SNone, d_reading = True, d_closed = False, d_started = {}, d_reconnect = rf\<rparr>"
    using assms(1) by (auto simp: disp_init_def)
  define dd where "dd s l sn b = \<lparr>d_req = s, d_lastOp = l, d_sender = sn, d_reading = b, d_closed = False, d_started = {rq}, d_reconnect = rf\<rparr>" for s l sn b
  have "?R d0" using assms(1) by (rule reach_init)
  from reach_step [OF this disp_step.req_init [where rq = rq]]
  have r1: "?R (dd ?t (Some rq) SWriting True)" using assms(2) by (simp add: d0 dd_def new_reqst_def)
  from dispatch.reachable_inv [OF r1] have inv: "rinv ?t" by (simp add: dinv_def dd_def)
  obtain s where s: "cancelAllRequests IoEOF (Some rq) ?t = Some s" "cancel_frame (Some rq) ?t s" using cancel_ok [OF inv] by blast
  from reach_step [OF r1 disp_step.write_done [where err = None]]
  have r2: "?R (dd ?t (Some rq) (SSent None) True)" by (simp add: dd_def)
  have s3: "disp_step cfg (dd ?t (Some rq) (SSent None) True) (dd s (Some rq) (SSent None) False)"
    using disp_step.read_err [of "dd ?t (Some rq) (SSent None) True" IoEOF s cfg] s(1) by (simp add: dd_def)
  have s4: "disp_step cfg (dd s (Some rq) (SSent None) False) (dd s None SNone False)"
    using disp_step.req_sent [of "dd s (Some rq) (SSent None) False" None rq cfg] by (simp add: dd_def)
  note r4 = reach_step [OF reach_step [OF r2 s3] s4]
  have "ops s ! rq = os ! rq" "\<not> registered s rq"
    using s(2) by (auto simp: cancel_frame_def new_reqst_def)
  then have "unreachable_op rq (os ! rq) (dd s None SNone False)"
    using dispatch.reachable_inv [OF r4] by (simp add: unreachable_op_def dd_def)
  moreover have "(disp_step cfg)\<^sup>*\<^sup>* (dd ?t (Some rq) (SSent None) True) (dd s None SNone False)" using s3 s4 by auto
  ultimately show ?thesis using r2 by (intro exI [of _ "dd ?t (Some rq) (SSent None) True"] exI [of _ "dd s None SNone False"]) (simp add: dd_def)
qed

text \<open>An operation without ids is never registered.\<close>

lemma no_ids_unregistered: "rinv s \<Longrightarrow> op_ids (ops s ! rq) = [] \<Longrightarrow> \<not> registered s rq"
  using rinvD(4) [of s] by (fastforce simp: registered_def ids_of_op_def)

lemma no_ids_untouched:
  assumes "reachable (disp_init os) (disp_step cfg) d" and "op_ids (os ! rq) = []"
  shows "ops (d_req d) ! rq = os ! rq"
  using assms(1)
proof (induction rule: reachable.induct)
  case (reach_init d)
  then show ?case by (auto simp: disp_init_def new_reqst_def)
next
  case (reach_step d d')
  have "dinv d" using dispatch.reachable_inv reach_step(1) by blast
  moreover from this have "\<not> registered (d_req d) rq"
    using no_ids_unregistered [of "d_req d" rq] reach_step.IH assms(2) by (simp add: dinv_def)
  ultimately show ?case using unregistered_unchanged [OF reach_step(2)] reach_step.IH by simp
qed

section \<open>Request ids\<close>

text \<open>The id of the k-th next message.\<close>

definition nth_id :: "Client \<Rightarrow> nat \<Rightarrow> string" where
  "nth_id c k = dec_digits (unat (idCounter c + of_nat (Suc k)))"

lemma nth_id_inject:
  assumes "a < 2 ^ 32" and "b < 2 ^ 32"
  shows "nth_id c a = nth_id c b \<longleftrightarrow> a = b"
proof
  assume "nth_id c a = nth_id c b"
  then have "idCounter c + of_nat (Suc a) = idCounter c + of_nat (Suc b)"
    by (simp only: nth_id_def dec_digits_inject word_unat_eq_iff)
  then have "(of_nat a :: 32 word) = of_nat b" by simp
  then have "unat (of_nat a :: 32 word) = unat (of_nat b :: 32 word)" by simp
  then show "a = b" using assms by (simp add: unat_of_nat take_bit_nat_eq_self)
qed simp

lemma newMessage_spec:
  "snd (newMessage ut meth ps c) = c\<lparr>idCounter := idCounter c + 1\<rparr> \<and>
   (\<forall>msg. fst (newMessage ut meth ps c) = Inr msg \<longrightarrow>
      raw_string (ID msg) = nth_id c 0 \<and> hasValidVersion msg \<and> hasValidID msg \<and> Method msg = meth \<and> Error msg = None \<and> Result msg = None)"
proof -
  have "dec_digits n = [] \<or> hd (dec_digits n) \<in> digit_char ` {..<10}" for n
    using set_dec_digits [of n] hd_in_set [of "dec_digits n"] by blast
  then have hd: "hd (dec_digits n) \<in> digit_char ` {..<10}" for n by simp
  have d: "c \<noteq> CHR ''{'' \<and> c \<noteq> CHR ''[''" if c: "c \<in> digit_char ` {..<10}" for c
  proof -
    obtain k where "k < 10" "c = digit_char k" using c by auto
    then have "of_char c < (58 :: nat)" by (simp add: of_char_digit)
    then show ?thesis by auto
  qed
  have v: "case dec_digits n of [] \<Rightarrow> False | c # _ \<Rightarrow> c \<noteq> CHR ''{'' \<and> c \<noteq> CHR ''[''" for n
    using d [OF hd [of n]] by (cases "dec_digits n") auto
  have i: "nth_id c 0 = dec_digits (unat (idCounter c + 1))" by (simp add: nth_id_def)
  note nm = hasValidID_def hasValidVersion_def newMessage_def nextID_def Let_def i raw_string_def new_jsonrpcMessage_def
  show ?thesis
  proof (cases ps)
    case None
    then show ?thesis using v by (simp add: nm)
  next
    case (Some vs)
    then show ?thesis using v by (cases "marshal_params ut vs") (simp_all add: nm)
  qed
qed

text \<open>The messages of a batch have consecutive ids, and byID maps the id of each element to its
  position.\<close>

lemma batch_messages_spec:
  assumes "batch_messages ut i es (msgs, byID) c = (Inr (msgs', byID'), c')"
  shows "\<exists>new. msgs' = msgs @ new \<and> length new = length es \<and>
    map (\<lambda>m. raw_string (ID m)) new = map (nth_id c) [0..<length es] \<and>
    byID' = fold (\<lambda>k. map_set (nth_id c k) (i + k)) [0..<length es] byID"
  using assms
proof (induction es arbitrary: i msgs byID c)
  case (Cons e es)
  obtain msg where m: "fst (newMessage ut (be_Method e) (be_Args e) c) = Inr msg"
    using Cons.prems by (cases "newMessage ut (be_Method e) (be_Args e) c") (auto split: sum.splits)
  let ?c1 = "c\<lparr>idCounter := idCounter c + 1\<rparr>"
  have nm: "newMessage ut (be_Method e) (be_Args e) c = (Inr msg, ?c1)" "raw_string (ID msg) = nth_id c 0"
    using m newMessage_spec [of ut "be_Method e" "be_Args e" c] by (simp_all add: prod_eq_iff)
  have shift: "nth_id ?c1 k = nth_id c (Suc k)" for k by (simp add: nth_id_def add.assoc)
  from Cons.IH [of "Suc i" "msgs @ [msg]" "map_set (nth_id c 0) i byID" ?c1] Cons.prems nm obtain new where
    new: "msgs' = (msgs @ [msg]) @ new" "length new = length es"
      "map (\<lambda>m. raw_string (ID m)) new = map (nth_id ?c1) [0..<length es]"
      "byID' = fold (\<lambda>k. map_set (nth_id ?c1 k) (Suc i + k)) [0..<length es] (map_set (nth_id c 0) i byID)" by auto
  have up: "[0..<Suc n] = 0 # map Suc [0..<n]" for n by (simp add: upt_conv_Cons map_Suc_upt del: upt_Suc)
  have "map (\<lambda>m. raw_string (ID m)) (msg # new) = map (nth_id c) [0..<length (e # es)]"
    using new(3) nm(2) by (simp add: up shift comp_def del: upt_Suc)
  moreover have "byID' = fold (\<lambda>k. map_set (nth_id c k) (i + k)) [0..<length (e # es)] byID"
    unfolding new(4) by (simp add: up fold_map shift comp_def del: upt_Suc)
  ultimately show ?case using new(1,2) by (intro exI [of _ "msg # new"]) simp
qed simp

lemma fold_map_set_nth:
  assumes "\<And>a b. a < n \<Longrightarrow> b < n \<Longrightarrow> f a = f b \<longleftrightarrow> a = b"
  shows "map_get (fold (\<lambda>k. map_set (f k) k) [0..<n] []) x = Some i \<longleftrightarrow> i < n \<and> x = f i"
  using assms
proof (induction n)
  case (Suc n)
  have "map_get (fold (\<lambda>k. map_set (f k) k) [0..<n] []) x = Some i \<longleftrightarrow> i < n \<and> x = f i" by (rule Suc.IH) (use Suc.prems in auto)
  then show ?case using Suc.prems [of i n] by (auto simp: map_get_set less_Suc_eq)
qed simp

section \<open>Responses to calls\<close>

lemma handleMsg_response:
  assumes "rinv s" and "wait_op s (raw_string (ID resp)) = Some rq" and "isResponse resp"
    and "op_sub (ops s ! rq) = None" and "op_err (ops s ! rq) = None" and "\<not> op_hadResponse (ops s ! rq)"
  shows "\<exists>s'. handleMsg resp s = Some ([], s') \<and> rinv s' \<and> op_wait None (ops s' ! rq) = Ret (Inr [resp])"
proof -
  from handleResponses_ok [OF assms(1), of "[resp]"] obtain s' where
    h: "handleResponses [resp] s = Some (filter is_call_msg [resp], s')" and d: "responses_done [resp] s s'" by blast
  have "rq \<in> hit s [resp]" using assms(2,3) by (simp add: hit_def)
  then have "got [resp] (ops s ! rq) (ops s' ! rq)" using d by (simp add: responses_done_def)
  then have "op_wait None (ops s' ! rq) = Ret (Inr [resp])" using assms(4-6) by (simp add: got_def op_wait_def Let_def)
  moreover have "\<not> is_call_msg resp" using assms(3) by (simp add: is_call_msg_def)
  ultimately show ?thesis using h d by (simp add: handleMsg_def responses_done_def)
qed

lemma handleMsg_call:
  assumes "rinv s" and "is_call_msg msg"
  shows "\<exists>s'. handleMsg msg s = Some ([ProcCall msg], s') \<and> rinv s'"
proof -
  from handleResponses_ok [OF assms(1), of "[msg]"] obtain s' where
    h: "handleResponses [msg] s = Some (filter is_call_msg [msg], s')" and d: "responses_done [msg] s s'" by blast
  have "filter is_call_msg [msg] = [msg]" using assms(2) by simp
  then have "handleMsg msg s = Some ([ProcCall msg], s')" using h by (simp add: handleMsg_def)
  then show ?thesis using d by (simp add: responses_done_def)
qed

lemma call_resolved:
  assumes "newMessage ut meth args c = (Inr msg, c')" and "rinv s" and "rq < length (ops s)"
    and "ops s ! rq = new_requestOp [raw_string (ID msg)] None" and "isResponse resp" and "ID resp = ID msg"
    and "\<And>t. result = Some t \<Longrightarrow> is_ptr t"
  shows "\<exists>s'. handleMsg resp (addRequestOp rq s) = Some ([], s') \<and>
    CallContext ut (\<lambda>x w. Ret (None, ops s' ! rq)) None result meth args c = (call_outcome ut (map_option elem_type result) [resp], c')"
proof -
  let ?s = "addRequestOp rq s"
  have "rinv ?s"
    using assms(2-4) by (intro addRequestOp_rinv) (simp_all add: new_requestOp_def op_pending_def make_chan_def chan_fresh_def)
  moreover have "wait_op ?s (raw_string (ID resp)) = Some rq"
    using assms(4,6) by (simp add: requests.waiting_register ids_of_op_def new_requestOp_def)
  moreover have "op_sub (ops ?s ! rq) = None" "op_err (ops ?s ! rq) = None" "\<not> op_hadResponse (ops ?s ! rq)"
    using assms(4) by (simp_all add: new_requestOp_def)
  ultimately obtain s' where s': "handleMsg resp ?s = Some ([], s')" "op_wait None (ops s' ! rq) = Ret (Inr [resp])"
    using handleMsg_response [of ?s resp rq] assms(5) by blast
  moreover have "\<not> (case result of Some t \<Rightarrow> \<not> is_ptr t | None \<Rightarrow> False)" using assms(7) by (cases result) auto
  ultimately show ?thesis using assms(1) by (simp add: CallContext_def)
qed

lemma received_fields [simp]:
  "ID (received ut m) = ID m" "Result (received ut m) = Result m" "Method (received ut m) = Method m"
  "isResponse (received ut m) = isResponse m" "Error m = None \<Longrightarrow> received ut m = m"
  by (auto simp: received_def isResponse_def hasValidID_def hasValidVersion_def)

section \<open>Assigning the responses of a batch\<close>

text \<open>The first response with a given id.\<close>

fun first_response :: "string \<Rightarrow> jsonrpcMessage option list \<Rightarrow> jsonrpcMessage option" where
  "first_response i [] = None"
| "first_response i (None # rs) = first_response i rs"
| "first_response i (Some r # rs) = (if raw_string (ID r) = i then Some r else first_response i rs)"

definition answered_elem :: "usertypes \<Rightarrow> jsonrpcMessage option \<Rightarrow> BatchElem \<Rightarrow> BatchElem" where
  "answered_elem ut r e = (case r of None \<Rightarrow> e | Some resp \<Rightarrow> assign_response ut resp e)"

definition inj_map :: "(string, nat) gomap \<Rightarrow> nat \<Rightarrow> bool" where
  "inj_map m n \<longleftrightarrow>
     wf_map m \<and> (\<forall>i k. map_get m i = Some k \<longrightarrow> k < n) \<and>
     (\<forall>i j k. map_get m i = Some k \<longrightarrow> map_get m j = Some k \<longrightarrow> i = j)"

lemma inj_map_delete: "inj_map m n \<Longrightarrow> inj_map (map_delete i m) n"
  by (auto simp: inj_map_def map_get_delete split: if_splits)

lemma assign_responses_spec:
  assumes "inj_map byID (length b)"
  shows "length (snd (assign_responses ut rs byID b)) = length b \<and>
    inj_map (fst (assign_responses ut rs byID b)) (length b) \<and>
    (\<forall>i. map_get (fst (assign_responses ut rs byID b)) i = (if first_response i rs = None then map_get byID i else None)) \<and>
    (\<forall>i k. map_get byID i = Some k \<longrightarrow> snd (assign_responses ut rs byID b) ! k = answered_elem ut (first_response i rs) (b ! k)) \<and>
    (\<forall>k. (\<forall>i. map_get byID i \<noteq> Some k) \<longrightarrow> snd (assign_responses ut rs byID b) ! k = b ! k)"
  using assms
proof (induction ut rs byID b rule: assign_responses.induct)
  case (1 ut byID b)
  then show ?case by (simp add: answered_elem_def)
next
  case (2 ut resps byID b)
  then show ?case by simp
next
  case (3 ut resp resps byID b)
  let ?i = "raw_string (ID resp)"
  show ?case
  proof (cases "map_get byID ?i")
    case None
    then show ?thesis using 3 by auto
  next
    case (Some k)
    let ?m = "map_delete ?i byID" and ?b = "b[k := assign_response ut resp (b ! k)]"
    have k: "k < length b" using 3(3) Some by (auto simp: inj_map_def)
    have uniq: "j = ?i" if "map_get byID j = Some k" for j using 3(3) Some that by (auto simp: inj_map_def)
    note IH = 3(2) [OF Some, unfolded length_list_update, OF inj_map_delete [OF 3(3)]]
    have m: "map_get ?m j = Some k' \<longleftrightarrow> j \<noteq> ?i \<and> map_get byID j = Some k'" for j k' by (simp add: map_get_delete)
    have r: "assign_responses ut (Some resp # resps) byID b = assign_responses ut resps ?m ?b" using Some by simp
    have "\<forall>j. map_get ?m j \<noteq> Some k" using uniq m by blast
    then have "snd (assign_responses ut resps ?m ?b) ! k = ?b ! k" using IH by blast
    then have "snd (assign_responses ut resps ?m ?b) ! k = assign_response ut resp (b ! k)" using k by simp
    moreover have "snd (assign_responses ut resps ?m ?b) ! k' = answered_elem ut (first_response j resps) (b ! k')"
      if "map_get byID j = Some k'" "j \<noteq> ?i" for j k'
      using IH m that uniq by (metis nth_list_update_neq)
    ultimately have elems: "snd (assign_responses ut resps ?m ?b) ! k' = answered_elem ut (first_response j (Some resp # resps)) (b ! k')"
      if "map_get byID j = Some k'" for j k'
      using that Some by (cases "j = ?i") (auto simp: answered_elem_def)
    have rest: "snd (assign_responses ut resps ?m ?b) ! k' = b ! k'" if "\<forall>i. map_get byID i \<noteq> Some k'" for k'
      using IH m that Some by (metis nth_list_update_neq)
    have keys: "map_get (fst (assign_responses ut resps ?m ?b)) j = (if first_response j (Some resp # resps) = None then map_get byID j else None)" for j
    proof -
      have "map_get (fst (assign_responses ut resps ?m ?b)) j = (if first_response j resps = None then map_get ?m j else None)"
        using IH by blast
      then show ?thesis by (auto simp: map_get_delete)
    qed
    show ?thesis unfolding r using IH elems rest keys by blast
  qed
qed

lemma mark_missing_spec:
  "length (mark_missing m b) = length b \<and>
   (k < length b \<longrightarrow> mark_missing m b ! k =
      (if k \<in> snd ` set m then (b ! k)\<lparr>be_Error := Some ErrMissingBatchResponse\<rparr> else b ! k))"
  unfolding mark_missing_def
proof (induction m arbitrary: b)
  case (Cons kv m)
  then show ?case by (cases "k = snd kv") (auto simp: nth_list_update)
qed simp

lemma mark_missing_map_get:
  assumes "wf_map m" and "k < length b"
  shows "mark_missing m b ! k =
    (if \<exists>i. map_get m i = Some k then (b ! k)\<lparr>be_Error := Some ErrMissingBatchResponse\<rparr> else b ! k)"
proof -
  have "k \<in> snd ` set m \<longleftrightarrow> (\<exists>i. map_get m i = Some k)"
    using assms(1) by (force simp: wf_map_def image_iff)
  then show ?thesis using mark_missing_spec [of m b k] assms(2) by simp
qed

section \<open>Properties\<close>

text \<open>C12. In a batch call every element gets the first response that has its id, whatever the order of the
  responses, duplicates and responses with foreign ids; an element without a response gets
  ErrMissingBatchResponse, and the number of elements does not change. The ids of up to two to the
  power 32 elements are distinct although the counter wraps around.\<close>

theorem batch_call_matches_by_id:
  assumes "batch_messages ut 0 b ([], []) c = (Inr (msgs, byID), c')" and "length b \<le> 2 ^ 32"
  shows "length msgs = length b \<and> distinct (map (\<lambda>m. raw_string (ID m)) msgs) \<and>
    length (BatchCall_assign ut resps byID b) = length b \<and>
    (\<forall>k < length b. BatchCall_assign ut resps byID b ! k =
       (case first_response (raw_string (ID (msgs ! k))) resps of
          Some r \<Rightarrow> assign_response ut r (b ! k)
        | None \<Rightarrow> (b ! k)\<lparr>be_Error := Some ErrMissingBatchResponse\<rparr>))"
proof -
  from batch_messages_spec [OF assms(1)] have m: "length msgs = length b"
    "map (\<lambda>m. raw_string (ID m)) msgs = map (nth_id c) [0..<length b]"
    "byID = fold (\<lambda>k. map_set (nth_id c k) k) [0..<length b] []" by auto
  have inj: "nth_id c x = nth_id c y \<longleftrightarrow> x = y" if "x < length b" "y < length b" for x y
    using nth_id_inject [of x y c] that assms(2) by simp
  have id: "raw_string (ID (msgs ! k)) = nth_id c k" if "k < length b" for k
    using arg_cong [OF m(2), of "\<lambda>xs. xs ! k"] that m(1) by simp
  have get: "map_get byID i = Some k \<longleftrightarrow> k < length b \<and> i = nth_id c k" for i k
    unfolding m(3) by (rule fold_map_set_nth) (rule inj)
  have "wf_map (fold (\<lambda>k. map_set (nth_id c k) k) ks m)" if "wf_map m" for ks and m :: "(string, nat) gomap"
    using that by (induction ks arbitrary: m) auto
  then have im: "inj_map byID (length b)" unfolding inj_map_def using get m(3) by auto
  let ?a = "assign_responses ut resps byID b"
  note sp = assign_responses_spec [OF im, of ut resps]
  have wf: "wf_map (fst ?a)" using sp by (simp add: inj_map_def)
  have "BatchCall_assign ut resps byID b = mark_missing (fst ?a) (snd ?a)" by (simp add: BatchCall_assign_def split: prod.split)
  moreover have "mark_missing (fst ?a) (snd ?a) ! k =
      (case first_response (nth_id c k) resps of Some r \<Rightarrow> assign_response ut r (b ! k)
       | None \<Rightarrow> (b ! k)\<lparr>be_Error := Some ErrMissingBatchResponse\<rparr>)" if k: "k < length b" for k
  proof -
    have "snd ?a ! k = answered_elem ut (first_response (nth_id c k) resps) (b ! k)" using sp get k by blast
    moreover have "(\<exists>i. map_get (fst ?a) i = Some k) \<longleftrightarrow> first_response (nth_id c k) resps = None"
    proof -
      have "map_get (fst ?a) i = (if first_response i resps = None then map_get byID i else None)" for i
        using sp by blast
      then have "map_get (fst ?a) i = Some k \<longleftrightarrow> first_response i resps = None \<and> i = nth_id c k" for i
        using get [of i k] k by simp
      then show ?thesis by simp
    qed
    moreover have "k < length (snd ?a)" using sp k by simp
    ultimately show ?thesis using mark_missing_map_get [OF wf] by (simp add: answered_elem_def split: option.split)
  qed
  moreover have "distinct (map (\<lambda>m. raw_string (ID m)) msgs)"
    unfolding m(2) using inj by (auto simp: distinct_map inj_on_def)
  ultimately show ?thesis using m(1) id mark_missing_spec sp by simp
qed

text \<open>A client without services and a batch of two calls, for the witnesses.\<close>

definition demo_client :: Client where
  "demo_client = initClient (\<lambda>_. ''0x1'') False new_serviceRegistry new_clientConfig"

definition demo_elem :: "string \<Rightarrow> BatchElem" where
  "demo_elem m = \<lparr>be_Method = m, be_Args = None, be_Type = Some (TStr ''string''), be_Result = None, be_Error = None\<rparr>"

theorem batch_call_matches_by_id_witness:
  "\<exists>msgs byID c'. batch_messages no_types 0 [demo_elem ''a_b'', demo_elem ''c_d''] ([], []) demo_client = (Inr (msgs, byID), c') \<and>
     length msgs = 2 \<and> distinct (map (\<lambda>m. raw_string (ID m)) msgs) \<and>
     be_Error (BatchCall_assign no_types [] byID [demo_elem ''a_b'', demo_elem ''c_d''] ! 1) = Some ErrMissingBatchResponse"
proof -
  let ?b = "[demo_elem ''a_b'', demo_elem ''c_d'']"
  have "\<exists>msgs byID c'. batch_messages no_types 0 ?b ([], []) demo_client = (Inr (msgs, byID), c')"
    by (simp add: demo_elem_def newMessage_def nextID_def Let_def)
  then obtain msgs byID c' where m: "batch_messages no_types 0 ?b ([], []) demo_client = (Inr (msgs, byID), c')" by blast
  have "length ?b \<le> 2 ^ 32" by simp
  from batch_call_matches_by_id [OF m this, of "[]"] show ?thesis
    using m by (intro exI [of _ msgs] exI [of _ byID] exI [of _ c']) auto
qed

text \<open>write tries at most twice and reconnects at most twice. It reports success exactly when its last
  write went through, and then the connection stays in use; after an error the connection is given up, so that the
  next request reconnects first.\<close>

theorem write_retries_once:
  assumes "client_write hasFunc rc wr w = (err, w')"
  shows "w_writes w' \<le> w_writes w + 2 \<and> w_reconnects w' \<le> w_reconnects w + 2 \<and>
    (err = None \<longrightarrow> writeConn w' \<and> w_writes w < w_writes w' \<and> wr (w_writes w' - 1) = None) \<and>
    (err \<noteq> None \<longrightarrow> \<not> writeConn w')"
proof -
  have att: "(fst (fst r) \<longrightarrow> w_writes (snd r) = Suc (w_writes u) \<and> wr (w_writes u) = snd (fst r) \<and> (snd (fst r) = None \<longleftrightarrow> writeConn (snd r))) \<and>
      (\<not> fst (fst r) \<longrightarrow> w_writes (snd r) = w_writes u \<and> snd (fst r) \<noteq> None \<and> \<not> writeConn (snd r)) \<and>
      w_reconnects (snd r) \<le> Suc (w_reconnects u)" if "r = write_attempt hasFunc rc wr u" for r u
    using that by (auto simp: write_attempt_def client_reconnect_def Let_def split: option.splits if_splits)
  let ?r1 = "write_attempt hasFunc rc wr w"
  let ?r2 = "write_attempt hasFunc rc wr (snd ?r1)"
  have "(err, w') = (if \<not> fst (fst ?r1) then (snd (fst ?r1), snd ?r1)
      else if snd (fst ?r1) = None then (None, snd ?r1) else (snd (fst ?r2), snd ?r2))"
    using assms by (auto simp: client_write_def split: prod.splits option.splits bool.splits)
  then show ?thesis using att [OF refl, of w] att [OF refl, of "snd ?r1"] by (auto split: if_splits)
qed

theorem write_retries_once_witness:
  "\<exists>err w'. client_write True (\<lambda>_. None) (\<lambda>n. if n = 0 then Some ErrDead else None) \<lparr>writeConn = True, w_writes = 0, w_reconnects = 0\<rparr> = (err, w') \<and>
     writeConn w' \<and> w_writes w' \<le> 2"
proof -
  let ?w = "client_write True (\<lambda>_. None) (\<lambda>n. if n = 0 then Some ErrDead else None) \<lparr>writeConn = True, w_writes = 0, w_reconnects = 0\<rparr>"
  have "fst ?w = None" by (simp add: client_write_def write_attempt_def client_reconnect_def)
  moreover have "?w = (fst ?w, snd ?w)" by simp
  ultimately show ?thesis using write_retries_once [of _ _ _ _ "fst ?w" "snd ?w"] by fastforce
qed

text \<open>C4. The dispatch loop is safe in every interleaving of senders, read loop, reconnects, timeouts and
  Close: lastOp is set exactly while a sender holds the write lock, so that reqSent and a reconnect
  find the operation they need, and no message that arrives, no read error and no Close makes the loop
  panic or block on the channel of an operation.\<close>

theorem dispatch_safe:
  assumes "reachable (disp_init os) (disp_step cfg) d"
  shows "(d_lastOp d = None \<longleftrightarrow> d_sender d = SNone) \<and>
    (\<forall>msgs batch. dispatch_read cfg msgs batch (d_req d) \<noteq> None) \<and>
    (\<forall>err. cancelAllRequests err (d_lastOp d) (d_req d) \<noteq> None \<and> cancelAllRequests err None (d_req d) \<noteq> None)"
proof -
  have d: "dinv d" by (rule dispatch.reachable_inv [OF assms])
  then have inv: "rinv (d_req d)" by (simp add: dinv_def)
  have "dispatch_read cfg msgs batch (d_req d) \<noteq> None" for msgs batch
    using dispatch_read_ok [OF inv, of cfg msgs batch] by (elim exE conjE) simp
  moreover have "cancelAllRequests err inflight (d_req d) \<noteq> None" for err inflight
    using cancel_ok [OF inv, of err inflight] by (elim exE conjE) simp
  ultimately show ?thesis using d by (simp add: dinv_def)
qed

definition demo_disp :: dispst where
  "demo_disp = \<lparr>d_req = new_reqst [new_requestOp [''1''] None], d_lastOp = None, d_sender = SNone, d_reading = True, d_closed = False, d_started = {}, d_reconnect = True\<rparr>"

lemma demo_disp_init: "disp_init [new_requestOp [''1''] None] demo_disp"
  by (auto simp: disp_init_def demo_disp_def new_requestOp_def op_sendable_def op_pending_def make_chan_def chan_fresh_def)

theorem dispatch_safe_witness:
  "dispatch_read demo_cfg [one_response] False (d_req demo_disp) \<noteq> None"
proof -
  have "reachable (disp_init [new_requestOp [''1''] None]) (disp_step demo_cfg) demo_disp" using demo_disp_init by (rule reach_init)
  from dispatch_safe [OF this] show ?thesis by blast
qed

text \<open>C36. A request can be lost: there is a run of the dispatch loop in which a request is written
  successfully, the connection breaks before the loop hears that it was written, and from then on
  nothing the loop does, closing the client included, gives its caller an answer or an error: a call without deadline
  waits for ever. The documentation of Close says that it aborts any in-flight requests.\<close>

theorem lost_request:
  assumes "disp_init os d0" and "rq < length os" and "op_ids (os ! rq) \<noteq> []"
  shows "\<exists>d1 d. reachable (disp_init os) (disp_step cfg) d1 \<and> d_sender d1 = SSent None \<and> d_lastOp d1 = Some rq \<and>
    (disp_step cfg)\<^sup>*\<^sup>* d1 d \<and> d_sender d = SNone \<and> \<not> d_closed d \<and>
    (\<forall>d'. (disp_step cfg)\<^sup>*\<^sup>* d d' \<longrightarrow> op_wait None (ops (d_req d') ! rq) = Blocks)"
proof -
  have x: "op_pending (os ! rq)" "\<not> op_hadResponse (os ! rq)"
    using assms nth_mem [OF assms(2)] by (auto simp: disp_init_def op_sendable_def)
  then have w: "op_wait None (os ! rq) = Blocks" by (simp add: op_wait_def op_pending_def chan_fresh_def Let_def)
  have "op_wait None (ops (d_req d') ! rq) = Blocks" if "(disp_step cfg)\<^sup>*\<^sup>* d d'" "unreachable_op rq (os ! rq) d" for d d'
    using unreachable_op_steps [OF that] w by (simp add: unreachable_op_def)
  then show ?thesis using lost_run [OF assms(1,2), of cfg] by (elim exE conjE) (intro exI conjI, auto)
qed

theorem lost_request_witness:
  "\<exists>d1 d. reachable (disp_init [new_requestOp [''1''] None]) (disp_step demo_cfg) d1 \<and> d_sender d1 = SSent None \<and>
     (disp_step demo_cfg)\<^sup>*\<^sup>* d1 d \<and> (\<forall>d'. (disp_step demo_cfg)\<^sup>*\<^sup>* d d' \<longrightarrow> op_wait None (ops (d_req d') ! 0) = Blocks)"
proof -
  have "op_ids ([new_requestOp [''1''] None] ! 0) \<noteq> []" by (simp add: new_requestOp_def)
  from lost_request [OF demo_disp_init _ this, of demo_cfg] show ?thesis by auto
qed

text \<open>C38. BatchCall with an empty slice never returns on a connection other than HTTP: its operation has no ids, so
  that no response, not even the error the server sends for an empty batch, no lost connection and no
  Close ever reaches it.\<close>

theorem empty_batch_never_answered:
  assumes "reachable (disp_init os) (disp_step cfg) d" and "rq < length os" and "os ! rq = new_requestOp [] None"
  shows "op_wait None (ops (d_req d) ! rq) = Blocks \<and>
    BatchCallContext ut (\<lambda>x w. Ret (None, ops (d_req d) ! rq)) None [] c = (Blocks, c)"
proof -
  have "ops (d_req d) ! rq = new_requestOp [] None"
    using no_ids_untouched [OF assms(1), of rq] assms(3) by (simp add: new_requestOp_def)
  then show ?thesis by (simp add: op_wait_def new_requestOp_def make_chan_def Let_def BatchCallContext_def)
qed

theorem empty_batch_never_answered_witness:
  "BatchCallContext no_types (\<lambda>x w. Ret (None, new_requestOp [] None)) None [] demo_client = (Blocks, demo_client)"
proof -
  let ?d = "\<lparr>d_req = new_reqst [new_requestOp [] None], d_lastOp = None, d_sender = SNone, d_reading = True, d_closed = False, d_started = {}, d_reconnect = True\<rparr>"
  have "disp_init [new_requestOp [] None] ?d" by (auto simp: disp_init_def new_requestOp_def op_sendable_def)
  then have "reachable (disp_init [new_requestOp [] None]) (disp_step demo_cfg) ?d" by (rule reach_init)
  from empty_batch_never_answered [OF this, of 0 no_types demo_client] show ?thesis by (simp add: new_reqst_def)
qed

text \<open>C39. Client.Notify over HTTP never succeeds: if the server answers a notification with an empty body, as it
  should, Notify returns the error EOF, and if the body holds a message, the send on the nil channel
  of the empty requestOp blocks for ever.\<close>

theorem Notify_HTTP_never_succeeds:
  "fst (Client_Notify ut (http_transport ut client_Do hc ctx) meth args c) \<noteq> Ret None \<and>
   (\<forall>msg c' b.
      newMessage ut meth args c = (Inr msg, c') \<longrightarrow> doRequest ut client_Do hc ctx (WMsg (msg\<lparr>ID := None\<rparr>)) = Inr b \<longrightarrow>
      Client_Notify ut (http_transport ut client_Do hc ctx) meth args c =
        ((case decoder_Decode b of
            Inl err \<Rightarrow> Ret (Some err)
          | Inr j \<Rightarrow> (case decode_strict j of Inl err \<Rightarrow> Ret (Some err) | Inr _ \<Rightarrow> Blocks)), c')) \<and>
   decoder_Decode '''' = Inl IoEOF"
proof -
  have block: "op_send ms zero_requestOp = Blocks" for ms by (simp add: op_send_def zero_requestOp_def chan_send_def make_chan_def)
  have "json_parse '''' = None" by code_simp
  moreover have "skip_ws '''' = []" by (simp add: skip_ws_def)
  ultimately have "decoder_Decode '''' = Inl IoEOF" by (simp add: decoder_Decode_def)
  then show ?thesis
    by (auto simp: Client_Notify_def http_transport_def sendHTTP_def block split: sum.splits prod.splits)
qed

theorem Notify_HTTP_never_succeeds_witness:
  "\<exists>c'. Client_Notify no_types (http_transport no_types (answer_with 200 '''') (newClientTransportHTTP ''http://localhost'' new_clientConfig) None)
     ''a_b'' None demo_client = (Ret (Some IoEOF), c')"
proof -
  let ?hc = "newClientTransportHTTP ''http://localhost'' new_clientConfig"
  obtain msg c' where m: "newMessage no_types ''a_b'' None demo_client = (Inr msg, c')" "Error msg = None"
    by (simp add: newMessage_def nextID_def Let_def new_jsonrpcMessage_def)
  have "\<not> isl (url_Parse ''http://localhost'')" by code_simp
  then obtain u where "url_Parse ''http://localhost'' = Inr u" by (cases "url_Parse ''http://localhost''") auto
  then have "doRequest no_types (answer_with 200 '''') ?hc None (WMsg (msg\<lparr>ID := None\<rparr>)) = Inr ''''"
    using m(2) by (simp add: doRequest_def encode_wire_def encode_message_def Let_def request_headers_def answer_with_def
        newClientTransportHTTP_def new_clientConfig_def)
  then show ?thesis
    using Notify_HTTP_never_succeeds [of no_types "answer_with 200 ''''" ?hc None "''a_b''" None demo_client] m(1) by auto
qed

text \<open>A response that arrives for a waiting call is delivered: the operation leaves the table, and CallContext
  returns what the response says, its error, the decoded result, or that there is none.\<close>

theorem call_response_returned:
  assumes "newMessage ut meth args c = (Inr msg, c')" and "rinv s" and "rq < length (ops s)"
    and "ops s ! rq = new_requestOp [raw_string (ID msg)] None" and "isResponse resp" and "ID resp = ID msg"
    and "\<And>t. result = Some t \<Longrightarrow> is_ptr t"
  shows "\<exists>s'. handleMsg resp (addRequestOp rq s) = Some ([], s') \<and>
    CallContext ut (\<lambda>x w. Ret (None, ops s' ! rq)) None result meth args c =
      (Ret (case Error resp of
              Some e \<Rightarrow> Inl (JsonErr e)
            | None \<Rightarrow>
                (case (Result resp, map_option elem_type result) of
                   (None, _) \<Rightarrow> Inl ErrNoResult
                 | (Some j, None) \<Rightarrow> Inr None
                 | (Some j, Some t) \<Rightarrow> (case json_Unmarshal ut t j of Inl err \<Rightarrow> Inl (PlainErr err) | Inr v \<Rightarrow> Inr (Some v)))), c')"
proof -
  from call_resolved [OF assms(1-6), of result] assms(7) obtain s' where
    "handleMsg resp (addRequestOp rq s) = Some ([], s')"
    "CallContext ut (\<lambda>x w. Ret (None, ops s' ! rq)) None result meth args c = (call_outcome ut (map_option elem_type result) [resp], c')"
    by blast
  then show ?thesis by (intro exI [of _ s']) (simp add: call_outcome_def split: option.split sum.split)
qed

theorem call_response_returned_witness:
  "\<exists>msg c' s'. newMessage no_types ''a_b'' None demo_client = (Inr msg, c') \<and>
     handleMsg (response no_types msg (GoBool True)) (addRequestOp 0 (new_reqst [new_requestOp [raw_string (ID msg)] None])) = Some ([], s') \<and>
     CallContext no_types (\<lambda>x w. Ret (None, ops s' ! 0)) None None ''a_b'' None demo_client = (Ret (Inr None), c')"
proof -
  obtain msg c' where m: "newMessage no_types ''a_b'' None demo_client = (Inr msg, c')"
    by (simp add: newMessage_def nextID_def Let_def)
  then have "hasValidID msg" using newMessage_spec [of no_types "''a_b''" None demo_client] by simp
  then have r: "isResponse (response no_types msg (GoBool True))" by (rule isResponse_response)
  let ?s = "new_reqst [new_requestOp [raw_string (ID msg)] None]"
  have s: "0 < length (ops ?s)" "ops ?s ! 0 = new_requestOp [raw_string (ID msg)] None" by (simp_all add: new_reqst_def)
  have "Error (response no_types msg (GoBool True)) = None" "Result (response no_types msg (GoBool True)) \<noteq> None"
    by (simp_all add: response_def json_Marshal_def new_jsonrpcMessage_def)
  then show ?thesis
    using call_response_returned [OF m rinv_new s r, of None] m by (auto simp: response_fields)
qed

end
