(* ===== verification/Rpc_Pending.thy ===== *)
theory Rpc_Pending
  imports Rpc_Client
begin

text \<open>
  What becomes of a request, as the caller in op.wait sees it: an abstract specification of the dispatch loop of
  client.go together with the request table of handler.go. The specification has no tables, no write lock and no connection, only the fate
  of every operation; the loop of Rpc_Client is shown to implement it.
\<close>

section \<open>The specification\<close>

text \<open>An operation is waiting, has been given the messages of a batch, or was ended with an error.\<close>

datatype fate = Waiting | Answered "jsonrpcMessage list" | Aborted "goerr option"

text \<open>Messages answer an operation if one of them is a response to one of its ids.\<close>

definition resolves :: "jsonrpcMessage list \<Rightarrow> string list \<Rightarrow> bool" where
  "resolves ms ids \<longleftrightarrow> (\<exists>m \<in> set ms. isResponse m \<and> raw_string (ID m) \<in> set ids)"

text \<open>The only things that happen: messages arrive and some of the waiting operations they answer get them, or a
  loss of the connection ends some of the waiting operations, all with the same error.\<close>

inductive fate_step :: "(string list \<times> fate) list \<Rightarrow> (string list \<times> fate) list \<Rightarrow> bool" where
  answer: "list_all2 (\<lambda>x y. y = x \<or> snd x = Waiting \<and> resolves ms (fst x) \<and> y = (fst x, Answered ms)) fs fs' \<Longrightarrow> fate_step fs fs'"
| abort: "list_all2 (\<lambda>x y. y = x \<or> snd x = Waiting \<and> y = (fst x, Aborted (Some e))) fs fs' \<Longrightarrow> fate_step fs fs'"

text \<open>What an operation can have become, compared with an earlier moment.\<close>

definition settles :: "string list \<times> fate \<Rightarrow> string list \<times> fate \<Rightarrow> bool" where
  "settles x y \<longleftrightarrow> y = x \<or>
     snd x = Waiting \<and> fst y = fst x \<and> (case snd y of Waiting \<Rightarrow> False | Answered ms \<Rightarrow> resolves ms (fst x) | Aborted e \<Rightarrow> e \<noteq> None)"

lemma settles_trans: "settles x y \<Longrightarrow> settles y z \<Longrightarrow> settles x z"
  by (auto simp: settles_def split: fate.splits)

lemma fate_step_settles: "fate_step fs fs' \<Longrightarrow> list_all2 settles fs fs'"
  by (erule fate_step.cases) (auto simp: settles_def elim!: list_all2_mono)

lemma fate_steps_settles: "fate_step\<^sup>*\<^sup>* fs fs' \<Longrightarrow> list_all2 settles fs fs'"
proof (induction rule: rtranclp_induct)
  case base
  show ?case by (simp add: list_all2_refl settles_def)
next
  case (step fs' fs'')
  show ?case
    by (rule list_all2_trans [OF settles_trans step.IH fate_step_settles [OF step.hyps(2)]])
qed

section \<open>The abstraction of the loop\<close>

definition op_fate :: "requestOp \<Rightarrow> fate" where
  "op_fate x =
     (case chbuf (op_resp x) of
        ms # _ \<Rightarrow> Answered ms
      | [] \<Rightarrow> (if chclosed (op_resp x) then Aborted (op_err x) else Waiting))"

definition op_abs :: "requestOp \<Rightarrow> string list \<times> fate" where
  "op_abs x = (op_ids x, op_fate x)"

definition fates :: "dispst \<Rightarrow> (string list \<times> fate) list" where
  "fates d = map op_abs (ops (d_req d))"

lemma fates_steps_nth:
  assumes "\<And>rq. rq < length (ops s) \<Longrightarrow> R (op_abs (ops s ! rq)) (op_abs (ops s' ! rq))" and "length (ops s') = length (ops s)"
  shows "list_all2 R (map op_abs (ops s)) (map op_abs (ops s'))"
  using assms by (simp add: list_all2_conv_all_nth)

text \<open>A response that an operation gets.\<close>

lemma got_fate:
  assumes "op_pending x" and "got ms x y" and "resolves ms (op_ids x)"
  shows "op_abs y = op_abs x \<or> snd (op_abs x) = Waiting \<and> resolves ms (fst (op_abs x)) \<and> op_abs y = (fst (op_abs x), Answered ms)"
  using assms by (auto simp: op_abs_def op_fate_def got_def op_pending_def chan_fresh_def split: list.splits if_splits)

lemma cancelled_fate:
  "op_pending x \<Longrightarrow> op_abs (cancelled_op e x) = op_abs x \<or>
     snd (op_abs x) = Waiting \<and> op_abs (cancelled_op e x) = (fst (op_abs x), Aborted (Some e))"
  by (auto simp: op_abs_def op_fate_def cancelled_op_def op_pending_def split: list.splits)

lemma registered_pending: "rinv s \<Longrightarrow> registered s rq \<Longrightarrow> op_pending (ops s ! rq)"
  by (auto simp: registered_def dest: rinvD(5))

lemma hit_resolves: "rinv s \<Longrightarrow> rq \<in> hit s ms \<Longrightarrow> registered s rq \<and> resolves ms (op_ids (ops s ! rq))"
  using rinvD(4) [of s] by (fastforce simp: hit_def registered_def resolves_def ids_of_op_def)

lemma handleResponses_fates:
  assumes "rinv s" and "handleResponses ms s = Some (calls, s')"
  shows "fate_step (map op_abs (ops s)) (map op_abs (ops s'))"
proof (rule fate_step.answer [where ms = ms], rule fates_steps_nth)
  have r: "responses_done ms s s'" using handleResponses_ok [OF assms(1), of ms] assms(2) by auto
  then show "length (ops s') = length (ops s)" by (simp add: responses_done_def)
  fix rq
  have "if rq \<in> hit s ms then got ms (ops s ! rq) (ops s' ! rq) else ops s' ! rq = ops s ! rq"
    using r by (simp add: responses_done_def)
  then show "op_abs (ops s' ! rq) = op_abs (ops s ! rq) \<or>
      snd (op_abs (ops s ! rq)) = Waiting \<and> resolves ms (fst (op_abs (ops s ! rq))) \<and> op_abs (ops s' ! rq) = (fst (op_abs (ops s ! rq)), Answered ms)"
    using got_fate registered_pending [OF assms(1)] hit_resolves [OF assms(1)] by (metis (full_types))
qed

lemma fate_step_refl: "fate_step fs fs"
  by (rule fate_step.answer) (simp add: list_all2_refl)

lemma dispatch_read_fates:
  assumes "rinv s" and "dispatch_read cfg msgs batch s = Some (procs, s')"
  shows "fate_step (map op_abs (ops s)) (map op_abs (ops s'))"
proof (cases "s' = s")
  case False
  then obtain ms calls where "handleResponses ms s = Some (calls, s')"
    using assms(2) by (auto simp: dispatch_read_def handleMsg_def handleBatch_def bind_eq_Some_conv split: if_splits)
  then show ?thesis by (rule handleResponses_fates [OF assms(1)])
qed (simp add: fate_step_refl)

lemma cancelAllRequests_fates:
  assumes "rinv s" and "cancelAllRequests e inflight s = Some s'"
  shows "fate_step (map op_abs (ops s)) (map op_abs (ops s'))"
proof (rule fate_step.abort [where e = e], rule fates_steps_nth)
  from cancelAllRequests_ok [OF assms(1), of e inflight] assms(2)
  have s': "length (ops s') = length (ops s)"
    "ops s' ! rq = (if registered s rq \<and> inflight \<noteq> Some rq then cancelled_op e (ops s ! rq) else ops s ! rq)" for rq
    by (metis option.inject)+
  then show "length (ops s') = length (ops s)" by simp
  show "op_abs (ops s' ! rq) = op_abs (ops s ! rq) \<or>
      snd (op_abs (ops s ! rq)) = Waiting \<and> op_abs (ops s' ! rq) = (fst (op_abs (ops s ! rq)), Aborted (Some e))" for rq
    using s'(2) [of rq] cancelled_fate registered_pending [OF assms(1), of rq] by auto
qed

text \<open>Every step of the loop is a step of the specification.\<close>

lemma disp_step_fates:
  assumes "disp_step cfg d d'" and "dinv d"
  shows "fate_step (fates d) (fates d')"
proof -
  have inv: "rinv (d_req d)" using assms(2) by (simp add: dinv_def)
  note fs = dispatch_read_fates [OF inv] cancelAllRequests_fates [OF inv] fate_step_refl
  from assms(1) show ?thesis
    by cases (auto simp: fates_def fate_step_refl split: if_splits intro: fs)
qed

interpretation pending: simulation "disp_init os" "disp_step cfg" dinv fates "\<lambda>fs. fs = map op_abs os" fate_step
  for os cfg
proof
  show "disp_init os d \<Longrightarrow> fates d = map op_abs os" for d
    by (auto simp: disp_init_def fates_def new_reqst_def)
qed (rule disp_step_fates)

section \<open>What the caller gets\<close>

text \<open>The calls for which the specification promises something are those with an id.\<close>

lemma reachable_settles:
  assumes "reachable (disp_init os) (disp_step cfg) d" and "rq < length os"
  shows "rq < length (ops (d_req d)) \<and> settles (op_abs (os ! rq)) (op_abs (ops (d_req d) ! rq))"
proof -
  have "reachable (\<lambda>fs. fs = map op_abs os) fate_step (fates d)" by (rule pending.reachable_sim [OF assms(1)])
  then have "fate_step\<^sup>*\<^sup>* (map op_abs os) (fates d)" by (induction rule: reachable.induct) auto
  from fate_steps_settles [OF this] have l: "list_all2 settles (map op_abs os) (map op_abs (ops (d_req d)))" by (simp add: fates_def)
  then have "length (ops (d_req d)) = length os" by (auto dest: list_all2_lengthD)
  then show ?thesis using list_all2_nthD [OF l, of rq] assms(2) by simp
qed

lemma disp_init_waiting:
  "disp_init os d \<Longrightarrow> rq < length os \<Longrightarrow> op_ids (os ! rq) \<noteq> [] \<Longrightarrow> op_fate (os ! rq) = Waiting"
  using nth_mem [of rq os] by (auto simp: disp_init_def op_sendable_def op_pending_def chan_fresh_def op_fate_def)

lemma reachable_init: "reachable init step s \<Longrightarrow> \<exists>s0. init s0"
  by (induction rule: reachable.induct) auto

lemma op_wait_fate:
  "op_wait None x =
     (case op_fate x of
        Waiting \<Rightarrow> Blocks
      | Answered ms \<Rightarrow> Ret (case op_err x of Some e \<Rightarrow> Inl e | None \<Rightarrow> Inr ms)
      | Aborted e \<Rightarrow> Ret (case e of Some e \<Rightarrow> Inl e | None \<Rightarrow> Inr []))"
  by (auto simp: op_wait_def op_fate_def Let_def split: list.splits)

text \<open>C3. The dispatch loop resolves a request at most once and only with its own response. In every interleaving of
  senders, read loop, reconnects, timeouts and Close the loop implements the specification in which a request with ids waits until
  messages arrive that answer it or until it is ended with an error. What it got then stays what it got, so that
  no later response, reconnect or Close replaces it; op.wait blocks exactly while the request waits, and the
  messages it returns without an error hold a response to one of the ids of the request, so that CallContext and
  BatchCallContext never index an empty slice.\<close>

theorem dispatch_resolves_once:
  assumes "reachable (disp_init os) (disp_step cfg) d" and "(disp_step cfg)\<^sup>*\<^sup>* d d'"
    and "rq < length os" and "op_ids (os ! rq) \<noteq> []"
  shows "reachable (\<lambda>fs. fs = map op_abs os) fate_step (fates d) \<and>
    (op_fate (ops (d_req d) ! rq) \<noteq> Waiting \<longrightarrow> op_fate (ops (d_req d') ! rq) = op_fate (ops (d_req d) ! rq)) \<and>
    (op_wait None (ops (d_req d) ! rq) = Blocks \<longleftrightarrow> op_fate (ops (d_req d) ! rq) = Waiting) \<and>
    (\<forall>ms. op_wait None (ops (d_req d) ! rq) = Ret (Inr ms) \<longrightarrow> resolves ms (op_ids (os ! rq)))"
proof -
  let ?x = "ops (d_req d) ! rq"
  have "op_fate (os ! rq) = Waiting" using reachable_init [OF assms(1)] disp_init_waiting assms(3,4) by blast
  then have x: "settles (op_ids (os ! rq), Waiting) (op_ids ?x, op_fate ?x)" and lt: "rq < length (ops (d_req d))"
    using reachable_settles [OF assms(1,3)] by (simp_all add: op_abs_def)
  have "fate_step\<^sup>*\<^sup>* (fates d) (fates d')" by (rule pending.steps_sim [OF assms(2) dispatch.reachable_inv [OF assms(1)]])
  then have "settles (op_abs ?x) (op_abs (ops (d_req d') ! rq))"
    using list_all2_nthD [OF fate_steps_settles, of "fates d" "fates d'" rq] lt
      list_all2_lengthD [OF fate_steps_settles, of "fates d" "fates d'"] by (simp add: fates_def)
  then have "op_fate ?x \<noteq> Waiting \<longrightarrow> op_fate (ops (d_req d') ! rq) = op_fate ?x" by (auto simp: settles_def op_abs_def)
  moreover have "op_wait None ?x = Blocks \<longleftrightarrow> op_fate ?x = Waiting" by (simp add: op_wait_fate split: fate.split)
  moreover have "resolves ms (op_ids (os ! rq))" if "op_wait None ?x = Ret (Inr ms)" for ms
    using that x by (auto simp: op_wait_fate settles_def split: fate.splits option.splits)
  ultimately show ?thesis using pending.reachable_sim [OF assms(1)] by blast
qed

text \<open>A run in which the request with id 1 is sent, answered, and the client is closed before the sender returns.\<close>

definition demo_sent :: dispst where
  "demo_sent = \<lparr>d_req = one_request, d_lastOp = Some 0, d_sender = SWriting, d_reading = True, d_closed = False, d_started = {0}, d_reconnect = True\<rparr>"

definition demo_answered :: dispst where
  "demo_answered = demo_sent\<lparr>d_req := snd (the (dispatch_read demo_cfg [one_response] False one_request))\<rparr>"

definition demo_quit :: dispst where
  "demo_quit = demo_answered\<lparr>d_req := the (cancelAllRequests ErrClientQuit None (d_req demo_answered)), d_closed := True\<rparr>"

lemma demo_sent_reachable: "reachable (disp_init [new_requestOp [''1''] None]) (disp_step demo_cfg) demo_sent"
proof (rule reach_step)
  show "reachable (disp_init [new_requestOp [''1''] None]) (disp_step demo_cfg) demo_disp" using demo_disp_init by (rule reach_init)
  show "disp_step demo_cfg demo_disp demo_sent"
    using disp_step.req_init [of demo_disp 0 demo_cfg] by (simp add: demo_disp_def demo_sent_def one_request_def new_reqst_def)
qed

lemma demo_answered_reachable: "reachable (disp_init [new_requestOp [''1''] None]) (disp_step demo_cfg) demo_answered"
proof (rule reach_step [OF demo_sent_reachable])
  obtain procs s where "dispatch_read demo_cfg [one_response] False one_request = Some (procs, s)"
    using dispatch_read_ok [OF one_request_rinv] by blast
  then show "disp_step demo_cfg demo_sent demo_answered"
    using disp_step.read_op [of demo_sent False "[one_response]" demo_cfg procs s] by (simp add: demo_answered_def demo_sent_def)
qed

lemma demo_quit_step: "disp_step demo_cfg demo_answered demo_quit"
proof -
  have "rinv (d_req demo_answered)" using dispatch.reachable_inv [OF demo_answered_reachable] by (simp add: dinv_def)
  then obtain s where "cancelAllRequests ErrClientQuit None (d_req demo_answered) = Some s" using cancel_ok by blast
  then show ?thesis
    using disp_step.close [of demo_answered s demo_cfg] by (simp add: demo_quit_def demo_answered_def demo_sent_def)
qed

theorem dispatch_resolves_once_witness:
  "op_fate (ops (d_req demo_answered) ! 0) = Answered [one_response] \<and>
   op_fate (ops (d_req demo_quit) ! 0) = Answered [one_response] \<and> resolves [one_response] [''1'']"
proof -
  have f: "op_fate (ops (d_req demo_answered) ! 0) = Answered [one_response]" "op_wait None (ops (d_req demo_answered) ! 0) = Ret (Inr [one_response])"
    by code_simp+
  have "op_ids ([new_requestOp [''1''] None] ! 0) = [''1'']" by (simp add: new_requestOp_def)
  moreover have "(disp_step demo_cfg)\<^sup>*\<^sup>* demo_answered demo_quit" using demo_quit_step by (rule r_into_rtranclp)
  ultimately show ?thesis
    using dispatch_resolves_once [OF demo_answered_reachable, of demo_quit 0] f by simp
qed

end
