(* ===== verification/Rpc_Calls.thy ===== *)
theory Rpc_Calls
  imports Rpc_Pending
begin

text \<open>
  A connection with the goroutines that serve its calls: startCallProc, the wait group callWG and close of handler.go, close of
  clientConn and the select of dispatch in client.go, and the reverse calls that methods make over the connection they were called
  on (ClientFromContext, CallContext with send and requestOp.wait).

  In Rpc_Client the arms of dispatch that close the connection are single steps. Here each is what the code does: cancelAllRequests, a wait for
  all call goroutines, during which dispatch receives nothing, and only then the close of the codec. The theory covers a client without a reconnect
  function, which is what a server runs for each of its connections.
\<close>

section \<open>Codecs\<close>

text \<open>The channel of a codec is closed by the first close, and its connection with it.\<close>

definition codec_ok :: "jsonCodec \<Rightarrow> bool" where
  "codec_ok c \<longleftrightarrow> chclosed (closeCh c) = closer_done c \<and> conn_closes c = (if closer_done c then 1 else 0)"

abbreviation is_closed :: "jsonCodec \<Rightarrow> bool" where
  "is_closed c \<equiv> chclosed (closeCh c)"

definition closed_codec :: "jsonCodec \<Rightarrow> jsonCodec" where
  "closed_codec c =
     (if closer_done c then c else c\<lparr>closer_done := True, closeCh := (closeCh c)\<lparr>chclosed := True\<rparr>, conn_closes := Suc (conn_closes c)\<rparr>)"

lemma codec_close_ok: "codec_ok c \<Longrightarrow> codec_close c = Some (closed_codec c)"
  by (simp add: codec_ok_def codec_close_def closed_codec_def chan_close_def)

lemma closed_codec_ok [simp]: "codec_ok c \<Longrightarrow> codec_ok (closed_codec c)" "codec_ok c \<Longrightarrow> is_closed (closed_codec c)"
  by (simp_all add: codec_ok_def closed_codec_def)

lemma closed_codec_idem [simp]: "closed_codec (closed_codec c) = closed_codec c"
  by (simp add: closed_codec_def)

lemma NewFuncCodec_ok [simp]: "codec_ok (NewFuncCodec r)"
  by (simp add: codec_ok_def NewFuncCodec_def make_chan_def)

section \<open>Calls and reverse calls\<close>

text \<open>
  Where a call goroutine is: in the method itself; in the select of send, with an operation and the fact whether its context has
  a deadline; writing; in the select of requestOp.wait; and after the deadline in the select that reports it to dispatch. The
  context of a method ends only with cancelRoot, after the wait for the calls, so a deadline is one the method added.
\<close>

datatype rcall = CRun | CSend bool nat | CWrite bool nat | CWait bool nat | CTimeout nat

text \<open>The operation of a reverse call.\<close>

fun claimed :: "rcall \<Rightarrow> nat list" where
  "claimed CRun = []"
| "claimed (CSend _ rq) = [rq]"
| "claimed (CWrite _ rq) = [rq]"
| "claimed (CWait _ rq) = [rq]"
| "claimed (CTimeout rq) = [rq]"

abbreviation claims :: "rcall list \<Rightarrow> nat list" where
  "claims xs \<equiv> concat (map claimed xs)"

text \<open>The dispatch loop with its tables, the codec, the call goroutines that callWG counts, and whether dispatch is in the wait of handler.close.\<close>

record connst =
  vc_disp :: dispst
  vc_codec :: jsonCodec
  vc_calls :: "rcall list"
  vc_wait :: bool

text \<open>The steps of dispatch and of the sender of a reverse call.\<close>

inductive loop_arm :: "handlercfg \<Rightarrow> 'a connst_scheme \<Rightarrow> 'a connst_scheme \<Rightarrow> bool" for cfg where
  read_op: "\<not> vc_wait c \<Longrightarrow> \<not> d_closed (vc_disp c) \<Longrightarrow> d_reading (vc_disp c) \<Longrightarrow> batch \<or> msgs \<noteq> [] \<Longrightarrow>
    dispatch_read cfg msgs batch (d_req (vc_disp c)) = Some (procs, s) \<Longrightarrow>
    loop_arm cfg c (c\<lparr>vc_disp := (vc_disp c)\<lparr>d_req := s\<rparr>, vc_calls := vc_calls c @ map (\<lambda>_. CRun) procs\<rparr>)"
| read_err: "\<not> vc_wait c \<Longrightarrow> \<not> d_closed (vc_disp c) \<Longrightarrow> d_reading (vc_disp c) \<Longrightarrow>
    cancelAllRequests err (d_lastOp (vc_disp c)) (d_req (vc_disp c)) = Some s \<Longrightarrow>
    loop_arm cfg c (c\<lparr>vc_disp := (vc_disp c)\<lparr>d_req := s, d_reading := False\<rparr>, vc_wait := True\<rparr>)"
| close: "\<not> vc_wait c \<Longrightarrow> \<not> d_closed (vc_disp c) \<Longrightarrow>
    (if d_reading (vc_disp c) then cancelAllRequests ErrClientQuit None (d_req (vc_disp c)) else Some (d_req (vc_disp c))) = Some s \<Longrightarrow>
    loop_arm cfg c (c\<lparr>vc_disp := (vc_disp c)\<lparr>d_req := s, d_closed := True\<rparr>, vc_wait := d_reading (vc_disp c)\<rparr>)"
| req_init: "\<not> vc_wait c \<Longrightarrow> \<not> d_closed (vc_disp c) \<Longrightarrow> d_sender (vc_disp c) = SNone \<Longrightarrow> k < length (vc_calls c) \<Longrightarrow>
    vc_calls c ! k = CSend dl rq \<Longrightarrow> rq < length (ops (d_req (vc_disp c))) \<Longrightarrow> rq \<notin> d_started (vc_disp c) \<Longrightarrow>
    loop_arm cfg c (c\<lparr>vc_disp := (vc_disp c)\<lparr>d_lastOp := Some rq, d_sender := SWriting, d_req := addRequestOp rq (d_req (vc_disp c)),
                                  d_started := insert rq (d_started (vc_disp c))\<rparr>,
                    vc_calls := (vc_calls c)[k := CWrite dl rq]\<rparr>)"
| write_done: "k < length (vc_calls c) \<Longrightarrow> vc_calls c ! k = CWrite dl rq \<Longrightarrow> d_sender (vc_disp c) = SWriting \<Longrightarrow>
    loop_arm cfg c (c\<lparr>vc_disp := (vc_disp c)\<lparr>d_sender := SSent err\<rparr>,
                    vc_calls := (vc_calls c)[k := if err = None then CWait dl rq else CRun]\<rparr>)"
| req_sent: "\<not> vc_wait c \<Longrightarrow> \<not> d_closed (vc_disp c) \<Longrightarrow> d_sender (vc_disp c) = SSent err \<Longrightarrow> d_lastOp (vc_disp c) = Some rq \<Longrightarrow>
    loop_arm cfg c (c\<lparr>vc_disp := (vc_disp c)\<lparr>d_req := (if err \<noteq> None then removeRequestOp rq (d_req (vc_disp c)) else d_req (vc_disp c)),
                                  d_sender := SNone, d_lastOp := None\<rparr>\<rparr>)"
| req_timeout: "\<not> vc_wait c \<Longrightarrow> \<not> d_closed (vc_disp c) \<Longrightarrow> k < length (vc_calls c) \<Longrightarrow> vc_calls c ! k = CTimeout rq \<Longrightarrow>
    rq \<in> d_started (vc_disp c) \<Longrightarrow>
    loop_arm cfg c (c\<lparr>vc_disp := (vc_disp c)\<lparr>d_req := removeRequestOp rq (d_req (vc_disp c))\<rparr>, vc_calls := (vc_calls c)[k := CRun]\<rparr>)"

text \<open>The steps of a call goroutine on its own: it returns, starts a reverse call with an operation of its own, leaves send because the
  client is closing or its deadline has passed, leaves wait with what the operation holds, or its deadline passes there. A goroutine that reports its
  deadline gives up when the client is closing.\<close>

inductive call_alone :: "'a connst_scheme \<Rightarrow> nat \<Rightarrow> rcall list \<Rightarrow> bool" where
  returns: "vc_calls c ! k = CRun \<Longrightarrow> call_alone c k []"
| reverse: "vc_calls c ! k = CRun \<Longrightarrow> rq < length (ops (d_req (vc_disp c))) \<Longrightarrow> rq \<notin> d_started (vc_disp c) \<Longrightarrow>
    rq \<notin> set (claims (vc_calls c)) \<Longrightarrow> call_alone c k [CSend dl rq]"
| send_closing: "vc_calls c ! k = CSend dl rq \<Longrightarrow> d_closed (vc_disp c) \<Longrightarrow> call_alone c k [CRun]"
| send_deadline: "vc_calls c ! k = CSend True rq \<Longrightarrow> call_alone c k [CRun]"
| resolved: "vc_calls c ! k = CWait dl rq \<Longrightarrow> op_wait None (ops (d_req (vc_disp c)) ! rq) \<noteq> Blocks \<Longrightarrow> call_alone c k [CRun]"
| wait_deadline: "vc_calls c ! k = CWait True rq \<Longrightarrow> call_alone c k [CTimeout rq]"
| timeout_closing: "vc_calls c ! k = CTimeout rq \<Longrightarrow> d_closed (vc_disp c) \<Longrightarrow> call_alone c k [CRun]"

inductive conn_step :: "handlercfg \<Rightarrow> 'a connst_scheme \<Rightarrow> 'a connst_scheme \<Rightarrow> bool" for cfg where
  arm: "loop_arm cfg c c' \<Longrightarrow> conn_step cfg c c'"
| wait_over: "vc_wait c \<Longrightarrow> vc_calls c = [] \<Longrightarrow> codec_close (vc_codec c) = Some cd \<Longrightarrow>
    conn_step cfg c (c\<lparr>vc_wait := False, vc_codec := cd\<rparr>)"
| call: "k < length (vc_calls c) \<Longrightarrow> call_alone c k xs \<Longrightarrow>
    conn_step cfg c (c\<lparr>vc_calls := take k (vc_calls c) @ xs @ drop (Suc k) (vc_calls c)\<rparr>)"

inductive_cases loop_armE: "loop_arm cfg c c'"
inductive_cases call_aloneE: "call_alone c k xs"
inductive_cases conn_stepE: "conn_step cfg c c'"

section \<open>The connection implements the dispatch loop\<close>

lemma loop_arm_disp:
  assumes "loop_arm cfg c c'"
  shows "disp_step cfg (vc_disp c) (vc_disp c')"
  using assms
proof cases
  case (close s)
  then show ?thesis using disp_step.close [OF close(3,4)] by simp
next
  case (req_sent err rq)
  then show ?thesis using disp_step.req_sent [OF req_sent(3,4,5)] by simp
qed (auto intro: disp_step.intros)

lemma conn_step_disp: "conn_step cfg c c' \<Longrightarrow> disp_step cfg (vc_disp c) (vc_disp c') \<or> vc_disp c' = vc_disp c"
  by (erule conn_stepE) (auto dest: loop_arm_disp)

lemma conn_step_dinv: "conn_step cfg c c' \<Longrightarrow> dinv (vc_disp c) \<Longrightarrow> dinv (vc_disp c')"
  using conn_step_disp [of cfg c c'] dinv_step by metis

lemma conn_step_codec:
  assumes "conn_step cfg c c'" and "codec_ok (vc_codec c)"
  shows "vc_codec c' = vc_codec c \<or> vc_codec c' = closed_codec (vc_codec c)"
  using assms(1)
  by (rule conn_stepE) (auto simp: codec_close_ok [OF assms(2)] elim: loop_armE)

section \<open>The invariant\<close>

fun is_write :: "rcall \<Rightarrow> bool" where
  "is_write (CWrite _ _) = True"
| "is_write _ = False"

text \<open>There is one goroutine that writes exactly while the sender of dispatch writes, and after the read loop has gone and the calls were waited for, there
  are no calls.\<close>

definition conn_ok :: "'a connst_scheme \<Rightarrow> bool" where
  "conn_ok c \<longleftrightarrow>
     dinv (vc_disp c) \<and> codec_ok (vc_codec c) \<and>
     length (filter is_write (vc_calls c)) = (if d_sender (vc_disp c) = SWriting then 1 else 0) \<and>
     (\<not> d_reading (vc_disp c) \<longrightarrow> \<not> vc_wait c \<longrightarrow> vc_calls c = []) \<and>
     (vc_wait c \<longrightarrow> \<not> d_reading (vc_disp c) \<or> d_closed (vc_disp c))"

definition conn_init :: "requestOp list \<Rightarrow> 'a connst_scheme \<Rightarrow> bool" where
  "conn_init os c \<longleftrightarrow>
     disp_init os (vc_disp c) \<and> \<not> d_reconnect (vc_disp c) \<and> codec_ok (vc_codec c) \<and> vc_calls c = [] \<and> \<not> vc_wait c"

text \<open>How many goroutines write after one of them moved on.\<close>

lemma writers_splice:
  assumes "k < length xs"
  shows "length (filter is_write (take k xs @ ys @ drop (Suc k) xs)) + (if is_write (xs ! k) then 1 else 0) =
    length (filter is_write xs) + length (filter is_write ys)"
proof -
  have "filter is_write xs = filter is_write (take k xs @ xs ! k # drop (Suc k) xs)"
    using id_take_nth_drop [OF assms] by simp
  then show ?thesis by simp
qed

lemma writers_update:
  assumes "k < length xs"
  shows "length (filter is_write (xs[k := x])) + (if is_write (xs ! k) then 1 else 0) =
    length (filter is_write xs) + (if is_write x then 1 else 0)"
  using writers_splice [OF assms, of "[x]"] assms by (simp add: upd_conv_take_nth_drop)

lemma nth_other:
  assumes "j < length xs" and "j \<noteq> k"
  shows "xs ! j \<in> set (take k xs) \<union> set (drop (Suc k) xs)"
proof (cases "j < k")
  case True
  then show ?thesis using assms(1) nth_mem [of j "take k xs"] by simp
next
  case False
  then show ?thesis using assms nth_mem [of "j - Suc k" "drop (Suc k) xs"] by simp
qed

lemma call_alone_writers:
  "call_alone c k xs \<Longrightarrow> \<not> is_write (vc_calls c ! k) \<and> filter is_write xs = []"
  by (erule call_alone.cases) auto

lemma loop_arm_ok:
  assumes "loop_arm cfg c c'" and "conn_ok c"
  shows "conn_ok c'"
proof -
  have d: "dinv (vc_disp c')" using dinv_step [OF loop_arm_disp [OF assms(1)]] assms(2) by (simp add: conn_ok_def)
  from assms(1) show ?thesis
  proof cases
    case (req_init k dl rq)
    then show ?thesis using assms(2) d writers_update [of k "vc_calls c" "CWrite dl rq"] by (simp add: conn_ok_def)
  next
    case (write_done k dl rq err)
    then show ?thesis using assms(2) d writers_update [of k "vc_calls c" "if err = None then CWait dl rq else CRun"]
      by (auto simp: conn_ok_def split: if_splits)
  next
    case (req_timeout k rq)
    then show ?thesis using assms(2) d writers_update [of k "vc_calls c" CRun] by (auto simp: conn_ok_def split: if_splits)
  qed (use assms(2) d in \<open>auto simp: conn_ok_def filter_empty_conv\<close>)
qed

lemma conn_step_ok:
  assumes "conn_step cfg c c'" and "conn_ok c"
  shows "conn_ok c'"
  using assms(1)
proof cases
  case (wait_over cd)
  then have "cd = closed_codec (vc_codec c)" using assms(2) by (simp add: codec_close_ok conn_ok_def)
  then show ?thesis using wait_over assms(2) by (simp add: conn_ok_def)
next
  case (call k xs)
  then show ?thesis
    using assms(2) writers_splice [OF call(2), of xs] call_alone_writers [OF call(3)] by (auto simp: conn_ok_def split: if_splits)
qed (use assms(2) loop_arm_ok in blast)

interpretation conn: invariant_system "conn_init os" "conn_step cfg" conn_ok
  for os cfg
proof
  show "conn_init os c \<Longrightarrow> conn_ok c" for c :: "'a connst_scheme"
    using dispatch.init_inv [of os "vc_disp c"] by (auto simp: conn_init_def conn_ok_def disp_init_def)
qed (rule conn_step_ok)

section \<open>The end of the wait\<close>

text \<open>A call goroutine that cannot go on while dispatch waits for it: it is in send without a deadline, in wait with an operation that
  nobody resolved, or about to tell dispatch that its deadline has passed; and the client is not closing.\<close>

fun blocked :: "'a connst_scheme \<Rightarrow> rcall \<Rightarrow> bool" where
  "blocked c CRun = False"
| "blocked c (CSend dl rq) = (\<not> dl \<and> \<not> d_closed (vc_disp c))"
| "blocked c (CWrite dl rq) = False"
| "blocked c (CWait dl rq) = (op_wait None (ops (d_req (vc_disp c)) ! rq) = Blocks \<and> \<not> (dl \<and> d_closed (vc_disp c)))"
| "blocked c (CTimeout rq) = (\<not> d_closed (vc_disp c))"

definition stuck :: "'a connst_scheme \<Rightarrow> bool" where
  "stuck c \<longleftrightarrow> vc_wait c \<and> (\<exists>x \<in> set (vc_calls c). blocked c x)"

lemma blocked_alone: "call_alone c k xs \<Longrightarrow> blocked c (vc_calls c ! k) \<Longrightarrow> \<exists>x \<in> set xs. blocked c x"
  by (erule call_alone.cases) auto

lemma blocked_same:
  assumes "d_closed (vc_disp c') = d_closed (vc_disp c)" and "ops (d_req (vc_disp c')) = ops (d_req (vc_disp c))"
  shows "blocked c' x = blocked c x"
  using assms by (cases x) simp_all

text \<open>Once dispatch waits for such a goroutine, it waits for ever.\<close>

lemma stuck_step:
  assumes "conn_step cfg c c'" and "stuck c"
  shows "stuck c'"
proof -
  obtain j where j: "vc_wait c" "j < length (vc_calls c)" "blocked c (vc_calls c ! j)"
    using assms(2) by (auto simp: stuck_def in_set_conv_nth)
  from assms(1) show ?thesis
  proof cases
    case arm
    then show ?thesis
    proof (rule loop_armE)
      fix k dl rq err
      assume c': "c' = c\<lparr>vc_disp := (vc_disp c)\<lparr>d_sender := SSent err\<rparr>, vc_calls := (vc_calls c)[k := if err = None then CWait dl rq else CRun]\<rparr>"
        and k: "vc_calls c ! k = CWrite dl rq"
      then have "k \<noteq> j" using j(3) by auto
      then have "vc_calls c' ! j = vc_calls c ! j" "j < length (vc_calls c')" using c' j(2) by simp_all
      moreover have "blocked c' (vc_calls c ! j)" using j(3) blocked_same [of c' c] c' by simp
      ultimately show ?thesis using j(1) c' nth_mem [of j "vc_calls c'"] by (auto simp: stuck_def)
    qed (use j(1) in auto)
  next
    case (wait_over cd)
    then show ?thesis using j(2) by simp
  next
    case (call k xs)
    have b: "blocked c' x = blocked c x" for x using blocked_same [of c' c] call(1) by simp
    have "\<exists>x \<in> set (vc_calls c'). blocked c x"
    proof (cases "k = j")
      case True
      then show ?thesis using blocked_alone [OF call(3)] j(3) call(1) by auto
    next
      case False
      then show ?thesis using nth_other [OF j(2)] j(3) call(1) by fastforce
    qed
    then show ?thesis using j(1) call(1) b by (simp add: stuck_def)
  qed
qed

lemma stuck_steps: "(conn_step cfg)\<^sup>*\<^sup>* c c' \<Longrightarrow> stuck c \<Longrightarrow> stuck c'"
  by (induction rule: rtranclp_induct) (auto intro: stuck_step)

text \<open>If there is none, the goroutines lead to the end of the wait: calls leave what they are in and return, and then
  dispatch closes the codec.\<close>

fun call_rank :: "rcall \<Rightarrow> nat" where
  "call_rank CRun = 1"
| "call_rank (CSend _ _) = 2"
| "call_rank (CWrite _ _) = 2"
| "call_rank (CWait _ _) = 3"
| "call_rank (CTimeout _) = 2"

definition wait_mu :: "'a connst_scheme \<Rightarrow> nat" where
  "wait_mu c = (if vc_wait c then 1 else 0) + sum_list (map call_rank (vc_calls c))"

definition waiting_free :: "'a connst_scheme \<Rightarrow> bool" where
  "waiting_free c \<longleftrightarrow> conn_ok c \<and> (\<forall>x \<in> set (vc_calls c). \<not> blocked c x)"

definition wait_step :: "handlercfg \<Rightarrow> 'a connst_scheme \<Rightarrow> 'a connst_scheme \<Rightarrow> bool" where
  "wait_step cfg c c' \<longleftrightarrow> conn_step cfg c c' \<and> wait_mu c' < wait_mu c \<and> (\<forall>x \<in> set (vc_calls c'). \<not> blocked c' x)"

lemma rank_splice:
  assumes "k < length xs"
  shows "sum_list (map call_rank (take k xs @ ys @ drop (Suc k) xs)) + call_rank (xs ! k) =
    sum_list (map call_rank xs) + sum_list (map call_rank ys)"
proof -
  have "sum_list (map call_rank xs) = sum_list (map call_rank (take k xs @ xs ! k # drop (Suc k) xs))"
    using id_take_nth_drop [OF assms] by simp
  then show ?thesis by simp
qed

lemma call_leaves:
  assumes "waiting_free c" and "k < length (vc_calls c)" and "call_alone c k xs" and "\<forall>x \<in> set xs. \<not> blocked c x"
    and "sum_list (map call_rank xs) < call_rank (vc_calls c ! k)"
  shows "\<exists>c'. wait_step cfg c c'"
proof -
  let ?c = "c\<lparr>vc_calls := take k (vc_calls c) @ xs @ drop (Suc k) (vc_calls c)\<rparr>"
  have "wait_mu ?c < wait_mu c" using rank_splice [OF assms(2), of xs] assms(5) by (simp add: wait_mu_def)
  moreover have "blocked ?c x = blocked c x" for x using blocked_same [of ?c c] by simp
  ultimately have "wait_step cfg c ?c"
    using conn_step.call [OF assms(2,3)] assms(1,4) by (auto simp: wait_step_def waiting_free_def dest: in_set_takeD in_set_dropD)
  then show ?thesis by blast
qed

lemma writer_leaves:
  assumes "waiting_free c" and "k < length (vc_calls c)" and "vc_calls c ! k = CWrite dl rq"
  shows "\<exists>c'. wait_step cfg c c'"
proof -
  let ?c = "c\<lparr>vc_disp := (vc_disp c)\<lparr>d_sender := SSent (Some ErrDead)\<rparr>, vc_calls := (vc_calls c)[k := CRun]\<rparr>"
  have "CWrite dl rq \<in> set (filter is_write (vc_calls c))" using assms(2,3) nth_mem by fastforce
  then have "d_sender (vc_disp c) = SWriting" using assms(1) by (auto simp: waiting_free_def conn_ok_def filter_empty_conv split: if_splits)
  from loop_arm.write_done [OF assms(2,3) this, of cfg "Some ErrDead"] have "conn_step cfg c ?c" by (simp add: conn_step.arm)
  moreover have "wait_mu ?c < wait_mu c"
    using rank_splice [OF assms(2), of "[CRun]"] assms(2,3) by (simp add: wait_mu_def upd_conv_take_nth_drop)
  moreover have "blocked ?c x = blocked c x" for x using blocked_same [of ?c c] by simp
  ultimately have "wait_step cfg c ?c"
    using assms(1) by (auto simp: wait_step_def waiting_free_def dest!: subsetD [OF set_update_subset_insert])
  then show ?thesis by blast
qed

lemma wait_step_ex:
  assumes "waiting_free c" and "vc_wait c"
  shows "\<exists>c'. wait_step cfg c c'"
proof (cases "vc_calls c")
  case Nil
  have "codec_close (vc_codec c) = Some (closed_codec (vc_codec c))" using assms(1) by (simp add: waiting_free_def conn_ok_def codec_close_ok)
  from conn_step.wait_over [OF assms(2) Nil this] show ?thesis using Nil assms(2)
    by (intro exI [of _ "c\<lparr>vc_wait := False, vc_codec := closed_codec (vc_codec c)\<rparr>"]) (simp add: wait_step_def wait_mu_def)
next
  case (Cons x xs)
  then have k: "0 < length (vc_calls c)" and x: "vc_calls c ! 0 = x" and nb: "\<not> blocked c x" using assms(1) by (auto simp: waiting_free_def)
  note leave = call_leaves [OF assms(1) k]
  show ?thesis
  proof (cases x)
    case CRun
    then show ?thesis using leave [of "[]"] call_alone.returns [of c 0] x by simp
  next
    case (CSend dl rq)
    then have "call_alone c 0 [CRun]" using nb x call_alone.send_closing [of c 0] call_alone.send_deadline [of c 0] by auto
    then show ?thesis using leave [of "[CRun]"] x CSend by simp
  next
    case (CWrite dl rq)
    then show ?thesis using writer_leaves [OF assms(1) k] x by simp
  next
    case (CWait dl rq)
    then consider "call_alone c 0 [CRun]" | "call_alone c 0 [CTimeout rq]" "d_closed (vc_disp c)"
      using nb x call_alone.resolved [of c 0] call_alone.wait_deadline [of c 0] by (cases dl) auto
    then show ?thesis using leave [of "[CRun]"] leave [of "[CTimeout rq]"] x CWait by cases simp_all
  next
    case (CTimeout rq)
    then show ?thesis using leave [of "[CRun]"] call_alone.timeout_closing [of c 0] nb x by simp
  qed
qed

interpretation waits: progress_system waiting_free "wait_step cfg" waiting_free "wait_step cfg" "\<lambda>c. \<not> vc_wait c" wait_mu
  for cfg
proof
  show "waiting_free c'" if "waiting_free c" "wait_step cfg c c'" for c c' :: "'a connst_scheme"
    using that conn_step_ok [of cfg c c'] by (simp add: waiting_free_def wait_step_def)
  show "\<exists>c'. wait_step cfg c c'" if "waiting_free c" "\<not> \<not> vc_wait c" for c :: "'a connst_scheme"
    using wait_step_ex that by blast
qed (simp_all add: wait_step_def)

text \<open>The wait ends without calls and with the close of the codec.\<close>

lemma wait_step_ends:
  assumes "wait_step cfg c c'" and "conn_ok c" and "vc_wait c \<or> vc_calls c = [] \<and> is_closed (vc_codec c)"
  shows "vc_wait c' \<or> vc_calls c' = [] \<and> is_closed (vc_codec c')"
proof (cases "vc_wait c")
  case True
  have "conn_step cfg c c'" using assms(1) by (simp add: wait_step_def)
  then show ?thesis
  proof cases
    case (wait_over cd)
    then show ?thesis using assms(2) by (auto simp: conn_ok_def codec_close_ok)
  qed (use True in \<open>auto elim: loop_armE\<close>)
next
  case False
  then have "wait_mu c = 0" using assms(3) by (simp add: wait_mu_def)
  then show ?thesis using assms(1) by (simp add: wait_step_def)
qed

lemma wait_ends:
  assumes "waiting_free c" and "vc_wait c"
  shows "\<exists>c'. (conn_step cfg)\<^sup>*\<^sup>* c c' \<and> \<not> vc_wait c' \<and> vc_calls c' = [] \<and> is_closed (vc_codec c')"
proof -
  obtain c' where c': "(wait_step cfg)\<^sup>*\<^sup>* c c'" "\<not> vc_wait c'" using waits.runs_to_done [OF assms(1)] by blast
  have "(conn_step cfg)\<^sup>*\<^sup>* c c'" using c'(1) by (induction rule: rtranclp_induct) (auto simp: wait_step_def)
  moreover have "vc_wait c' \<or> vc_calls c' = [] \<and> is_closed (vc_codec c')"
    using c'(1) assms
  proof (induction rule: rtranclp_induct)
    case (step c1 c2)
    have "conn_ok c1" using waits.steps_inv [OF step.hyps(1) assms(1)] by (simp add: waiting_free_def)
    then show ?case using step wait_step_ends by blast
  qed simp
  ultimately show ?thesis using c'(2) by blast
qed

section \<open>Properties\<close>

text \<open>C13. When handler.close returns. After a read error or a Close, dispatch waits for the goroutines of the calls and receives nothing
  meanwhile. The wait can come to its end, and the codec is then closed, exactly if no goroutine is blocked in a reverse call over the same
  connection: in send without a deadline, in wait with an unresolved operation, or reporting a deadline, with the client not closing. If
  one is, dispatch waits for ever, whatever the goroutines do.\<close>

theorem handler_close_ends_iff:
  assumes "reachable (conn_init os) (conn_step cfg) c" and "vc_wait c"
  shows "(\<exists>c'. (conn_step cfg)\<^sup>*\<^sup>* c c' \<and> \<not> vc_wait c' \<and> chclosed (closeCh (vc_codec c'))) \<longleftrightarrow> (\<forall>x \<in> set (vc_calls c). \<not> blocked c x)"
    (is "?l \<longleftrightarrow> ?r")
proof
  assume ?l
  then show ?r using stuck_steps [of cfg c] assms(2) by (auto simp: stuck_def)
next
  assume ?r
  then have "waiting_free c" using conn.reachable_inv [OF assms(1)] by (simp add: waiting_free_def)
  from wait_ends [OF this assms(2)] show ?l by blast
qed

text \<open>A run to such a state: a call arrives, its method makes a reverse call without a deadline, and before dispatch accepts it the connection breaks.\<close>

definition demo_conn :: connst where
  "demo_conn = \<lparr>vc_disp = demo_disp\<lparr>d_reconnect := False\<rparr>, vc_codec = NewFuncCodec None, vc_calls = [], vc_wait = False\<rparr>"

lemma read_error_strands:
  assumes "conn_ok c" and "\<not> vc_wait c" and "\<not> d_closed (vc_disp c)" and "d_reading (vc_disp c)" and "CSend False rq \<in> set (vc_calls c)"
  shows "\<exists>s. loop_arm cfg c (c\<lparr>vc_disp := (vc_disp c)\<lparr>d_req := s, d_reading := False\<rparr>, vc_wait := True\<rparr>) \<and>
    stuck (c\<lparr>vc_disp := (vc_disp c)\<lparr>d_req := s, d_reading := False\<rparr>, vc_wait := True\<rparr>)"
proof -
  have "rinv (d_req (vc_disp c))" using assms(1) by (simp add: conn_ok_def dinv_def)
  then obtain s where "cancelAllRequests IoEOF (d_lastOp (vc_disp c)) (d_req (vc_disp c)) = Some s" using cancel_ok by blast
  from loop_arm.read_err [OF assms(2-4) this] show ?thesis
    using assms(3,5) by (intro exI [of _ s]) (auto simp: stuck_def intro!: bexI [of _ "CSend False rq"])
qed

lemma reverse_call_run:
  assumes "conn_init os c" and "rq < length os" and "is_call_msg msg"
  shows "\<exists>s. length (ops s) = length os \<and> (conn_step cfg)\<^sup>*\<^sup>* c (c\<lparr>vc_disp := (vc_disp c)\<lparr>d_req := s\<rparr>, vc_calls := [CSend dl rq]\<rparr>)"
proof -
  let ?c = "\<lambda>s xs. c\<lparr>vc_disp := (vc_disp c)\<lparr>d_req := s\<rparr>, vc_calls := xs\<rparr>"
  have c: "\<not> vc_wait c" "\<not> d_closed (vc_disp c)" "d_reading (vc_disp c)" "vc_calls c = []" "d_req (vc_disp c) = new_reqst os" "d_started (vc_disp c) = {}"
    using assms(1) by (auto simp: conn_init_def disp_init_def)
  obtain s where s: "handleMsg msg (new_reqst os) = Some ([ProcCall msg], s)" using handleMsg_call [OF rinv_new assms(3)] by blast
  then have "dispatch_read cfg [msg] False (d_req (vc_disp c)) = Some ([ProcCall msg], s)" by (simp add: dispatch_read_def c)
  from loop_arm.read_op [OF c(1-3) _ this] have 1: "conn_step cfg c (?c s [CRun])" by (simp add: conn_step.arm c)
  have len: "length (ops s) = length os" using read_eq [OF rinv_new, of cfg "[msg]" False os] s by (auto simp: dispatch_read_def read_frame_def new_reqst_def)
  then have "call_alone (?c s [CRun]) 0 [CSend dl rq]" using assms(2) c by (intro call_alone.reverse) simp_all
  from conn_step.call [OF _ this, of cfg] have "conn_step cfg (?c s [CRun]) (?c s [CSend dl rq])" by simp
  with 1 len show ?thesis by (meson converse_rtranclp_into_rtranclp r_into_rtranclp)
qed

theorem handler_close_ends_iff_witness:
  "\<exists>c :: connst. reachable (conn_init [new_requestOp [''1''] None]) (conn_step demo_cfg) c \<and> vc_wait c \<and>
     \<not> (\<exists>c'. (conn_step demo_cfg)\<^sup>*\<^sup>* c c' \<and> \<not> vc_wait c' \<and> chclosed (closeCh (vc_codec c')))"
proof -
  let ?i = "conn_init [new_requestOp [''1''] None]" and ?m = "demo_msg (Some (JNum ''1'')) ''calc_add'' ''x''"
  have i: "?i demo_conn" using demo_disp_init by (auto simp: conn_init_def demo_conn_def disp_init_def demo_disp_def)
  moreover have "is_call_msg ?m" by code_simp
  ultimately obtain s where "(conn_step demo_cfg)\<^sup>*\<^sup>* demo_conn (demo_conn\<lparr>vc_disp := (vc_disp demo_conn)\<lparr>d_req := s\<rparr>, vc_calls := [CSend False 0]\<rparr>)"
    using reverse_call_run [OF i, of 0 ?m demo_cfg False] by auto
  moreover have "reachable ?i (conn_step demo_cfg) demo_conn" using i by (rule reach_init)
  ultimately have r: "reachable ?i (conn_step demo_cfg) (demo_conn\<lparr>vc_disp := (vc_disp demo_conn)\<lparr>d_req := s\<rparr>, vc_calls := [CSend False 0]\<rparr>)"
    by (rule reachable_steps)
  obtain c' where c': "conn_step demo_cfg (demo_conn\<lparr>vc_disp := (vc_disp demo_conn)\<lparr>d_req := s\<rparr>, vc_calls := [CSend False 0]\<rparr>) c'" "stuck c'"
    using read_error_strands [OF conn.reachable_inv [OF r], of 0 demo_cfg] conn_step.arm by (fastforce simp: demo_conn_def demo_disp_def)
  have "reachable ?i (conn_step demo_cfg) c'" using r c'(1) by (rule reach_step)
  moreover from handler_close_ends_iff [OF this] c'(2) have "\<not> (\<exists>c''. (conn_step demo_cfg)\<^sup>*\<^sup>* c' c'' \<and> \<not> vc_wait c'' \<and> chclosed (closeCh (vc_codec c'')))"
    by (auto simp: stuck_def)
  ultimately show ?thesis using c'(2) by (intro exI [of _ c']) (simp add: stuck_def)
qed

end
