(* ===== verification/Rpc_Server.thy ===== *)
theory Rpc_Server
  imports Rpc_Calls
begin

text \<open>
  server.go, the accept loop of ipc.go and endpoints.go: the state of a Server, its configuration, the table
  of the codecs it serves, Stop, and ServeCodec as a goroutine per connection that runs beside the dispatch loop and the
  call goroutines of the client it creates (Rpc_Calls).

  A codec is a number: its index in the list of the connections that were accepted. Methods of the package log are
  left out.
\<close>

section \<open>The server\<close>

definition MetadataApi :: string where
  "MetadataApi = ''rpc''"

record Server =
  sv_services :: "middleware serviceRegistry"
  sv_idgen :: "nat \<Rightarrow> string"
  sv_codecs :: "(nat, unit) gomap"
  sv_run :: bool
  sv_batchItemLimit :: int
  sv_batchResponseLimit :: int
  sv_httpBodyLimit :: int

definition Server_RegisterName :: "string \<Rightarrow> receiver \<Rightarrow> Server \<Rightarrow> goerr + Server" where
  "Server_RegisterName name r s =
     (case registerName name r (sv_services s) of Inl err \<Rightarrow> Inl err | Inr reg \<Rightarrow> Inr (s\<lparr>sv_services := reg\<rparr>))"

definition SetBatchLimits :: "int \<Rightarrow> int \<Rightarrow> Server \<Rightarrow> Server" where
  "SetBatchLimits itemLimit maxResponseSize s = s\<lparr>sv_batchItemLimit := itemLimit, sv_batchResponseLimit := maxResponseSize\<rparr>"

definition SetHTTPBodyLimit :: "int \<Rightarrow> Server \<Rightarrow> Server" where
  "SetHTTPBodyLimit limit s = s\<lparr>sv_httpBodyLimit := limit\<rparr>"

definition SetMiddlewares :: "middleware list \<Rightarrow> Server \<Rightarrow> Server" where
  "SetMiddlewares mws s = s\<lparr>sv_services := setMiddlewares mws (sv_services s)\<rparr>"

text \<open>RPCService has one method. It reads the registry of its server at the time of the call: \<open>Modules\<close> is
  what it returns then, and the receiver that NewServer registers takes the body of the method as its argument, so that
  the body can speak of the later state.\<close>

definition Modules :: "Server \<Rightarrow> (string, string) gomap" where
  "Modules s = map_set_all (map_keys (services (sv_services s))) ''1.0'' []"

definition modules_body :: "(string, string) gomap \<Rightarrow> fnbody" where
  "modules_body m args = ([], Returned [RVal (GoMap m)])"

definition RPCService :: "fnbody \<Rightarrow> receiver" where
  "RPCService b =
     \<lparr>typeName = ''RPCService'',
      methods = [\<lparr>mname = ''Modules'', pkgPath = '''', mfunc = \<lparr>ins = [TPtr (TOther 0 False) False], outs = [TOther 1 False], body = b\<rparr>\<rparr>]\<rparr>"

definition NewServer :: "(nat \<Rightarrow> string) \<Rightarrow> fnbody \<Rightarrow> Server" where
  "NewServer random modulesBody =
     (let s0 = \<lparr>sv_services = new_serviceRegistry, sv_idgen = random, sv_codecs = [], sv_run = True,
                sv_batchItemLimit = 0, sv_batchResponseLimit = 0, sv_httpBodyLimit = defaultBodyLimit\<rparr>
      in case Server_RegisterName MetadataApi (RPCService modulesBody) s0 of Inl _ \<Rightarrow> s0 | Inr s \<Rightarrow> s)"

section \<open>The table of codecs\<close>

definition trackCodec :: "nat \<Rightarrow> Server \<Rightarrow> bool \<times> Server" where
  "trackCodec codec s =
     (if \<not> sv_run s then (False, s) else (True, s\<lparr>sv_codecs := map_set codec () (sv_codecs s)\<rparr>))"

definition untrackCodec :: "nat \<Rightarrow> Server \<Rightarrow> Server" where
  "untrackCodec codec s = s\<lparr>sv_codecs := map_delete codec (sv_codecs s)\<rparr>"

text \<open>The client that ServeCodec runs the connection with.\<close>

definition serve_client :: "Server \<Rightarrow> Client" where
  "serve_client s =
     initClient (sv_idgen s) False (sv_services s)
       (new_clientConfig\<lparr>cfg_idgen := Some (sv_idgen s), batchItemLimit := sv_batchItemLimit s,
          batchResponseLimit := sv_batchResponseLimit s\<rparr>)"

section \<open>ServeCodec\<close>

text \<open>
  Where the goroutine of ServeCodec is: before trackCodec, before initClient, waiting for the codec to
  be closed, in Close of the client, before untrackCodec, before the deferred close, and returned.
\<close>

datatype serve_pc = VStart | VTracked | VServing | VClosing | VUntrack | VReturn | VDone

record srvconn = connst +
  vc_pc :: serve_pc

record srvst =
  v_server :: Server
  v_conns :: "srvconn list"

text \<open>The dispatch loop before it was started.\<close>

definition no_disp :: dispst where
  "no_disp = \<lparr>d_req = new_reqst [], d_lastOp = None, d_sender = SNone, d_reading = True, d_closed = False, d_started = {}, d_reconnect = False\<rparr>"

definition new_srvconn :: "string option \<Rightarrow> srvconn" where
  "new_srvconn remoteAddr = \<lparr>vc_disp = no_disp, vc_codec = NewFuncCodec remoteAddr, vc_calls = [], vc_wait = False, vc_pc = VStart\<rparr>"

abbreviation v_conn :: "srvst \<Rightarrow> nat \<Rightarrow> srvconn" where
  "v_conn s i \<equiv> v_conns s ! i"

definition upd_conn :: "nat \<Rightarrow> (srvconn \<Rightarrow> srvconn) \<Rightarrow> srvst \<Rightarrow> srvst" where
  "upd_conn i f s = s\<lparr>v_conns := (v_conns s)[i := f (v_conns s ! i)]\<rparr>"

definition go_to :: "nat \<Rightarrow> serve_pc \<Rightarrow> srvst \<Rightarrow> srvst" where
  "go_to i pc s = upd_conn i (\<lambda>c. c\<lparr>vc_pc := pc\<rparr>) s"

text \<open>Stop closes every codec of the table, once.\<close>

fun close_codecs :: "nat list \<Rightarrow> srvconn list \<Rightarrow> srvconn list option" where
  "close_codecs [] cs = Some cs"
| "close_codecs (i # is) cs =
     do { c \<leftarrow> codec_close (vc_codec (cs ! i)); close_codecs is (cs[i := (cs ! i)\<lparr>vc_codec := c\<rparr>]) }"

definition Stop :: "srvst \<Rightarrow> srvst option" where
  "Stop s =
     (if sv_run (v_server s) then
        do { cs \<leftarrow> close_codecs (map_keys (sv_codecs (v_server s))) (v_conns s);
             Some (s\<lparr>v_server := (v_server s)\<lparr>sv_run := False\<rparr>, v_conns := cs\<rparr>) }
      else Some s)"

text \<open>The configuration of the handler of a connection.\<close>

definition conn_cfg :: "usertypes \<Rightarrow> srvst \<Rightarrow> handlercfg" where
  "conn_cfg ut s = fst (newClientConn ut [] (serve_client (v_server s)))"

text \<open>A step of the dispatch loop of a connection or of one of its calls.\<close>

inductive conn_dispatch :: "usertypes \<Rightarrow> nat \<Rightarrow> srvst \<Rightarrow> srvst \<Rightarrow> bool" for ut i where
  dispatch: "i < length (v_conns s) \<Longrightarrow> vc_pc (v_conn s i) \<notin> {VStart, VTracked} \<Longrightarrow>
    conn_step (conn_cfg ut s) (v_conn s i) c' \<Longrightarrow> conn_dispatch ut i s (upd_conn i (\<lambda>_. c') s)"

text \<open>A step of ServeCodec for one connection, together with the dispatch loop that obeys its Close. A tracking
  that is refused leads straight to the deferred close; Close returns when dispatch has closed didClose, after its wait for the calls. The operations \<open>os\<close> are those that methods will send over
  the connection as reverse calls.\<close>

inductive serve_step :: "usertypes \<Rightarrow> nat \<Rightarrow> srvst \<Rightarrow> srvst \<Rightarrow> bool" for ut i where
  track: "i < length (v_conns s) \<Longrightarrow> vc_pc (v_conn s i) = VStart \<Longrightarrow> trackCodec i (v_server s) = (ok, sv) \<Longrightarrow>
    serve_step ut i s (go_to i (if ok then VTracked else VReturn) (s\<lparr>v_server := sv\<rparr>))"
| init_client: "i < length (v_conns s) \<Longrightarrow> vc_pc (v_conn s i) = VTracked \<Longrightarrow> disp_init os d \<Longrightarrow>
    d_reconnect d = c_reconnectFunc (serve_client (v_server s)) \<Longrightarrow>
    serve_step ut i s (upd_conn i (\<lambda>c. c\<lparr>vc_pc := VServing, vc_disp := d\<rparr>) s)"
| codec_closed: "i < length (v_conns s) \<Longrightarrow> vc_pc (v_conn s i) = VServing \<Longrightarrow> chclosed (closeCh (vc_codec (v_conn s i))) \<Longrightarrow>
    serve_step ut i s (go_to i VClosing s)"
| close_loop: "vc_pc (v_conn s i) = VClosing \<Longrightarrow> conn_dispatch ut i s s' \<Longrightarrow>
    \<not> d_closed (vc_disp (v_conn s i)) \<Longrightarrow> d_closed (vc_disp (v_conn s' i)) \<Longrightarrow> serve_step ut i s s'"
| close_returns: "i < length (v_conns s) \<Longrightarrow> vc_pc (v_conn s i) = VClosing \<Longrightarrow> d_closed (vc_disp (v_conn s i)) \<Longrightarrow>
    \<not> vc_wait (v_conn s i) \<Longrightarrow> serve_step ut i s (go_to i VUntrack s)"
| untrack: "i < length (v_conns s) \<Longrightarrow> vc_pc (v_conn s i) = VUntrack \<Longrightarrow>
    serve_step ut i s (go_to i VReturn (s\<lparr>v_server := untrackCodec i (v_server s)\<rparr>))"
| deferred_close: "i < length (v_conns s) \<Longrightarrow> vc_pc (v_conn s i) = VReturn \<Longrightarrow> codec_close (vc_codec (v_conn s i)) = Some c' \<Longrightarrow>
    serve_step ut i s (upd_conn i (\<lambda>c. c\<lparr>vc_pc := VDone, vc_codec := c'\<rparr>) s)"

text \<open>All goroutines of the server: connections arrive, are served and close, and the server is stopped.\<close>

inductive srv_step :: "usertypes \<Rightarrow> srvst \<Rightarrow> srvst \<Rightarrow> bool" for ut where
  accept: "srv_step ut s (s\<lparr>v_conns := v_conns s @ [new_srvconn remoteAddr]\<rparr>)"
| serve: "serve_step ut i s s' \<Longrightarrow> srv_step ut s s'"
| dispatch: "conn_dispatch ut i s s' \<Longrightarrow> srv_step ut s s'"
| stop: "Stop s = Some s' \<Longrightarrow> srv_step ut s s'"

definition srv_init :: "srvst \<Rightarrow> bool" where
  "srv_init s \<longleftrightarrow> v_conns s = [] \<and> sv_codecs (v_server s) = [] \<and> sv_run (v_server s)"

lemma untrackCodec_simps [simp]: "sv_run (untrackCodec i s) = sv_run s" "wf_map (sv_codecs s) \<Longrightarrow> wf_map (sv_codecs (untrackCodec i s))"
  by (simp_all add: untrackCodec_def)

section \<open>Closing codecs\<close>

definition close_conn :: "srvconn \<Rightarrow> srvconn" where
  "close_conn c = c\<lparr>vc_codec := closed_codec (vc_codec c)\<rparr>"

lemma close_conn_simps [simp]:
  "vc_pc (close_conn c) = vc_pc c" "vc_disp (close_conn c) = vc_disp c" "vc_codec (close_conn c) = closed_codec (vc_codec c)"
  "vc_calls (close_conn c) = vc_calls c" "vc_wait (close_conn c) = vc_wait c"
  "close_conn (close_conn c) = close_conn c"
  by (simp_all add: close_conn_def)

lemma close_codecs_eq:
  assumes "\<forall>c \<in> set cs. codec_ok (vc_codec c)" and "\<forall>i \<in> set is. i < length cs"
  shows "close_codecs is cs = Some (map (\<lambda>(i, c). if i \<in> set is then close_conn c else c) (enumerate 0 cs))"
  using assms
proof (induction "is" arbitrary: cs)
  case Nil
  then show ?case by (auto simp: enumerate_eq_zip intro: nth_equalityI)
next
  case (Cons i "is")
  let ?cs = "cs[i := close_conn (cs ! i)]"
  have "codec_ok (vc_codec (cs ! i))" using Cons.prems by simp
  then have "close_codecs (i # is) cs = close_codecs is ?cs" by (simp add: codec_close_ok close_conn_def)
  moreover have "\<forall>c \<in> set ?cs. codec_ok (vc_codec c)" using Cons.prems set_update_subset_insert [of cs i "close_conn (cs ! i)"] by fastforce
  ultimately have "close_codecs (i # is) cs = Some (map (\<lambda>(j, c). if j \<in> set is then close_conn c else c) (enumerate 0 ?cs))"
    using Cons by simp
  moreover have "map (\<lambda>(j, c). if j \<in> set is then close_conn c else c) (enumerate 0 ?cs) =
      map (\<lambda>(j, c). if j \<in> set (i # is) then close_conn c else c) (enumerate 0 cs)"
  proof (rule nth_equalityI)
    fix j
    assume "j < length (map (\<lambda>(j, c). if j \<in> set is then close_conn c else c) (enumerate 0 ?cs))"
    then show "map (\<lambda>(j, c). if j \<in> set is then close_conn c else c) (enumerate 0 ?cs) ! j =
        map (\<lambda>(j, c). if j \<in> set (i # is) then close_conn c else c) (enumerate 0 cs) ! j"
      by (cases "i = j") (auto simp: nth_enumerate_eq)
  qed simp
  ultimately show ?case by simp
qed

section \<open>The invariant\<close>

text \<open>The codecs of the table are those of the connections between trackCodec and untrackCodec.\<close>

definition tracked :: "Server \<Rightarrow> nat set" where
  "tracked sv = set (map_keys (sv_codecs sv))"

lemma tracked_simps [simp]:
  "tracked (s\<lparr>sv_codecs := map_set i () (sv_codecs s)\<rparr>) = insert i (tracked s)"
  "tracked (untrackCodec i s) = tracked s - {i}"
  "tracked (s\<lparr>sv_run := r\<rparr>) = tracked s"
  by (auto simp: tracked_def untrackCodec_def dom_update dom_map_of_conv_image_fst [symmetric] update_conv' delete_conv')

definition serving :: "serve_pc \<Rightarrow> bool" where
  "serving pc \<longleftrightarrow> pc \<in> {VTracked, VServing, VClosing, VUntrack}"

definition conn_inv :: "bool \<Rightarrow> srvconn \<Rightarrow> bool" where
  "conn_inv running c \<longleftrightarrow>
     conn_ok c \<and> \<not> d_reconnect (vc_disp c) \<and>
     (vc_pc c \<in> {VStart, VTracked} \<longrightarrow> vc_calls c = [] \<and> \<not> vc_wait c) \<and>
     (vc_pc c \<in> {VClosing, VUntrack, VDone} \<longrightarrow> is_closed (vc_codec c)) \<and>
     (\<not> running \<longrightarrow> serving (vc_pc c) \<longrightarrow> is_closed (vc_codec c))"

definition srv_inv :: "srvst \<Rightarrow> bool" where
  "srv_inv s \<longleftrightarrow>
     wf_map (sv_codecs (v_server s)) \<and>
     (\<forall>i. i \<in> tracked (v_server s) \<longleftrightarrow> i < length (v_conns s) \<and> serving (vc_pc (v_conn s i))) \<and>
     (\<forall>c \<in> set (v_conns s). conn_inv (sv_run (v_server s)) c)"

lemma srv_invD:
  assumes "srv_inv s" and "i < length (v_conns s)"
  shows "conn_inv (sv_run (v_server s)) (v_conn s i)"
  using assms by (simp add: srv_inv_def)

lemma upd_conn_simps [simp]:
  "v_server (upd_conn i f s) = v_server s" "length (v_conns (upd_conn i f s)) = length (v_conns s)"
  "i < length (v_conns s) \<Longrightarrow> v_conn (upd_conn i f s) j = (if j = i then f (v_conn s i) else v_conn s j)"
  "v_server (go_to i pc s) = v_server s" "length (v_conns (go_to i pc s)) = length (v_conns s)"
  "i < length (v_conns s) \<Longrightarrow> v_conn (go_to i pc s) j = (if j = i then (v_conn s i)\<lparr>vc_pc := pc\<rparr> else v_conn s j)"
  by (simp_all add: upd_conn_def go_to_def nth_list_update)

text \<open>Replacing one connection keeps the invariant if the new one is in order and the table agrees with it.\<close>

lemma srv_inv_replace:
  assumes "srv_inv s" and "i < length (v_conns s)" and "length (v_conns s') = length (v_conns s)"
    and "\<And>j. j \<noteq> i \<Longrightarrow> v_conn s' j = v_conn s j" and "conn_inv (sv_run (v_server s)) (v_conn s' i)"
    and "sv_run (v_server s') = sv_run (v_server s)" and "wf_map (sv_codecs (v_server s'))"
    and "\<And>j. j \<in> tracked (v_server s') \<longleftrightarrow>
      (if j = i then serving (vc_pc (v_conn s' i)) else j \<in> tracked (v_server s))"
  shows "srv_inv s'"
proof -
  have "conn_inv (sv_run (v_server s)) (v_conn s' j)" if "j < length (v_conns s)" for j
    using that assms(1,4,5) by (cases "j = i") (auto simp: srv_inv_def)
  then have "\<forall>c \<in> set (v_conns s'). conn_inv (sv_run (v_server s')) c"
    using assms(3,6) by (auto simp: in_set_conv_nth)
  moreover have "j \<in> tracked (v_server s') \<longleftrightarrow> j < length (v_conns s') \<and> serving (vc_pc (v_conn s' j))" for j
    using assms(1,2,3,4,8) by (cases "j = i") (auto simp: srv_inv_def)
  ultimately show ?thesis using assms(7) by (simp add: srv_inv_def)
qed

text \<open>The same where the table of the codecs does not change.\<close>

lemma srv_inv_upd:
  assumes "srv_inv s" and "i < length (v_conns s)" and "conn_inv (sv_run (v_server s)) (f (v_conn s i))"
    and "serving (vc_pc (f (v_conn s i))) = serving (vc_pc (v_conn s i))"
  shows "srv_inv (upd_conn i f s)"
  by (rule srv_inv_replace [OF assms(1,2)]) (use assms in \<open>auto simp: srv_inv_def\<close>)

lemma conn_inv_codec: "conn_inv r c \<Longrightarrow> codec_ok (vc_codec c)"
  by (simp add: conn_inv_def conn_ok_def)

lemma conn_ok_simps [simp]: "conn_ok c \<Longrightarrow> conn_ok (close_conn c)" "conn_ok (c\<lparr>vc_pc := pc\<rparr>) = conn_ok c"
  by (simp_all add: conn_ok_def)

lemma conn_inv_close: "conn_inv r c \<Longrightarrow> conn_inv False (if serving (vc_pc c) then close_conn c else c)"
  using conn_inv_codec [of r c] by (simp add: conn_inv_def)

lemma disp_reconnect: "disp_step cfg d d' \<Longrightarrow> d_reconnect d' = d_reconnect d"
  by (induction rule: disp_step.induct) simp_all

lemma conn_step_conn:
  fixes c :: srvconn
  assumes "conn_step cfg c c'" and "conn_inv r c"
  shows "vc_pc c' = vc_pc c" and "d_reconnect (vc_disp c') = d_reconnect (vc_disp c)"
    and "is_closed (vc_codec c) \<Longrightarrow> is_closed (vc_codec c')"
proof -
  show "vc_pc c' = vc_pc c" using assms(1) by (rule conn_stepE) (auto elim: loop_armE)
  show "d_reconnect (vc_disp c') = d_reconnect (vc_disp c)" using conn_step_disp [OF assms(1)] disp_reconnect by metis
  show "is_closed (vc_codec c')" if "is_closed (vc_codec c)"
    using conn_step_codec [OF assms(1) conn_inv_codec [OF assms(2)]] that conn_inv_codec [OF assms(2)] by auto
qed

lemma conn_dispatch_inv:
  assumes "conn_dispatch ut i s s'" and "srv_inv s"
  shows "srv_inv s'"
  using assms(1)
proof cases
  case (dispatch c')
  have c: "conn_inv (sv_run (v_server s)) (v_conn s i)" using srv_invD [OF assms(2) dispatch(2)] .
  note cs = conn_step_conn [OF dispatch(4) c]
  have "conn_inv (sv_run (v_server s)) c'"
    using c cs conn_step_ok [OF dispatch(4)] dispatch(3) by (auto simp: conn_inv_def)
  then show ?thesis unfolding dispatch(1) using cs by (intro srv_inv_upd [OF assms(2) dispatch(2)]) simp_all
qed

lemma serve_step_inv:
  assumes "serve_step ut i s s'" and "srv_inv s"
  shows "srv_inv s'"
  using assms(1)
proof cases
  case (track ok sv)
  have c: "conn_inv (sv_run (v_server s)) (v_conn s i)" using srv_invD [OF assms(2) track(2)] .
  have i: "i \<notin> tracked (v_server s)" using assms(2) track(3) by (auto simp: srv_inv_def serving_def)
  have "conn_inv (sv_run (v_server s)) ((v_conn s i)\<lparr>vc_pc := if ok then VTracked else VReturn\<rparr>)"
    using c track(3,4) by (auto simp: conn_inv_def serving_def trackCodec_def split: if_splits)
  moreover have "wf_map (sv_codecs (v_server s))" using assms(2) by (simp add: srv_inv_def)
  ultimately show ?thesis unfolding track(1)
    by (intro srv_inv_replace [OF assms(2) track(2)])
      (use track(2,4) i in \<open>auto simp: trackCodec_def serving_def split: if_splits\<close>)
next
  case (untrack)
  then show ?thesis
    by (intro srv_inv_replace [OF assms(2) untrack(2)])
      (use srv_invD [OF assms(2) untrack(2)] assms(2) in \<open>auto simp: conn_inv_def serving_def srv_inv_def\<close>)
next
  case (close_loop)
  then show ?thesis using conn_dispatch_inv assms(2) by blast
next
  case (init_client os d)
  have "dinv d" "\<not> d_reconnect d" using init_client(4,5) dispatch.init_inv by (auto simp: serve_client_def initClient_def)
  moreover have c: "conn_inv (sv_run (v_server s)) (v_conn s i)" using srv_invD [OF assms(2) init_client(2)] .
  moreover have "conn_ok ((v_conn s i)\<lparr>vc_pc := VServing, vc_disp := d\<rparr>)"
    using c calculation(1) init_client(3,4) by (auto simp: conn_inv_def conn_ok_def disp_init_def)
  ultimately show ?thesis unfolding init_client(1)
    by (intro srv_inv_upd [OF assms(2) init_client(2)]) (use init_client(3) in \<open>auto simp: conn_inv_def serving_def\<close>)
next
  case (deferred_close c')
  have c: "conn_inv (sv_run (v_server s)) (v_conn s i)" using srv_invD [OF assms(2) deferred_close(2)] .
  have "c' = closed_codec (vc_codec (v_conn s i))" using deferred_close(4) codec_close_ok [OF conn_inv_codec [OF c]] by simp
  moreover have "conn_ok ((v_conn s i)\<lparr>vc_pc := VDone, vc_codec := closed_codec (vc_codec (v_conn s i))\<rparr>)"
    using c by (simp add: conn_inv_def conn_ok_def)
  ultimately show ?thesis unfolding deferred_close(1) using c conn_inv_codec [OF c]
    by (intro srv_inv_upd [OF assms(2) deferred_close(2)]) (use deferred_close(3) in \<open>auto simp: conn_inv_def serving_def\<close>)
qed (auto simp: go_to_def conn_inv_def serving_def intro!: srv_inv_upd [OF assms(2)] dest: srv_invD [OF assms(2)])


lemma Stop_ok:
  assumes "srv_inv s"
  shows "\<exists>s'. Stop s = Some s' \<and> srv_inv s' \<and> \<not> sv_run (v_server s') \<and> sv_codecs (v_server s') = sv_codecs (v_server s) \<and>
    length (v_conns s') = length (v_conns s) \<and>
    (\<forall>i < length (v_conns s). v_conn s' i = v_conn s i \<or> v_conn s' i = close_conn (v_conn s i))"
proof (cases "sv_run (v_server s)")
  case True
  define cs where "cs = map (\<lambda>(i, c). if i \<in> tracked (v_server s) then close_conn c else c) (enumerate 0 (v_conns s))"
  have len: "length cs = length (v_conns s)" by (simp add: cs_def)
  have "close_codecs (map_keys (sv_codecs (v_server s))) (v_conns s) = Some cs"
    unfolding cs_def tracked_def by (rule close_codecs_eq) (use assms in \<open>auto simp: srv_inv_def tracked_def dest: conn_inv_codec\<close>)
  then have stop: "Stop s = Some (s\<lparr>v_server := (v_server s)\<lparr>sv_run := False\<rparr>, v_conns := cs\<rparr>)" using True by (simp add: Stop_def)
  have nth: "cs ! i = (if serving (vc_pc (v_conn s i)) then close_conn (v_conn s i) else v_conn s i)" if "i < length (v_conns s)" for i
    using that assms by (auto simp: cs_def nth_enumerate_eq srv_inv_def)
  have "conn_inv False (cs ! i)" if "i < length (v_conns s)" for i
    using nth [OF that] conn_inv_close [OF srv_invD [OF assms that]] by simp
  then have "\<forall>c \<in> set cs. conn_inv False c" unfolding all_set_conv_all_nth len by simp
  moreover have "i \<in> tracked (v_server s) \<longleftrightarrow> i < length cs \<and> serving (vc_pc (cs ! i))" for i
    using assms nth [of i] len by (auto simp: srv_inv_def)
  ultimately have "srv_inv (s\<lparr>v_server := (v_server s)\<lparr>sv_run := False\<rparr>, v_conns := cs\<rparr>)"
    using assms by (simp add: srv_inv_def)
  then show ?thesis using stop nth len by simp
next
  case False
  then show ?thesis using assms by (simp add: Stop_def)
qed

lemma new_srvconn_inv: "conn_inv r (new_srvconn remoteAddr)"
  by (simp add: new_srvconn_def conn_inv_def conn_ok_def serving_def no_disp_def dinv_def new_reqst_def rinv_def registered_def wait_op_def)

lemma accept_inv:
  assumes "srv_inv s"
  shows "srv_inv (s\<lparr>v_conns := v_conns s @ [new_srvconn remoteAddr]\<rparr>)"
proof -
  have "\<not> serving (vc_pc (new_srvconn remoteAddr))" by (simp add: new_srvconn_def serving_def)
  then show ?thesis using assms new_srvconn_inv by (auto simp: srv_inv_def nth_append less_Suc_eq)
qed

lemma srv_step_inv: "srv_step ut s s' \<Longrightarrow> srv_inv s \<Longrightarrow> srv_inv s'"
proof (induction rule: srv_step.induct)
  case (stop s s')
  then show ?case using Stop_ok [of s] by auto
qed (simp_all add: accept_inv serve_step_inv conn_dispatch_inv)

interpretation server: invariant_system srv_init "srv_step ut" srv_inv
  for ut
proof
  show "srv_init s \<Longrightarrow> srv_inv s" for s by (simp add: srv_init_def srv_inv_def tracked_def)
qed (rule srv_step_inv)

section \<open>ServeCodec returns\<close>

text \<open>A connection that must end: the server was stopped or its codec was closed.\<close>

definition must_end :: "nat \<Rightarrow> srvst \<Rightarrow> bool" where
  "must_end i s \<longleftrightarrow>
     srv_inv s \<and> i < length (v_conns s) \<and> (sv_run (v_server s) \<longrightarrow> is_closed (vc_codec (v_conn s i))) \<and>
     set (vc_calls (v_conn s i)) \<subseteq> {CRun}"

definition serve_done :: "nat \<Rightarrow> srvst \<Rightarrow> bool" where
  "serve_done i s \<longleftrightarrow> vc_pc (v_conn s i) = VDone"

text \<open>The steps towards the end: those of ServeCodec, calls that return, and the end of the wait for them.\<close>

definition end_step :: "usertypes \<Rightarrow> nat \<Rightarrow> srvst \<Rightarrow> srvst \<Rightarrow> bool" where
  "end_step ut i s s' \<longleftrightarrow>
     serve_step ut i s s' \<or>
     conn_dispatch ut i s s' \<and> v_server s' = v_server s \<and> wait_mu (v_conn s' i) < wait_mu (v_conn s i)"

text \<open>How many steps there are ahead.\<close>

definition serve_rank :: "nat \<Rightarrow> srvst \<Rightarrow> nat" where
  "serve_rank i s =
     2 * (case vc_pc (v_conn s i) of
        VStart \<Rightarrow> 7 | VTracked \<Rightarrow> 6 | VServing \<Rightarrow> 5 | VClosing \<Rightarrow> (if d_closed (vc_disp (v_conn s i)) then 3 else 4)
      | VUntrack \<Rightarrow> 2 | VReturn \<Rightarrow> 1 | VDone \<Rightarrow> 0) + wait_mu (v_conn s i)"

lemma conn_dispatch_frame:
  assumes "conn_dispatch ut i s s'" and "srv_inv s"
  shows "v_server s' = v_server s \<and> length (v_conns s') = length (v_conns s) \<and> i < length (v_conns s) \<and>
    (\<forall>j < length (v_conns s). vc_pc (v_conn s' j) = vc_pc (v_conn s j) \<and> (is_closed (vc_codec (v_conn s j)) \<longrightarrow> is_closed (vc_codec (v_conn s' j))))"
  using assms(1)
proof cases
  case (dispatch c')
  then show ?thesis using conn_step_conn [OF dispatch(4) srv_invD [OF assms(2) dispatch(2)]] by auto
qed

lemma serve_step_frame:
  assumes "serve_step ut i s s'" and "srv_inv s"
  shows "sv_run (v_server s') = sv_run (v_server s) \<and> length (v_conns s') = length (v_conns s) \<and>
    (\<forall>j < length (v_conns s). is_closed (vc_codec (v_conn s j)) \<longrightarrow> is_closed (vc_codec (v_conn s' j)))"
  using assms(1)
proof cases
  case close_loop
  then show ?thesis using conn_dispatch_frame [OF _ assms(2)] by metis
next
  case (deferred_close c')
  then have "codec_ok (vc_codec (v_conn s i))" using srv_invD [OF assms(2)] conn_inv_codec by blast
  then show ?thesis using deferred_close by (auto simp: codec_close_ok)
qed (auto simp: trackCodec_def split: if_splits)

text \<open>The loop obeys Close in every state that the invariant allows, unless it waits for calls.\<close>

lemma loop_closes:
  assumes "srv_inv s" and "i < length (v_conns s)" and "vc_pc (v_conn s i) = VClosing" and "\<not> d_closed (vc_disp (v_conn s i))"
    and "\<not> vc_wait (v_conn s i)"
  shows "\<exists>s'. serve_step ut i s s'"
proof -
  let ?d = "vc_disp (v_conn s i)"
  have "rinv (d_req ?d)" using srv_invD [OF assms(1,2)] by (simp add: conn_inv_def conn_ok_def dinv_def)
  then obtain r where "(if d_reading ?d then cancelAllRequests ErrClientQuit None (d_req ?d) else Some (d_req ?d)) = Some r"
    using cancel_ok [of "d_req ?d" ErrClientQuit None] by (cases "d_reading ?d") auto
  note arm = conn_step.arm [OF loop_arm.close [OF assms(5,4) this]]
  have "conn_dispatch ut i s (upd_conn i (\<lambda>_. (v_conn s i)\<lparr>vc_disp := ?d\<lparr>d_req := r, d_closed := True\<rparr>, vc_wait := d_reading ?d\<rparr>) s)"
    by (rule conn_dispatch.dispatch [OF assms(2) _ arm]) (use assms(3) in simp)
  from serve_step.close_loop [OF assms(3) this assms(4)] show ?thesis using assms(2) by auto
qed

lemma wait_goes_on:
  assumes "srv_inv s" and "i < length (v_conns s)" and "vc_pc (v_conn s i) = VClosing" and "vc_wait (v_conn s i)"
    and "set (vc_calls (v_conn s i)) \<subseteq> {CRun}"
  shows "\<exists>s'. end_step ut i s s'"
proof -
  have "\<forall>x \<in> set (vc_calls (v_conn s i)). \<not> blocked (v_conn s i) x" using assms(5) by auto
  then have "waiting_free (v_conn s i)" using srv_invD [OF assms(1,2)] by (auto simp: waiting_free_def conn_inv_def)
  then obtain c' where "conn_step (conn_cfg ut s) (v_conn s i) c'" "wait_mu c' < wait_mu (v_conn s i)"
    using wait_step_ex [OF _ assms(4)] by (auto simp: wait_step_def)
  then show ?thesis using conn_dispatch.dispatch [OF assms(2)] assms(2,3) by (intro exI [of _ "upd_conn i (\<lambda>_. c') s"]) (auto simp: end_step_def)
qed

lemma must_end_step: "must_end i s \<Longrightarrow> \<not> serve_done i s \<Longrightarrow> \<exists>s'. end_step ut i s s'"
proof -
  assume m: "must_end i s" and nd: "\<not> serve_done i s"
  then have c: "i < length (v_conns s)" "conn_inv (sv_run (v_server s)) (v_conn s i)" "set (vc_calls (v_conn s i)) \<subseteq> {CRun}" and inv: "srv_inv s"
    by (auto simp: must_end_def intro: srv_invD)
  have "\<exists>s'. end_step ut i s s'" if "vc_pc (v_conn s i) = VClosing"
    using loop_closes [OF inv c(1) that] wait_goes_on [OF inv c(1) that _ c(3)] serve_step.close_returns [OF c(1) that]
    by (cases "vc_wait (v_conn s i)"; cases "d_closed (vc_disp (v_conn s i))") (auto simp: end_step_def)
  moreover have "\<exists>s'. serve_step ut i s s'" if "vc_pc (v_conn s i) \<noteq> VClosing"
  proof (cases "vc_pc (v_conn s i)")
    case VStart
    then show ?thesis using serve_step.track [OF c(1) VStart] by (metis surj_pair)
  next
    case VTracked
    have "disp_init [] no_disp" by (auto simp add: disp_init_def no_disp_def)
    moreover have "d_reconnect no_disp = c_reconnectFunc (serve_client (v_server s))"
      by (simp add: no_disp_def serve_client_def initClient_def)
    ultimately show ?thesis using serve_step.init_client [OF c(1) VTracked] by blast
  next
    case VServing
    then have "is_closed (vc_codec (v_conn s i))" using m c(2) by (auto simp: must_end_def conn_inv_def serving_def)
    then show ?thesis using serve_step.codec_closed [OF c(1) VServing] by blast
  next
    case VUntrack
    then show ?thesis using serve_step.untrack [OF c(1)] by blast
  next
    case VReturn
    then show ?thesis using serve_step.deferred_close [OF c(1)] codec_close_ok [OF conn_inv_codec [OF c(2)]] by blast
  qed (use that nd in \<open>simp_all add: serve_done_def\<close>)
  ultimately show ?thesis by (auto simp: end_step_def)
qed

text \<open>The close of the loop costs at most one more step, the wait.\<close>

lemma closing_mu:
  assumes "conn_step cfg c c'" and "\<not> d_closed (vc_disp c)" and "d_closed (vc_disp c')"
  shows "wait_mu c' \<le> Suc (wait_mu c) \<and> vc_calls c' = vc_calls c"
  using assms(1)
proof (rule conn_stepE)
  assume "loop_arm cfg c c'"
  then show ?thesis by (rule loop_armE) (use assms(2,3) in \<open>auto simp: wait_mu_def\<close>)
qed (use assms(2,3) in auto)

lemma serve_step_calls:
  assumes "serve_step ut i s s'" and "srv_inv s"
  shows "vc_calls (v_conn s' i) = vc_calls (v_conn s i) \<and> serve_rank i s' < serve_rank i s"
  using assms(1)
proof cases
  case close_loop
  from close_loop(2) obtain c' where c': "i < length (v_conns s)" "conn_step (conn_cfg ut s) (v_conn s i) c'" "s' = upd_conn i (\<lambda>_. c') s"
    by (auto elim: conn_dispatch.cases)
  then have "vc_pc c' = VClosing" using conn_step_conn(1) [OF c'(2) srv_invD [OF assms(2) c'(1)]] close_loop(1) by simp
  then show ?thesis using closing_mu [OF c'(2)] close_loop c' by (auto simp: serve_rank_def)
qed (auto simp: serve_rank_def wait_mu_def trackCodec_def split: if_splits)

text \<open>A call that is in its method either returns or starts something that takes longer.\<close>

lemma runs_return:
  assumes "conn_step cfg c c'" and "wait_mu c' < wait_mu c" and "set (vc_calls c) \<subseteq> {CRun}"
  shows "set (vc_calls c') \<subseteq> {CRun} \<and> d_closed (vc_disp c') = d_closed (vc_disp c)"
  using assms(1)
proof (rule conn_stepE)
  assume "loop_arm cfg c c'"
  then show ?thesis by (rule loop_armE) (use assms(2,3) nth_mem in \<open>fastforce simp: wait_mu_def\<close>)+
next
  fix k xs
  assume c': "c' = c\<lparr>vc_calls := take k (vc_calls c) @ xs @ drop (Suc k) (vc_calls c)\<rparr>" and k: "k < length (vc_calls c)" and x: "call_alone c k xs"
  have "vc_calls c ! k = CRun" using assms(3) nth_mem [OF k] by blast
  moreover have "sum_list (map call_rank xs) < call_rank (vc_calls c ! k)" using rank_splice [OF k, of xs] assms(2) c' by (simp add: wait_mu_def)
  ultimately have "xs = []" using x by (auto elim: call_alone.cases)
  then show ?thesis using assms(3) c' by (auto dest: in_set_takeD in_set_dropD)
qed (use assms(3) in auto)

lemma end_step_must_end:
  assumes "must_end i s" and "end_step ut i s s'"
  shows "must_end i s' \<and> serve_rank i s' < serve_rank i s"
proof -
  have m: "srv_inv s" "i < length (v_conns s)" "set (vc_calls (v_conn s i)) \<subseteq> {CRun}" using assms(1) by (simp_all add: must_end_def)
  show ?thesis
  proof (cases "serve_step ut i s s'")
    case True
    show ?thesis
      using assms(1) serve_step_inv [OF True m(1)] serve_step_frame [OF True m(1)] serve_step_calls [OF True m(1)] by (auto simp: must_end_def)
  next
    case False
    then have d: "conn_dispatch ut i s s'" "wait_mu (v_conn s' i) < wait_mu (v_conn s i)" using assms(2) by (auto simp: end_step_def)
    from d(1) obtain c' where c': "conn_step (conn_cfg ut s) (v_conn s i) c'" "s' = upd_conn i (\<lambda>_. c') s" by (auto elim: conn_dispatch.cases)
    note cs = conn_step_conn [OF c'(1) srv_invD [OF m(1,2)]] and rr = runs_return [OF c'(1) _ m(3)]
    show ?thesis
      using assms(1) conn_dispatch_inv [OF d(1) m(1)] conn_dispatch_frame [OF d(1) m(1)] d(2) c'(2) cs rr m(2) by (auto simp: must_end_def serve_rank_def)
  qed
qed

interpretation ends: progress_system "must_end i" "end_step ut i" "must_end i" "end_step ut i" "serve_done i" "serve_rank i"
  for ut i
proof
  show "must_end i s'" if "must_end i s" "end_step ut i s s'" for s s' using end_step_must_end [OF that] by simp
  show "serve_rank i s' < serve_rank i s" if "must_end i s" "end_step ut i s s'" for s s' using end_step_must_end [OF that] by simp
qed (simp_all add: must_end_step)

section \<open>Connections that never end\<close>

text \<open>Once dispatch waits for a blocked call, no step of the server frees the connection: Stop closes the codec, ServeCodec notices and
  waits in Close.\<close>

definition stranded :: "nat \<Rightarrow> srvst \<Rightarrow> bool" where
  "stranded i s \<longleftrightarrow> i < length (v_conns s) \<and> vc_pc (v_conn s i) \<in> {VServing, VClosing} \<and> stuck (v_conn s i)"

lemma stuck_close [simp]: "stuck (close_conn c) = stuck c" "stuck (c\<lparr>vc_pc := pc\<rparr>) = stuck c"
  using blocked_same [of "close_conn c" c] blocked_same [of "c\<lparr>vc_pc := pc\<rparr>" c] by (simp_all add: stuck_def)

lemma stranded_dispatch:
  assumes "conn_dispatch ut j s s'" and "stranded i s" and "srv_inv s"
  shows "stranded i s'"
  using assms(1)
proof cases
  case (dispatch c')
  show ?thesis
  proof (cases "j = i")
    case True
    then have "vc_pc c' = vc_pc (v_conn s i)" using conn_step_conn(1) [OF dispatch(4) srv_invD [OF assms(3) dispatch(2)]] by simp
    moreover have "stuck c'" using stuck_step [OF dispatch(4)] assms(2) True by (simp add: stranded_def)
    ultimately show ?thesis using assms(2) dispatch(1,2) True by (simp add: stranded_def)
  qed (use assms(2) dispatch(1,2) in \<open>auto simp: stranded_def\<close>)
qed

lemma stranded_serve:
  assumes "serve_step ut j s s'" and "stranded i s" and "srv_inv s"
  shows "stranded i s'"
proof (cases "j = i")
  case True
  have w: "vc_pc (v_conn s i) \<in> {VServing, VClosing}" "vc_wait (v_conn s i)" using assms(2) by (auto simp: stranded_def stuck_def)
  from assms(1)[unfolded True] show ?thesis
  proof cases
    case close_loop
    then show ?thesis using stranded_dispatch assms(2,3) by blast
  qed (use w assms(2) in \<open>auto simp: stranded_def\<close>)
next
  case False
  from assms(1) show ?thesis
  proof cases
    case close_loop
    then show ?thesis using stranded_dispatch assms(2,3) by blast
  qed (use False assms(2) in \<open>auto simp: stranded_def\<close>)
qed

lemma stranded_step:
  assumes "srv_step ut s s'" and "stranded i s" and "srv_inv s"
  shows "stranded i s'"
  using assms(1)
proof cases
  case (stop)
  then have "length (v_conns s') = length (v_conns s)" "i < length (v_conns s) \<Longrightarrow> v_conn s' i = v_conn s i \<or> v_conn s' i = close_conn (v_conn s i)"
    using Stop_ok [OF assms(3)] by auto
  then show ?thesis using assms(2) by (auto simp: stranded_def)
qed (use assms(2,3) stranded_serve stranded_dispatch in \<open>auto simp: stranded_def nth_append\<close>)

lemma stranded_steps: "(srv_step ut)\<^sup>*\<^sup>* s s' \<Longrightarrow> stranded i s \<Longrightarrow> srv_inv s \<Longrightarrow> stranded i s'"
proof (induction rule: rtranclp_induct)
  case (step s' s'')
  then show ?case using stranded_step server.steps_inv by blast
qed simp

text \<open>Steps of a connection are steps of the server.\<close>

lemma conn_steps_srv:
  assumes "(conn_step (conn_cfg ut s))\<^sup>*\<^sup>* (v_conn s i) c'" and "i < length (v_conns s)" and "vc_pc (v_conn s i) \<notin> {VStart, VTracked}"
    and "srv_inv s"
  shows "(srv_step ut)\<^sup>*\<^sup>* s (upd_conn i (\<lambda>_. c') s)"
  using assms(1)
proof (induction rule: rtranclp_induct)
  case base
  show ?case using assms(2) by (simp add: upd_conn_def)
next
  case (step c1 c2)
  let ?s = "upd_conn i (\<lambda>_. c1) s"
  have inv: "srv_inv ?s" using server.steps_inv [OF step.IH assms(4)] .
  have pc: "vc_pc c1 = vc_pc (v_conn s i)"
    using step.hyps(1) by (induction rule: rtranclp_induct) (auto elim!: conn_stepE loop_armE)
  have "conn_cfg ut ?s = conn_cfg ut s" by (simp add: conn_cfg_def)
  then have "conn_dispatch ut i ?s (upd_conn i (\<lambda>_. c2) ?s)" using step.hyps(2) assms(2,3) pc by (intro conn_dispatch.dispatch) simp_all
  moreover have "upd_conn i (\<lambda>_. c2) ?s = upd_conn i (\<lambda>_. c2) s" by (simp add: upd_conn_def)
  ultimately show ?case using step.IH srv_step.dispatch by (metis rtranclp.rtrancl_into_rtrancl)
qed

section \<open>Listeners and endpoints\<close>

text \<open>ServeListener over what Accept returns, one outcome after the other, an error or the remote address of a
  connection; when the list ends the loop waits in Accept. IsTemporaryError of the package netutil is a parameter.
  Every accepted connection gets a goroutine.\<close>

fun ServeListener :: "(goerr \<Rightarrow> bool) \<Rightarrow> (goerr + string option) list \<Rightarrow> srvst \<Rightarrow> goerr option \<times> srvst" where
  "ServeListener isTemporaryError [] s = (None, s)"
| "ServeListener isTemporaryError (Inl err # outcomes) s =
     (if isTemporaryError err then ServeListener isTemporaryError outcomes s else (Some err, s))"
| "ServeListener isTemporaryError (Inr remoteAddr # outcomes) s =
     ServeListener isTemporaryError outcomes (s\<lparr>v_conns := v_conns s @ [new_srvconn remoteAddr]\<rparr>)"

text \<open>ipcListen of Unix systems: the outcomes of MkdirAll and Listen decide, those of Remove and Chmod are
  ignored.\<close>

definition ipcListen :: "goerr option \<Rightarrow> goerr option \<Rightarrow> goerr option" where
  "ipcListen mkdir listen = (case mkdir of Some err \<Rightarrow> Some err | None \<Rightarrow> listen)"

definition StartIPCEndpoint ::
    "(nat \<Rightarrow> string) \<Rightarrow> fnbody \<Rightarrow> (string \<times> receiver) list \<Rightarrow> goerr option \<Rightarrow> goerr + Server" where
  "StartIPCEndpoint random modulesBody apis listen =
     (case register_all Server_RegisterName apis (NewServer random modulesBody) of
        Inl err \<Rightarrow> Inl err
      | Inr handler \<Rightarrow> (case listen of Some err \<Rightarrow> Inl err | None \<Rightarrow> Inr handler))"

section \<open>The metadata service\<close>

definition modules_cb :: "fnbody \<Rightarrow> callback" where
  "modules_cb b =
     \<lparr>fn = \<lparr>ins = [TPtr (TOther 0 False) False], outs = [TOther 1 False], body = b\<rparr>, rcvr = True, argTypes = [],
      hasCtx = False, errPos = -1, isSubscribeCb = False\<rparr>"

lemma formatName_Modules: "formatName ''Modules'' = ''modules''"
  by code_simp

lemma RPCService_callbacks: "suitableCallbacks (RPCService b) = [(''modules'', modules_cb b)]"
  by (simp add: suitableCallbacks_def RPCService_def newCallback_eq makeArgTypes_def isPubSub_def Let_def formatName_Modules modules_cb_def)

lemma NewServer_services:
  "services (sv_services (NewServer random b)) = [(''rpc'', \<lparr>service_name = ''rpc'', callbacks = [(''modules'', modules_cb b)], subscriptions = []\<rparr>)]"
  "middlewares (sv_services (NewServer random b)) = []"
  by (simp_all add: NewServer_def Server_RegisterName_def registerName_def RPCService_callbacks MetadataApi_def Let_def
      new_serviceRegistry_def newService_def modules_cb_def)

lemma NewServer_modules: "registry_callback (sv_services (NewServer random b)) ''rpc_modules'' = Some (modules_cb b)"
proof -
  have "strings_Cut ''rpc_modules'' serviceMethodSeparator = (''rpc'', ''modules'', True)" by code_simp
  then show ?thesis by (simp add: registry_callback_def NewServer_services)
qed

definition server_names :: "Server \<Rightarrow> string set" where
  "server_names s = set (map_keys (services (sv_services s)))"

lemma Server_RegisterName_Inr:
  assumes "Server_RegisterName name r s = Inr s'"
  shows "registerName name r (sv_services s) = Inr (sv_services s')" and "server_names s' = insert name (server_names s)"
    and "sv_idgen s' = sv_idgen s" and "sv_codecs s' = sv_codecs s" and "sv_run s' = sv_run s"
    and "sv_batchItemLimit s' = sv_batchItemLimit s" and "sv_batchResponseLimit s' = sv_batchResponseLimit s"
    and "sv_httpBodyLimit s' = sv_httpBodyLimit s"
proof -
  have r: "registerName name r (sv_services s) = Inr (sv_services s')"
    using assms by (auto simp: Server_RegisterName_def split: sum.splits)
  then show "registerName name r (sv_services s) = Inr (sv_services s')" .
  show "server_names s' = insert name (server_names s)"
    using registerName_Inr(4) [OF r] by (simp add: server_names_def dom_map_of_conv_image_fst [symmetric] update_conv')
qed (use assms in \<open>auto simp: Server_RegisterName_def split: sum.splits\<close>)

lemma register_all_server:
  assumes "register_all Server_RegisterName apis s = Inr s'"
    and "\<forall>(n, r) \<in> set apis. n = ''rpc'' \<longrightarrow> method_export r ''modules'' = None"
  shows "server_names s' = server_names s \<union> fst ` set apis"
    and "registry_callback (sv_services s') ''rpc_modules'' = registry_callback (sv_services s) ''rpc_modules''"
    and "middlewares (sv_services s') = middlewares (sv_services s)"
  using assms
proof (induction apis arbitrary: s)
  case (Cons a apis)
  obtain n r where a: "a = (n, r)" by fastforce
  {
    case 1
    then obtain s1 where "Server_RegisterName n r s = Inr s1" "register_all Server_RegisterName apis s1 = Inr s'"
      by (auto simp: a split: sum.splits)
    then show ?case using Cons.IH(1) [of s1] Server_RegisterName_Inr(2) 1(2) a by auto
  next
    case 2
    then obtain s1 where s1: "Server_RegisterName n r s = Inr s1" "register_all Server_RegisterName apis s1 = Inr s'"
      by (auto simp: a split: sum.splits)
    have m: "''rpc_modules'' = ''rpc'' @ CHR ''_'' # ''modules''" "CHR ''_'' \<notin> set ''rpc''" by simp_all
    note reg = Server_RegisterName_Inr(1) [OF s1(1)]
    have "registry_callback (sv_services s1) ''rpc_modules'' = registry_callback (sv_services s) ''rpc_modules''"
    proof (cases "n = ''rpc''")
      case True
      then have "method_export r ''modules'' = None" using 2(2) a by simp
      then show ?thesis using register_same [OF reg [unfolded True] m(2), of "''modules''"] by simp
    next
      case False
      have "\<not> (\<exists>k. ''rpc_modules'' = n @ CHR ''_'' # k \<and> CHR ''_'' \<notin> set n)"
        using False Cut_append [of "CHR ''_''" n] Cut_append [OF m(2), of "''modules''"] m(1) by (metis Pair_inject)
      then show ?thesis by (rule register_other [OF reg])
    qed
    then show ?case using Cons.IH(2) [OF s1(2)] 2(2) by simp
  next
    case 3
    then obtain s1 where s1: "Server_RegisterName n r s = Inr s1" "register_all Server_RegisterName apis s1 = Inr s'"
      by (auto simp: a split: sum.splits)
    then show ?case using Cons.IH(3) [OF s1(2)] registerName_Inr(3) [OF Server_RegisterName_Inr(1) [OF s1(1)]] 3(2) by simp
  }
qed simp_all

interpretation server_methods: method_table "\<lambda>s. registry_callback (sv_services s)" Server_RegisterName method_export
proof
  fix ns r s s' m
  assume "Server_RegisterName ns r s = Inr s'" "CHR ''_'' \<notin> set ns"
  from register_same [OF Server_RegisterName_Inr(1) [OF this(1)] this(2)]
  show "registry_callback (sv_services s') (ns @ CHR ''_'' # m) =
      (case method_export r m of Some c \<Rightarrow> Some c | None \<Rightarrow> registry_callback (sv_services s) (ns @ CHR ''_'' # m))" .
next
  fix ns r s s' meth
  assume "Server_RegisterName ns r s = Inr s'" "\<not> (\<exists>m. meth = ns @ CHR ''_'' # m \<and> CHR ''_'' \<notin> set ns)"
  from register_other [OF Server_RegisterName_Inr(1) [OF this(1)] this(2)]
  show "registry_callback (sv_services s') meth = registry_callback (sv_services s) meth" .
qed

lemma StartIPCEndpoint_Inr:
  assumes "StartIPCEndpoint random b apis listen = Inr s"
  shows "register_all Server_RegisterName apis (NewServer random b) = Inr s" and "listen = None"
  using assms by (auto simp: StartIPCEndpoint_def split: sum.splits option.splits)

lemma Modules_get: "map_get (Modules s) n = (if n \<in> server_names s then Some ''1.0'' else None)"
  by (simp add: Modules_def server_names_def map_get_set_all)


section \<open>Properties\<close>

text \<open>C7. Whatever connections arrive, break, are closed by the peer or by a method, and whenever Stop is called: the
  table of codecs holds exactly the connections between trackCodec and untrackCodec, the network connection of a codec is
  closed at most once, and a ServeCodec that returned has closed its codec and left the table. After Stop every codec
  of the table is closed, and no connection enters the table any more. Stop itself never panics.\<close>

theorem server_codecs_invariant:
  assumes "reachable srv_init (srv_step ut) s"
  shows "(\<forall>i. i \<in> set (map_keys (sv_codecs (v_server s))) \<longleftrightarrow>
       i < length (v_conns s) \<and> vc_pc (v_conn s i) \<in> {VTracked, VServing, VClosing, VUntrack}) \<and>
    (\<forall>c \<in> set (v_conns s). conn_closes (vc_codec c) \<le> 1 \<and> (vc_pc c = VDone \<longrightarrow> chclosed (closeCh (vc_codec c)))) \<and>
    (\<not> sv_run (v_server s) \<longrightarrow>
       (\<forall>i \<in> set (map_keys (sv_codecs (v_server s))). chclosed (closeCh (vc_codec (v_conn s i)))) \<and>
       (\<forall>i s'. serve_step ut i s s' \<longrightarrow> set (map_keys (sv_codecs (v_server s'))) \<subseteq> set (map_keys (sv_codecs (v_server s))))) \<and>
    (\<exists>s'. Stop s = Some s' \<and> \<not> sv_run (v_server s'))"
proof -
  have inv: "srv_inv s" using server.reachable_inv [OF assms] .
  have "tracked (v_server s') \<subseteq> tracked (v_server s)" if "\<not> sv_run (v_server s)" "serve_step ut i s s'" for i s'
    using that(2)
  proof cases
    case close_loop
    then show ?thesis using conn_dispatch_frame [OF _ inv] by auto
  qed (use that(1) in \<open>auto simp: trackCodec_def\<close>)
  moreover have "chclosed (closeCh (vc_codec (v_conn s i)))" if "\<not> sv_run (v_server s)" "i \<in> tracked (v_server s)" for i
    using that inv srv_invD [OF inv, of i] by (auto simp: srv_inv_def conn_inv_def)
  moreover have "i \<in> tracked (v_server s) \<longleftrightarrow> i < length (v_conns s) \<and> serving (vc_pc (v_conn s i))" for i
    using inv by (simp add: srv_inv_def)
  moreover have "\<forall>c \<in> set (v_conns s). conn_closes (vc_codec c) \<le> 1 \<and> (vc_pc c = VDone \<longrightarrow> chclosed (closeCh (vc_codec c)))"
    using inv by (auto simp: srv_inv_def conn_inv_def conn_ok_def codec_ok_def)
  moreover have "\<exists>s'. Stop s = Some s' \<and> \<not> sv_run (v_server s')" using Stop_ok [OF inv] by blast
  ultimately show ?thesis unfolding tracked_def [symmetric] serving_def by blast
qed

text \<open>A server with one connection, for the witnesses.\<close>

definition demo_srv :: srvst where
  "demo_srv = \<lparr>v_server = NewServer (\<lambda>_. ''0x1'') (modules_body []), v_conns = []\<rparr>"

lemma demo_srv_init: "srv_init demo_srv"
  by (simp add: srv_init_def demo_srv_def NewServer_def Server_RegisterName_def Let_def split: sum.split)

lemma demo_accepted: "reachable srv_init (srv_step ut) (demo_srv\<lparr>v_conns := [new_srvconn None]\<rparr>)"
proof -
  have "reachable srv_init (srv_step ut) demo_srv" using demo_srv_init by (rule reach_init)
  from reach_step [OF this srv_step.accept [of _ _ None]] show ?thesis by (simp add: demo_srv_def)
qed

theorem server_codecs_invariant_witness:
  "\<exists>s'. Stop (demo_srv\<lparr>v_conns := [new_srvconn None]\<rparr>) = Some s' \<and> \<not> sv_run (v_server s')"
  using server_codecs_invariant [OF demo_accepted, of no_types] by blast



text \<open>C37. A reverse call can strand a connection. While the method of a call is in send of a reverse call without a deadline of its own, a read
  error makes dispatch wait for that method, and the method waits for dispatch; the context of the method is cancelled only after the wait. From
  then on nothing ends the connection: ServeCodec never returns and its codec stays in the table for ever, even when the server is stopped. The
  documentation of ServeCodec says that it blocks until the codec is closed or the server is stopped.\<close>

theorem reverse_call_strands:
  assumes "reachable srv_init (srv_step ut) s" and "i < length (v_conns s)" and "vc_pc (v_conn s i) = VServing"
    and "\<not> vc_wait (v_conn s i)" and "\<not> d_closed (vc_disp (v_conn s i))" and "d_reading (vc_disp (v_conn s i))"
    and "CSend False rq \<in> set (vc_calls (v_conn s i))"
  shows "\<exists>s1. srv_step ut s s1 \<and>
    (\<forall>s'. (srv_step ut)\<^sup>*\<^sup>* s1 s' \<longrightarrow> vc_pc (v_conn s' i) \<noteq> VDone \<and> i \<in> set (map_keys (sv_codecs (v_server s'))))"
proof -
  have inv: "srv_inv s" by (rule server.reachable_inv [OF assms(1)])
  have "conn_ok (v_conn s i)" using srv_invD [OF inv assms(2)] by (simp add: conn_inv_def)
  from read_error_strands [OF this assms(4-7), of "conn_cfg ut s"] obtain r where
    r: "loop_arm (conn_cfg ut s) (v_conn s i) ((v_conn s i)\<lparr>vc_disp := (vc_disp (v_conn s i))\<lparr>d_req := r, d_reading := False\<rparr>, vc_wait := True\<rparr>)"
    "stuck ((v_conn s i)\<lparr>vc_disp := (vc_disp (v_conn s i))\<lparr>d_req := r, d_reading := False\<rparr>, vc_wait := True\<rparr>)" by blast
  let ?s1 = "upd_conn i (\<lambda>_. (v_conn s i)\<lparr>vc_disp := (vc_disp (v_conn s i))\<lparr>d_req := r, d_reading := False\<rparr>, vc_wait := True\<rparr>) s"
  have st: "srv_step ut s ?s1"
    by (rule srv_step.dispatch, rule conn_dispatch.dispatch [OF assms(2) _ conn_step.arm [OF r(1)]]) (use assms(3) in simp)
  have "stranded i ?s1" using r(2) assms(2,3) by (simp add: stranded_def)
  moreover have "srv_inv ?s1" by (rule srv_step_inv [OF st inv])
  ultimately have "stranded i s' \<and> srv_inv s'" if "(srv_step ut)\<^sup>*\<^sup>* ?s1 s'" for s'
    using stranded_steps [OF that] server.steps_inv [OF that] by blast
  then have "vc_pc (v_conn s' i) \<noteq> VDone \<and> i \<in> tracked (v_server s')" if "(srv_step ut)\<^sup>*\<^sup>* ?s1 s'" for s'
    using that by (fastforce simp: stranded_def srv_inv_def serving_def)
  then show ?thesis using st by (intro exI [of _ ?s1]) (simp add: tracked_def)
qed

text \<open>A server whose first connection got a call, the method of which makes a reverse call.\<close>

lemma demo_reverse:
  "\<exists>s. reachable srv_init (srv_step ut) s \<and> 0 < length (v_conns s) \<and> vc_pc (v_conn s 0) = VServing \<and> \<not> vc_wait (v_conn s 0) \<and>
     \<not> d_closed (vc_disp (v_conn s 0)) \<and> d_reading (vc_disp (v_conn s 0)) \<and> vc_calls (v_conn s 0) = [CSend False 0]"
proof -
  let ?s0 = "demo_srv\<lparr>v_conns := [new_srvconn None]\<rparr>" and ?m = "demo_msg (Some (JNum ''1'')) ''calc_add'' ''x''"
  let ?d = "demo_disp\<lparr>d_reconnect := False\<rparr>"
  obtain ok sv where t: "trackCodec 0 (v_server ?s0) = (ok, sv)" by fastforce
  have "sv_run (v_server ?s0)" using demo_srv_init by (simp add: srv_init_def)
  then have ok: "ok" "c_reconnectFunc (serve_client sv) = False" using t by (auto simp: trackCodec_def serve_client_def initClient_def)
  let ?s1 = "go_to 0 VTracked (?s0\<lparr>v_server := sv\<rparr>)"
  have "serve_step ut 0 ?s0 ?s1" using serve_step.track [OF _ _ t, of ut] ok(1) by (simp add: new_srvconn_def)
  then have r1: "reachable srv_init (srv_step ut) ?s1" by (intro reach_step [OF demo_accepted] srv_step.serve)
  let ?s2 = "upd_conn 0 (\<lambda>c. c\<lparr>vc_pc := VServing, vc_disp := ?d\<rparr>) ?s1"
  have i: "disp_init [new_requestOp [''1''] None] ?d" using demo_disp_init by (auto simp: disp_init_def demo_disp_def)
  then have "serve_step ut 0 ?s1 ?s2" using ok(2) by (intro serve_step.init_client) simp_all
  then have r2: "reachable srv_init (srv_step ut) ?s2" by (intro reach_step [OF r1] srv_step.serve)
  have "conn_init [new_requestOp [''1''] None] (v_conn ?s2 0)" using i by (simp add: conn_init_def new_srvconn_def)
  moreover have "is_call_msg ?m" by code_simp
  ultimately obtain r where
    "(conn_step (conn_cfg ut ?s2))\<^sup>*\<^sup>* (v_conn ?s2 0) ((v_conn ?s2 0)\<lparr>vc_disp := (vc_disp (v_conn ?s2 0))\<lparr>d_req := r\<rparr>, vc_calls := [CSend False 0]\<rparr>)"
    using reverse_call_run [of "[new_requestOp [''1''] None]" "v_conn ?s2 0" 0 ?m "conn_cfg ut ?s2" False] by auto
  from conn_steps_srv [OF this _ _ server.reachable_inv [OF r2]]
  have "(srv_step ut)\<^sup>*\<^sup>* ?s2 (upd_conn 0 (\<lambda>_. (v_conn ?s2 0)\<lparr>vc_disp := (vc_disp (v_conn ?s2 0))\<lparr>d_req := r\<rparr>, vc_calls := [CSend False 0]\<rparr>) ?s2)" by simp
  from reachable_steps [OF this r2] show ?thesis
    by (intro exI conjI, assumption) (simp_all add: new_srvconn_def demo_disp_def)
qed

theorem reverse_call_strands_witness:
  "\<exists>s1 s2. reachable srv_init (srv_step no_types) s1 \<and> Stop s1 = Some s2 \<and> \<not> sv_run (v_server s2) \<and> vc_pc (v_conn s2 0) \<noteq> VDone \<and>
     \<not> (\<exists>s'. (srv_step no_types)\<^sup>*\<^sup>* s2 s' \<and> vc_pc (v_conn s' 0) = VDone)"
proof -
  obtain s where s: "reachable srv_init (srv_step no_types) s" "0 < length (v_conns s)" "vc_pc (v_conn s 0) = VServing" "\<not> vc_wait (v_conn s 0)"
     "\<not> d_closed (vc_disp (v_conn s 0))" "d_reading (vc_disp (v_conn s 0))" "CSend False 0 \<in> set (vc_calls (v_conn s 0))"
    using demo_reverse [of no_types] by fastforce
  from reverse_call_strands [OF s] obtain s1 where s1: "srv_step no_types s s1"
    "\<And>s'. (srv_step no_types)\<^sup>*\<^sup>* s1 s' \<Longrightarrow> vc_pc (v_conn s' 0) \<noteq> VDone" by blast
  have r1: "reachable srv_init (srv_step no_types) s1" using s(1) s1(1) by (rule reach_step)
  obtain s2 where s2: "Stop s1 = Some s2" "\<not> sv_run (v_server s2)" using Stop_ok [OF server.reachable_inv [OF r1]] by blast
  then have "srv_step no_types s1 s2" by (intro srv_step.stop)
  then have "vc_pc (v_conn s' 0) \<noteq> VDone" if "(srv_step no_types)\<^sup>*\<^sup>* s2 s'" for s'
    using s1(2) converse_rtranclp_into_rtranclp that by metis
  then show ?thesis using r1 s2 by blast
qed

text \<open>ServeListener serves the connections that were accepted before the first permanent error, in the order of their arrival,
  and returns that error; temporary errors do not stop it and cost no connection, and without a permanent error it
  does not return.\<close>

theorem ServeListener_correct:
  "ServeListener isTemporaryError outcomes s =
     (let permanent = (\<lambda>r. case r of Inl err \<Rightarrow> \<not> isTemporaryError err | Inr _ \<Rightarrow> False);
          accepted = concat (map (\<lambda>r. case r of Inl _ \<Rightarrow> [] | Inr remoteAddr \<Rightarrow> [remoteAddr]) (takeWhile (\<lambda>r. \<not> permanent r) outcomes))
      in (case dropWhile (\<lambda>r. \<not> permanent r) outcomes of Inl err # _ \<Rightarrow> Some err | _ \<Rightarrow> None,
          s\<lparr>v_conns := v_conns s @ map new_srvconn accepted\<rparr>))"
  by (induction isTemporaryError outcomes s rule: ServeListener.induct) (auto simp: Let_def)

text \<open>An IPC endpoint that was started offers what was registered: every exported method of every API is found,
  Modules lists exactly the namespaces of the APIs and rpc, and a call of rpc_modules, as SupportedModules of the client makes
  it, is answered with that list. The body of the method Modules reads the server at the time of the call,
  here after the registrations.\<close>

theorem ipc_endpoint_modules:
  assumes "StartIPCEndpoint random (modules_body (Modules s)) apis listen = Inr s"
    and "\<forall>(n, r) \<in> set apis. n = ''rpc'' \<longrightarrow> method_export r ''modules'' = None"
    and "isCall msg" and "Method msg = ''rpc_modules''" and "Params msg = None"
  shows "(\<forall>(n, r) \<in> set apis. CHR ''_'' \<notin> set n \<longrightarrow> (\<forall>m. method_export r m \<noteq> None \<longrightarrow> registry_callback (sv_services s) (n @ CHR ''_'' # m) \<noteq> None)) \<and>
    (\<forall>n. map_get (Modules s) n = (if n = ''rpc'' \<or> n \<in> fst ` set apis then Some ''1.0'' else None)) \<and>
    (\<exists>h'. handleCallMsg (fst (newClientConn ut plan (serve_client s))) cp msg h = Some (Some (response ut msg (GoMap (Modules s))), cp, h'))"
proof -
  note reg = StartIPCEndpoint_Inr(1) [OF assms(1)]
  note all = register_all_server [OF reg assms(2)]
  have names: "server_names s = insert ''rpc'' (fst ` set apis)"
    using all(1) by (simp add: server_names_def NewServer_services)
  have suffix: "\<not> isSubscribe msg" "\<not> isUnsubscribe msg" "\<not> isNotification msg"
    using assms(3,4) by (simp_all add: isSubscribe_def isUnsubscribe_def subscribeMethodSuffix_def unsubscribeMethodSuffix_def
        strings_HasSuffix_def isNotification_def isCall_def hasValidID_def raw_string_def split: option.splits)
  have cb: "registry_callback (hreg (fst (newClientConn ut plan (serve_client s)))) (Method msg) = Some (modules_cb (modules_body (Modules s)))"
    "middlewares (hreg (fst (newClientConn ut plan (serve_client s)))) = []" "huser (fst (newClientConn ut plan (serve_client s))) = ut"
    using all(2,3) assms(4) by (simp_all add: newClientConn_def serve_client_def initClient_def NewServer_modules NewServer_services(2))
  have args: "parsePositionalArguments ut (Params msg) [] = Inr []"
    using assms(5) by (simp add: parsePositionalArguments_def)
  have "handleCallMsg (fst (newClientConn ut plan (serve_client s))) cp msg h = Some (Some (response ut msg (GoMap (Modules s))), cp, count_request (response ut msg (GoMap (Modules s))) h)"
    using suffix assms(3) cb args
    by (simp add: handleCallMsg_def handleCall_def runMethod_def base_next_def callback_call_def modules_cb_def call_fullargs_def
        modules_body_def resolve_def resolve_ret_def call_result_def ret_interface_def Let_def)
  moreover have "registry_callback (sv_services s) (n @ CHR ''_'' # m) \<noteq> None"
    if "(n, r) \<in> set apis" "CHR ''_'' \<notin> set n" "method_export r m \<noteq> None" for n r m
    using server_methods.register_all_found [OF reg that] .
  ultimately show ?thesis unfolding Modules_get names by auto
qed


definition demo_modules :: "(string, string) gomap" where
  "demo_modules = [(''rpc'', ''1.0''), (''calc'', ''1.0'')]"

theorem ipc_endpoint_modules_witness:
  "\<exists>s h'. StartIPCEndpoint (\<lambda>_. ''0x1'') (modules_body demo_modules) [(''calc'', calc)] None = Inr s \<and>
     handleCallMsg (fst (newClientConn no_types [] (serve_client s))) new_callProc (new_jsonrpcMessage\<lparr>Version := vsn, ID := Some (JNum ''1''), Method := ''rpc_modules''\<rparr>)
       demo_state = Some (Some (response no_types (new_jsonrpcMessage\<lparr>Version := vsn, ID := Some (JNum ''1''), Method := ''rpc_modules''\<rparr>) (GoMap demo_modules)), new_callProc, h')"
proof -
  let ?msg = "new_jsonrpcMessage\<lparr>Version := vsn, ID := Some (JNum ''1''), Method := ''rpc_modules''\<rparr>"
  obtain s where s: "StartIPCEndpoint (\<lambda>_. ''0x1'') (modules_body demo_modules) [(''calc'', calc)] None = Inr s"
    by (simp add: StartIPCEndpoint_def Server_RegisterName_def registerName_def calc_callbacks Let_def)
  then have m: "Modules s = demo_modules"
    by (auto simp: StartIPCEndpoint_def Server_RegisterName_def registerName_def calc_callbacks Let_def Modules_def
        NewServer_services map_set_all_def demo_modules_def split: sum.splits)
  have call: "isCall ?msg" by code_simp
  have meth: "Method ?msg = ''rpc_modules''" "Params ?msg = None" by (simp_all add: new_jsonrpcMessage_def)
  have no: "\<forall>(n, r) \<in> set [(''calc'', calc)]. n = ''rpc'' \<longrightarrow> method_export r ''modules'' = None" by simp
  from ipc_endpoint_modules [OF s [folded m] no call meth, of no_types "[]" new_callProc demo_state] s m show ?thesis by auto
qed

end
