(* ===== verification/Go_Mime.thy ===== *)
theory Go_Mime
  imports Go_Url
begin

text \<open>
  Function ParseMediaType of package mime: the media type of a Content-Type header, in lower case and without its
  parameters, or an error.
\<close>

section \<open>Tokens and parameters\<close>

definition isTSpecial :: "char \<Rightarrow> bool" where
  "isTSpecial c \<longleftrightarrow>
     byte c \<in> {0x28, 0x29, 0x3C, 0x3E, 0x40, 0x2C, 0x3B, 0x3A, 0x5C, 0x22, 0x2F, 0x5B, 0x5D, 0x3F, 0x3D}"

definition isTokenChar :: "char \<Rightarrow> bool" where
  "isTokenChar c \<longleftrightarrow> 0x20 < byte c \<and> byte c < 0x7F \<and> \<not> isTSpecial c"

definition consumeToken :: "string \<Rightarrow> string \<times> string" where
  "consumeToken v = (takeWhile isTokenChar v, dropWhile isTokenChar v)"

text \<open>The rest of a quoted string after its opening quote, with what was read so far, reversed; \<^const>\<open>None\<close> if
  it does not end.\<close>

fun quoted_value :: "string \<Rightarrow> string \<Rightarrow> (string \<times> string) option" where
  "quoted_value acc [] = None"
| "quoted_value acc (r # v) =
     (if r = CHR 0x22 then Some (rev acc, v)
      else if r = CHR 0x5C \<and> v \<noteq> [] \<and> isTSpecial (hd v) then quoted_value (hd v # acc) (tl v)
      else if r = CHR 0x0D \<or> r = CHR 0x0A then None
      else quoted_value (r # acc) v)"

definition consumeValue :: "string \<Rightarrow> string \<times> string" where
  "consumeValue v =
     (case v of
        [] \<Rightarrow> ([], [])
      | c # cs \<Rightarrow>
          (if c \<noteq> CHR 0x22 then consumeToken v
           else case quoted_value [] cs of None \<Rightarrow> ([], v) | Some r \<Rightarrow> r))"

definition trim_left :: "string \<Rightarrow> string" where
  "trim_left s = dropWhile unicode_space s"

text \<open>strings.CutPrefix with a prefix of one byte.\<close>

definition cut_char :: "char \<Rightarrow> string \<Rightarrow> string option" where
  "cut_char c s = (case s of [] \<Rightarrow> None | x # xs \<Rightarrow> if x = c then Some xs else None)"

text \<open>consumeMediaParam; \<^const>\<open>None\<close> stands for an empty parameter name, with which the caller stops.\<close>

definition consumeMediaParam :: "string \<Rightarrow> (string \<times> string \<times> string) option" where
  "consumeMediaParam v =
     (case cut_char (CHR '';'') (trim_left v) of
        None \<Rightarrow> None
      | Some r1 \<Rightarrow>
          (case consumeToken (trim_left r1) of
             (param, r2) \<Rightarrow>
               (if param = [] then None
                else case cut_char (CHR ''='') (trim_left r2) of
                  None \<Rightarrow> None
                | Some r3 \<Rightarrow>
                    (let r4 = trim_left r3 in
                     case consumeValue r4 of
                       (val, r5) \<Rightarrow> if val = [] \<and> r5 = r4 then None else Some (strings_ToLower param, val, r5)))))"

definition checkMediaTypeDisposition :: "string \<Rightarrow> goerr option" where
  "checkMediaTypeDisposition s =
     (case consumeToken s of
        (typ, rest) \<Rightarrow>
          (if typ = [] then Some (PlainErr ''mime: no media type'')
           else if rest = [] then None
           else case cut_char (CHR ''/'') rest of
             None \<Rightarrow> Some (PlainErr ''mime: expected slash after first token'')
           | Some r \<Rightarrow>
               (case consumeToken r of
                  (subtype, rest') \<Rightarrow>
                    (if subtype = [] then Some (PlainErr ''mime: expected token after slash'')
                     else if rest' \<noteq> [] then Some (PlainErr ''mime: unexpected content after media subtype'')
                     else None))))"

lemma dropWhile_length [simp]: "length (dropWhile P xs) \<le> length xs"
  by (induction xs) auto

lemma cut_char_length: "cut_char c s = Some r \<Longrightarrow> length r < length s"
  by (auto simp: cut_char_def split: list.splits if_splits)

lemma quoted_value_length: "quoted_value acc v = Some (val, rest) \<Longrightarrow> length rest < length v"
  by (induction acc v rule: quoted_value.induct) (auto split: if_splits dest: Suc_lessD)

lemma consumeValue_length: "length (snd (consumeValue v)) \<le> length v"
  by (auto simp: consumeValue_def consumeToken_def le_Suc_eq split: list.split option.split dest: quoted_value_length)

lemma consumeMediaParam_length: "consumeMediaParam v = Some (key, val, rest) \<Longrightarrow> length rest < length v"
proof -
  assume "consumeMediaParam v = Some (key, val, rest)"
  then obtain r1 r3 where r: "cut_char (CHR '';'') (trim_left v) = Some r1"
      "cut_char (CHR ''='') (trim_left (snd (consumeToken (trim_left r1)))) = Some r3" "rest = snd (consumeValue (trim_left r3))"
    by (auto simp: consumeMediaParam_def Let_def split: option.splits prod.splits if_splits)
  have t: "length (trim_left x) \<le> length x" "length (snd (consumeToken x)) \<le> length x" for x
    by (simp_all add: trim_left_def consumeToken_def)
  show ?thesis
    unfolding r(3)
    using cut_char_length [OF r(1)] cut_char_length [OF r(2)] consumeValue_length [of "trim_left r3"]
      t(1) [of v] t(1) [of r1] t(2) [of "trim_left r1"] t(1) [of "snd (consumeToken (trim_left r1))"] t(1) [of r3] by linarith
qed

text \<open>
  The loop over the parameters, with those seen so far; the result is the error. Parameters with a star in
  their name are kept in other maps by the library; since a map is found by the part of the name before the star, one map
  for all of them gives the same duplicates.
\<close>

function media_params :: "string \<Rightarrow> (string, string) gomap \<Rightarrow> goerr option" where
  "media_params v params =
     (let v1 = trim_left v in
      if v1 = [] then None
      else case consumeMediaParam v1 of
        None \<Rightarrow> (if strings_TrimSpace v1 = '';'' then None else Some (PlainErr ''mime: invalid media parameter''))
      | Some (key, val, rest) \<Rightarrow>
          (case map_get params key of
             Some old \<Rightarrow> if old \<noteq> val then Some (PlainErr ''mime: duplicate parameter name'') else media_params rest (map_set key val params)
           | None \<Rightarrow> media_params rest (map_set key val params)))"
  by pat_completeness auto

termination media_params
proof (relation "measure (length \<circ> fst)")
  fix v params v1 p key q val rest
  assume "v1 = trim_left v" "consumeMediaParam v1 = Some p" "(key, q) = p" "(val, rest) = q"
  then have "length rest < length (trim_left v)" using consumeMediaParam_length by blast
  then have "length rest < length v" unfolding trim_left_def by (meson dropWhile_length order_less_le_trans)
  then show "((rest, map_set key val params), (v, params)) \<in> measure (length \<circ> fst)"
    "((rest, map_set key val params), (v, params)) \<in> measure (length \<circ> fst)" by simp_all
qed simp_all

declare media_params.simps [simp del]

definition ParseMediaType :: "string \<Rightarrow> goerr + string" where
  "ParseMediaType v =
     (let base = takeWhile (\<lambda>c. c \<noteq> CHR '';'') v;
          mediatype = strings_TrimSpace (strings_ToLower base)
      in case checkMediaTypeDisposition mediatype of
           Some err \<Rightarrow> Inl err
         | None \<Rightarrow> (case media_params (drop (length base) v) [] of Some err \<Rightarrow> Inl err | None \<Rightarrow> Inr mediatype))"

section \<open>A type without parameters\<close>

lemma ParseMediaType_Inr:
  assumes "ParseMediaType v = Inr mt"
  shows "mt = strings_TrimSpace (strings_ToLower (takeWhile (\<lambda>c. c \<noteq> CHR '';'') v))"
  using assms by (auto simp: ParseMediaType_def Let_def split: option.splits)

lemma ParseMediaType_plain:
  assumes "CHR '';'' \<notin> set v" and "checkMediaTypeDisposition (strings_TrimSpace (strings_ToLower v)) = None"
  shows "ParseMediaType v = Inr (strings_TrimSpace (strings_ToLower v))"
proof -
  have all: "takeWhile (\<lambda>c. c \<noteq> CHR '';'') v = v" using assms(1) by (auto simp: takeWhile_eq_all_conv)
  have "media_params [] [] = None" by (subst media_params.simps) (simp add: trim_left_def)
  then show ?thesis using assms(2) unfolding ParseMediaType_def Let_def all by simp
qed

end
