(* ===== verification/Rpc_HttpServer.thy ===== *)
theory Rpc_HttpServer
  imports Rpc_Server Go_Mime
begin

text \<open>
  The server side of http.go and serveSingleRequest of server.go: which HTTP requests are served, how one request is
  read, handled and answered, and the timeout of a request.

  The body of a request is what reading it gives: all of its text, or an error before a JSON value is complete. Writes to
  the ResponseWriter succeed.
\<close>

section \<open>Requests and responses\<close>

record http_request =
  rq_Method :: string
  rq_ContentLength :: int
  rq_RawQuery :: string
  rq_Header :: http_header
  rq_RemoteAddr :: string
  rq_Proto :: string
  rq_Host :: string
  rq_Body :: "goerr + string"

record http_writer =
  hw_status :: "int option"
  hw_header :: http_header
  hw_body :: string
  hw_flushed :: bool

definition new_http_writer :: http_writer where
  "new_http_writer = \<lparr>hw_status = None, hw_header = [], hw_body = [], hw_flushed = False\<rparr>"

text \<open>http.Error of package net/http.\<close>

definition http_Error :: "string \<Rightarrow> int \<Rightarrow> http_writer \<Rightarrow> http_writer" where
  "http_Error err code w =
     w\<lparr>hw_status := Some code,
       hw_header := header_Set ''X-Content-Type-Options'' ''nosniff'' (header_Set ''Content-Type'' ''text/plain; charset=utf-8'' (hw_header w)),
       hw_body := hw_body w @ err @ [CHR 0x0A]\<rparr>"

definition acceptedContentTypes :: "string list" where
  "acceptedContentTypes = [contentType, ''application/json-rpc'', ''application/jsonrequest'']"

definition validateRequest :: "Server \<Rightarrow> http_request \<Rightarrow> int \<times> goerr option" where
  "validateRequest s r =
     (if rq_Method r = ''PUT'' \<or> rq_Method r = ''DELETE'' then (405, Some (PlainErr ''method not allowed''))
      else if sv_httpBodyLimit s < rq_ContentLength r
      then (413, Some (PlainErr (''content length too large ('' @ strconv_Itoa (rq_ContentLength r) @ ''>'' @ strconv_Itoa (sv_httpBodyLimit s) @ '')'')))
      else if rq_Method r = ''OPTIONS'' then (0, None)
      else case ParseMediaType (header_Get (rq_Header r) ''content-type'') of
        Inr mt \<Rightarrow>
          (if mt \<in> set acceptedContentTypes then (0, None)
           else (415, Some (PlainErr (''invalid content type, only '' @ contentType @ '' is supported''))))
      | Inl _ \<Rightarrow> (415, Some (PlainErr (''invalid content type, only '' @ contentType @ '' is supported''))))"

text \<open>The encoder of newHTTPServerConn. A failing Marshal is reported to the caller and writes nothing.\<close>

definition http_encoder :: "usertypes \<Rightarrow> wire \<Rightarrow> bool \<Rightarrow> http_writer \<Rightarrow> goerr option \<times> http_writer" where
  "http_encoder ut v isErrorResponse w =
     (case encode_wire ut v of
        Inl err \<Rightarrow> (Some (PlainErr err), w)
      | Inr encdata \<Rightarrow>
          (if \<not> isErrorResponse then (None, w\<lparr>hw_body := hw_body w @ encdata @ [CHR 0x0A]\<rparr>)
           else (None, w\<lparr>hw_header := header_Set ''transfer-encoding'' ''identity''
                           (header_Set ''content-length'' (strconv_Itoa (int (length encdata))) (hw_header w)),
                         hw_body := hw_body w @ encdata, hw_flushed := True\<rparr>)))"

text \<open>The decoder of newHTTPServerConn reads the body up to the limit.\<close>

definition http_decode :: "Server \<Rightarrow> http_request \<Rightarrow> goerr + json" where
  "http_decode s r =
     (case rq_Body r of Inl err \<Rightarrow> Inl err | Inr b \<Rightarrow> decoder_Decode (take (nat (sv_httpBodyLimit s)) b))"

section \<open>One request\<close>

definition messageForReadError :: "goerr \<Rightarrow> string" where
  "messageForReadError err =
     (case err of
        NetErr timeout _ \<Rightarrow> if timeout then ''read timeout'' else ''read error''
      | CtxDeadlineExceeded \<Rightarrow> ''read timeout''
      | IoEOF \<Rightarrow> ''''
      | _ \<Rightarrow> ''parse error'')"

text \<open>The handler of a single request: no subscriptions.\<close>

definition single_handler :: "usertypes \<Rightarrow> Server \<Rightarrow> handlercfg \<times> hstate" where
  "single_handler ut s =
     (\<lparr>hreg = sv_services s, huser = ut, batchRequestLimit = sv_batchItemLimit s, batchResponseMaxSize = sv_batchResponseLimit s\<rparr>,
      (new_hstate (sv_idgen s) [])\<lparr>allowSubscribe := False\<rparr>)"

text \<open>The goroutine of a call or batch: the writes it makes, with their error flag, and the state it leaves.\<close>

inductive run_proc :: "handlercfg \<Rightarrow> call_proc \<Rightarrow> hstate \<Rightarrow> (wire \<times> bool) list \<Rightarrow> hstate \<Rightarrow> bool" for cfg where
  run_call: "handleNonBatchCall cfg sched msg h = Some h' \<Longrightarrow>
    run_proc cfg (ProcCall msg) h (map (\<lambda>e. (w_value e, w_isError e)) (drop (length (wlog h)) (wlog h'))) h'"
| run_batch: "(batch_step cfg)\<^sup>*\<^sup>* (batch_init hasTimeout calls h) b \<Longrightarrow> b_pc b = BDone \<Longrightarrow>
    run_proc cfg (ProcBatch calls) h (map (\<lambda>(rs, e). (WBatch rs, e)) (b_out b)) (b_h b)"
| run_reject: "p = ProcEmptyBatch \<or> p = ProcBatchTooLarge msgs \<Longrightarrow> h' = reject_batch p h \<Longrightarrow>
    run_proc cfg p h (map (\<lambda>e. (w_value e, w_isError e)) (drop (length (wlog h)) (wlog h'))) h'"

text \<open>serveSingleRequest and what it writes. The close of the handler waits for the goroutine.\<close>

inductive serveSingleRequest :: "usertypes \<Rightarrow> Server \<Rightarrow> goerr + json \<Rightarrow> (wire \<times> bool) list \<Rightarrow> bool" for ut s input where
  stopped: "\<not> sv_run s \<Longrightarrow> serveSingleRequest ut s input []"
| read_error: "sv_run s \<Longrightarrow> readBatch input = Inl err \<Longrightarrow>
    serveSingleRequest ut s input
      (if messageForReadError err \<noteq> '''' then [(WMsg (errorMessage (InvalidMessageError (messageForReadError err))), True)] else [])"
| no_calls: "sv_run s \<Longrightarrow> readBatch input = Inr (reqs, batch) \<Longrightarrow>
    dispatch_read (fst (single_handler ut s)) reqs batch (new_reqst []) = Some ([], rs) \<Longrightarrow>
    handler_close IoEOF None (rs, snd (single_handler ut s)) = Some st \<Longrightarrow>
    serveSingleRequest ut s input []"
| calls: "sv_run s \<Longrightarrow> readBatch input = Inr (reqs, batch) \<Longrightarrow>
    dispatch_read (fst (single_handler ut s)) reqs batch (new_reqst []) = Some ([p], rs) \<Longrightarrow>
    run_proc (fst (single_handler ut s)) p (snd (single_handler ut s)) out h' \<Longrightarrow>
    handler_close IoEOF None (rs, h') = Some st \<Longrightarrow>
    serveSingleRequest ut s input out"

section \<open>ServeHTTP\<close>

record PeerInfo =
  Transport :: string
  RemoteAddr :: string
  HTTP_Version :: string
  HTTP_UserAgent :: string
  HTTP_Origin :: string
  HTTP_Host :: string

definition zero_PeerInfo :: PeerInfo where
  "zero_PeerInfo = \<lparr>Transport = '''', RemoteAddr = '''', HTTP_Version = '''', HTTP_UserAgent = '''', HTTP_Origin = '''', HTTP_Host = ''''\<rparr>"

text \<open>The peer information that the context of a call carries: of the codec for connections, of the request over HTTP.\<close>

definition PeerInfoFromContext :: "PeerInfo option \<Rightarrow> PeerInfo" where
  "PeerInfoFromContext ctx = (case ctx of Some info \<Rightarrow> info | None \<Rightarrow> zero_PeerInfo)"

definition codec_peerInfo :: "jsonCodec \<Rightarrow> PeerInfo" where
  "codec_peerInfo c = zero_PeerInfo\<lparr>Transport := ''ipc'', RemoteAddr := remote c\<rparr>"

definition http_connInfo :: "http_request \<Rightarrow> PeerInfo" where
  "http_connInfo r =
     zero_PeerInfo\<lparr>Transport := ''http'', RemoteAddr := rq_RemoteAddr r, HTTP_Version := rq_Proto r, HTTP_Host := rq_Host r,
       HTTP_Origin := header_Get (rq_Header r) ''Origin'', HTTP_UserAgent := header_Get (rq_Header r) ''User-Agent''\<rparr>"

inductive ServeHTTP :: "usertypes \<Rightarrow> Server \<Rightarrow> http_request \<Rightarrow> http_writer \<Rightarrow> bool" for ut s r where
  health: "rq_Method r = ''GET'' \<Longrightarrow> rq_ContentLength r = 0 \<Longrightarrow> rq_RawQuery r = '''' \<Longrightarrow>
    ServeHTTP ut s r (new_http_writer\<lparr>hw_status := Some 200\<rparr>)"
| rejected: "\<not> (rq_Method r = ''GET'' \<and> rq_ContentLength r = 0 \<and> rq_RawQuery r = '''') \<Longrightarrow> validateRequest s r = (code, Some err) \<Longrightarrow>
    ServeHTTP ut s r (http_Error (ErrorString err) code new_http_writer)"
| served: "\<not> (rq_Method r = ''GET'' \<and> rq_ContentLength r = 0 \<and> rq_RawQuery r = '''') \<Longrightarrow> validateRequest s r = (code, None) \<Longrightarrow>
    serveSingleRequest ut s (http_decode s r) out \<Longrightarrow>
    w = fold (\<lambda>(v, e) w. snd (http_encoder ut v e w)) out (new_http_writer\<lparr>hw_header := header_Set ''content-type'' contentType []\<rparr>) \<Longrightarrow>
    ServeHTTP ut s r w"

section \<open>Timeouts\<close>

text \<open>Durations are in nanoseconds. The arguments are the time until the deadline of the context and the WriteTimeout of
  the HTTP server, if there is one.\<close>

record HTTPTimeouts =
  ReadTimeout :: int
  ReadHeaderTimeout :: int
  WriteTimeout :: int
  IdleTimeout :: int

definition DefaultHTTPTimeouts :: HTTPTimeouts where
  "DefaultHTTPTimeouts =
     \<lparr>ReadTimeout = 30 * 1000000000, ReadHeaderTimeout = 30 * 1000000000, WriteTimeout = 30 * 1000000000, IdleTimeout = 120 * 1000000000\<rparr>"

definition setTimeout :: "int \<Rightarrow> int \<times> bool \<Rightarrow> int \<times> bool" where
  "setTimeout d t = (if d < fst t then (d, True) else t)"

definition ContextRequestTimeout :: "int option \<Rightarrow> int option \<Rightarrow> int \<times> bool" where
  "ContextRequestTimeout untilDeadline writeTimeout =
     (let t0 = (2 ^ 63 - 1, False);
          t1 = (case untilDeadline of Some d \<Rightarrow> setTimeout d t0 | None \<Rightarrow> t0)
      in case writeTimeout of
           Some wt \<Rightarrow> if 0 < wt then setTimeout (wt - 100 * 1000000) t1 else t1
         | None \<Rightarrow> t1)"

section \<open>What one request writes\<close>

lemma single_handler_simps [simp]:
  "hreg (fst (single_handler ut s)) = sv_services s" "huser (fst (single_handler ut s)) = ut"
  "\<not> allowSubscribe (snd (single_handler ut s))" "wlog (snd (single_handler ut s)) = []"
  by (simp_all add: single_handler_def new_hstate_def)

lemma single_handler_inv [simp]: "hinv (snd (single_handler ut s))"
  using hinv_cong [of "snd (single_handler ut s)" "new_hstate (sv_idgen s) []"] by (simp add: single_handler_def)

lemma isCallD:
  assumes "isCall msg"
  shows "is_call_msg msg" "\<not> isNotification msg" "hasValidID msg"
  using assms
  by (auto simp: isCall_def is_call_msg_def isResponse_def isNotification_def hasValidID_def raw_string_def split: option.splits)

text \<open>Without subscriptions a call creates no notifier.\<close>

lemma handleCallMsg_cp:
  assumes "handleCallMsg cfg cp msg h = Some (ans, cp', h')" and "\<not> allowSubscribe h"
  shows "cp' = cp"
proof -
  have "cp2 = cp" if "handleCall cfg cp msg h = Some (r, cp2, h2)" for r cp2 h2
    using that assms(2) by (auto simp: handleCall_def handleSubscribe_def Let_def split: if_splits option.splits sum.splits)
  then show ?thesis using assms(1) by (auto simp: handleCallMsg_def split: if_splits option.splits)
qed

lemma handleNonBatchCall_plain:
  assumes "cfg_ok cfg" and "hinv h" and "\<not> allowSubscribe h" and "handleNonBatchCall cfg sched msg h = Some h'"
  shows "hinv h'" and "\<exists>ans. msg_answered msg ans \<and> map (\<lambda>e. (w_value e, w_isError e)) (drop (length (wlog h)) (wlog h')) =
      (if sched = TimerBefore \<or> sched = TimerAfter \<and> ans = None then [(WMsg (errorResponse msg timeout_error), True)]
       else case ans of Some a \<Rightarrow> [(WMsg a, False)] | None \<Rightarrow> [])"
    and "isSubscribe msg \<Longrightarrow> isCall msg \<Longrightarrow> sched \<noteq> TimerBefore \<Longrightarrow>
      map (\<lambda>e. (w_value e, w_isError e)) (drop (length (wlog h)) (wlog h')) = [(WMsg (errorResponse msg NotificationsUnsupportedError), False)]"
proof -
  define h0 where "h0 = (if sched = TimerBefore then snd (writeJSON (WMsg (errorResponse msg timeout_error)) True h) else h)"
  have h0: "hinv h0" "\<not> allowSubscribe h0" using assms(2,3) by (simp_all add: h0_def)
  obtain ans cp h1 where c: "handleCallMsg cfg new_callProc msg h0 = Some (ans, cp, h1)" "hinv h1" "call_frame h0 h1" "msg_answered msg ans"
    using handleCallMsg_ok [OF assms(1) h0(1) cp_ok_new, of msg] by metis
  have cp: "cp_notifiers cp = []" using handleCallMsg_cp [OF c(1) h0(2)] by (simp add: new_callProc_def)
  have w: "wlog h1 = wlog h0" using c(3) by (rule call_frameD)
  have h': "h' = (let h3 = (case ans of Some a \<Rightarrow> (if sched = TimerBefore then h1 else snd (writeJSON (WMsg a) False h1)) | None \<Rightarrow> h1) in
      if sched = TimerAfter \<and> ans = None then snd (writeJSON (WMsg (errorResponse msg timeout_error)) True h3) else h3)"
    using assms(4) c(1) cp unfolding h0_def by (auto simp: handleNonBatchCall_def Let_def split: if_splits option.splits)
  show "hinv h'" unfolding h' using c(2) by (simp add: Let_def split: option.split)
  let ?out = "map (\<lambda>e. (w_value e, w_isError e)) (drop (length (wlog h)) (wlog h'))"
  have out: "?out = (if sched = TimerBefore \<or> sched = TimerAfter \<and> ans = None then [(WMsg (errorResponse msg timeout_error), True)]
       else case ans of Some a \<Rightarrow> [(WMsg a, False)] | None \<Rightarrow> [])"
    unfolding h' using w by (cases sched; cases ans) (simp_all add: writeJSON_wlog h0_def Let_def)
  then show "\<exists>ans. msg_answered msg ans \<and> ?out = (if sched = TimerBefore \<or> sched = TimerAfter \<and> ans = None then [(WMsg (errorResponse msg timeout_error), True)]
       else case ans of Some a \<Rightarrow> [(WMsg a, False)] | None \<Rightarrow> [])" using c(4) by blast
  show "?out = [(WMsg (errorResponse msg NotificationsUnsupportedError), False)]" if "isSubscribe msg" "isCall msg" "sched \<noteq> TimerBefore"
  proof -
    have "ans = Some (errorResponse msg NotificationsUnsupportedError)"
      using that h0(2) c(1) isCallD(2) [OF that(2)] by (auto simp: handleCallMsg_def handleCall_def handleSubscribe_def)
    then show ?thesis using out that(3) by simp
  qed
qed

lemma handler_close_ok:
  assumes "rinv rs" and "hinv h"
  shows "\<exists>st. handler_close err None (rs, h) = Some st"
proof -
  obtain rs' where "cancelAllRequests err None rs = Some rs'" using cancel_ok [OF assms(1), of err None] by blast
  moreover obtain h' where "cancelServerSubscriptions err h = Some h'"
    using cancelSubs_hinv [OF assms(2), of "serverSubs h" err] hinvD(1) [OF assms(2)] by (auto simp: cancelServerSubscriptions_def)
  ultimately show ?thesis by (simp add: handler_close_def)
qed

text \<open>What dispatching a message or batch starts when nothing waits for responses: at most one goroutine.\<close>

lemma dispatch_single:
  "\<exists>procs rs. dispatch_read cfg reqs batch (new_reqst []) = Some (procs, rs) \<and> rinv rs \<and>
     procs = (if \<not> batch then (if is_call_msg (reqs ! 0) then [ProcCall (reqs ! 0)] else [])
              else if reqs = [] then [ProcEmptyBatch]
              else if batchRequestLimit cfg \<noteq> 0 \<and> batchRequestLimit cfg < int (length reqs) then [ProcBatchTooLarge reqs]
              else if filter is_call_msg reqs = [] then [] else [ProcBatch (filter is_call_msg reqs)])"
proof -
  have ok: "\<exists>s'. handleResponses ms (new_reqst []) = Some (filter is_call_msg ms, s') \<and> rinv s'" for ms
    using handleResponses_ok [OF rinv_new, of ms "[]"] unfolding responses_done_def by blast
  obtain s1 where s1: "handleResponses [reqs ! 0] (new_reqst []) = Some (filter is_call_msg [reqs ! 0], s1)" "rinv s1" using ok by blast
  obtain s2 where s2: "handleResponses reqs (new_reqst []) = Some (filter is_call_msg reqs, s2)" "rinv s2" using ok by blast
  show ?thesis using s1 s2 rinv_new by (simp add: dispatch_read_def handleMsg_def handleBatch_def)
qed

lemma batch_reach:
  assumes "cfg_ok cfg" and "hinv h" and "(batch_step cfg)\<^sup>*\<^sup>* (batch_init t calls h) b"
  shows "reachable (batch_start cfg calls) (batch_step cfg) b"
proof -
  have "batch_start cfg calls (batch_init t calls h)" using assms(1,2) by (auto simp: batch_start_def)
  then have "reachable (batch_start cfg calls) (batch_step cfg) (batch_init t calls h)" by (rule reach_init)
  then show ?thesis using reachable_steps [OF assms(3)] by blast
qed


lemma batch_out_once:
  assumes "reachable (batch_start cfg calls) (batch_step cfg) b"
  shows "length (b_out b) \<le> 1" and "hinv (b_h b)"
proof -
  have i: "buf_inv calls (b_cancelled b) (b_buf b) (b_out b)" "notif_inv (b_pc b) (b_cp b) (b_h b)"
    using batch.reachable_inv [OF assms] by (auto simp: batch_inv_def binv_def)
  then show "length (b_out b) \<le> 1" by (cases "bb_wrote (b_buf b)") (auto simp: buf_inv_def out_ok_def)
  show "hinv (b_h b)" using i(2) by (simp add: notif_inv_def)
qed

text \<open>A goroutine writes at most one value, and never a notification.\<close>

lemma run_proc_out:
  assumes "run_proc cfg p h out h'" and "cfg_ok cfg" and "hinv h" and "\<not> allowSubscribe h"
  shows "length out \<le> 1 \<and> (\<forall>(v, e) \<in> set out. \<forall>n. v \<noteq> WNotif n) \<and> hinv h'"
  using assms(1)
proof cases
  case (run_call sched msg)
  note plain = handleNonBatchCall_plain(1,2) [OF assms(2-4) run_call(3)]
  from plain(2) obtain ans where "out = (if sched = TimerBefore \<or> sched = TimerAfter \<and> ans = None
      then [(WMsg (errorResponse msg timeout_error), True)] else case ans of Some a \<Rightarrow> [(WMsg a, False)] | None \<Rightarrow> [])"
    unfolding run_call(2) by blast
  then show ?thesis using plain(1) by (auto split: option.splits)
next
  case (run_batch t calls b)
  note b = batch_out_once [OF batch_reach [OF assms(2,3) run_batch(4)]]
  show ?thesis unfolding run_batch(2,3) using b by (auto split: prod.splits)
next
  case (run_reject msgs)
  then show ?thesis using assms(3) by (auto simp: reject_batch_def writeJSON_wlog)
qed

lemma run_proc_ex:
  assumes "cfg_ok cfg" and "hinv h"
  shows "\<exists>out h'. run_proc cfg p h out h' \<and> hinv h'"
proof (cases p)
  case (ProcCall msg)
  from handleNonBatchCall_ok [OF assms, of TimerOff msg] obtain h' where "handleNonBatchCall cfg TimerOff msg h = Some h'" "hinv h'" by metis
  then show ?thesis using run_call ProcCall by blast
next
  case (ProcBatch calls)
  have "batch_start cfg calls (batch_init False calls h)" using assms by (auto simp: batch_start_def)
  then have "reachable (batch_start cfg calls) (batch_step cfg) (batch_init False calls h)" by (rule reach_init)
  from batch.reachable_runs_to_done [OF this] obtain b where b: "(batch_step cfg)\<^sup>*\<^sup>* (batch_init False calls h) b" "b_pc b = BDone"
    by (auto simp: batch_done_def)
  then show ?thesis using run_batch [OF b] batch_out_once(2) [OF batch_reach [OF assms b(1)]] ProcBatch by blast
next
  case ProcEmptyBatch
  then show ?thesis using run_reject [of p _ _ h cfg] assms(2) by (fastforce simp: reject_batch_def)
next
  case (ProcBatchTooLarge msgs)
  then show ?thesis using run_reject [of p msgs _ h cfg] assms(2) by (fastforce simp: reject_batch_def)
qed

lemma serveSingleRequest_ex:
  assumes "cfg_ok (fst (single_handler ut s))"
  shows "\<exists>out. serveSingleRequest ut s input out"
proof (cases "sv_run s")
  case True
  let ?c = "fst (single_handler ut s)" and ?h = "snd (single_handler ut s)"
  show ?thesis
  proof (cases "readBatch input")
    case (Inr r)
    obtain reqs batch where r: "readBatch input = Inr (reqs, batch)" using Inr by (cases r) auto
    obtain procs rs where d: "dispatch_read ?c reqs batch (new_reqst []) = Some (procs, rs)" "rinv rs"
      "procs = [] \<or> (\<exists>p. procs = [p])" using dispatch_single [of ?c reqs batch] by (auto split: if_splits)
    show ?thesis
    proof (cases "procs = []")
      case True
      then show ?thesis using no_calls [OF \<open>sv_run s\<close> r] d handler_close_ok [OF d(2) single_handler_inv] by blast
    next
      case False
      then obtain p where p: "procs = [p]" using d(3) by blast
      obtain out h' where "run_proc ?c p ?h out h'" "hinv h'" using run_proc_ex [OF assms single_handler_inv] by blast
      then show ?thesis using calls [OF \<open>sv_run s\<close> r] d p handler_close_ok [OF d(2)] by blast
    qed
  qed (use read_error True in blast)
qed (use stopped in blast)

text \<open>The answer to a single call.\<close>

lemma single_call_out:
  assumes "cfg_ok (fst (single_handler ut s))" and "serveSingleRequest ut s input out"
    and m: "sv_run s" "readBatch input = Inr ([msg], False)" "isCall msg"
  shows "\<exists>r e. out = [(WMsg r, e)] \<and> isResponse r \<and> ID r = ID msg \<and>
    (isSubscribe msg \<longrightarrow> r = errorResponse msg NotificationsUnsupportedError \<or> r = errorResponse msg timeout_error)"
proof -
  let ?c = "fst (single_handler ut s)" and ?h = "snd (single_handler ut s)"
  note call = isCallD [OF m(3)]
  obtain rs where d: "dispatch_read ?c [msg] False (new_reqst []) = Some ([ProcCall msg], rs)"
    using dispatch_single [of ?c "[msg]" False] call(1) by auto
  from assms(2) obtain h' where p: "run_proc ?c (ProcCall msg) ?h out h'"
    using d m(1,2) by cases auto
  then obtain sched where s: "handleNonBatchCall ?c sched msg ?h = Some h'"
    "out = map (\<lambda>e. (w_value e, w_isError e)) (drop (length (wlog ?h)) (wlog h'))"
    by (cases rule: run_proc.cases) auto
  note plain = handleNonBatchCall_plain(2,3) [OF assms(1) single_handler_inv single_handler_simps(3) s(1)]
  from plain(1) obtain ans where ans: "msg_answered msg ans"
    "out = (if sched = TimerBefore \<or> sched = TimerAfter \<and> ans = None then [(WMsg (errorResponse msg timeout_error), True)]
            else case ans of Some a \<Rightarrow> [(WMsg a, False)] | None \<Rightarrow> [])" unfolding s(2) [symmetric] by blast
  then obtain a where a: "ans = Some a" "isResponse a" "ID a = ID msg" using call by (auto simp: msg_answered_def)
  have "isSubscribe msg \<Longrightarrow> sched \<noteq> TimerBefore \<Longrightarrow> out = [(WMsg (errorResponse msg NotificationsUnsupportedError), False)]"
    using plain(2) m(3) unfolding s(2) [symmetric] by blast
  then show ?thesis using ans(2) a isResponse_errorResponse [OF call(3)] by (cases "sched = TimerBefore") auto
qed

lemma ParseMediaType_accepted: "mt \<in> set acceptedContentTypes \<Longrightarrow> ParseMediaType mt = Inr mt"
proof -
  have "list_all (\<lambda>t. ParseMediaType t = Inr t) acceptedContentTypes" by code_simp
  then show "mt \<in> set acceptedContentTypes \<Longrightarrow> ParseMediaType mt = Inr mt" by (simp add: list_all_iff)
qed

lemma ParseMediaType_json: "ParseMediaType contentType = Inr contentType"
  by (rule ParseMediaType_accepted) (simp add: acceptedContentTypes_def)

text \<open>ServeHTTP comes to an end on every branch.\<close>

lemma ServeHTTP_ex:
  assumes "cfg_ok (fst (single_handler ut s))"
  shows "\<exists>w. ServeHTTP ut s r w"
proof (cases "rq_Method r = ''GET'' \<and> rq_ContentLength r = 0 \<and> rq_RawQuery r = ''''")
  case False
  obtain code res where v: "validateRequest s r = (code, res)" by fastforce
  show ?thesis
  proof (cases res)
    case None
    obtain out where "serveSingleRequest ut s (http_decode s r) out" using serveSingleRequest_ex [OF assms] by blast
    then show ?thesis using served [OF False] v None by blast
  qed (use rejected [OF False] v in blast)
qed (use health in blast)

section \<open>Properties\<close>

text \<open>C21. What a request over HTTP is answered with, for every schedule of the timers: at most one JSON value is written, and
  never a subscription notification. While the server runs, a single call gets exactly one response with the id of the
  call, and a call that wants to subscribe is refused, with an error for unsupported notifications or for the
  timeout.\<close>

theorem http_request_answered:
  assumes "cfg_ok (fst (single_handler ut s))" and "serveSingleRequest ut s input out"
  shows "length out \<le> 1 \<and> (\<forall>(v, e) \<in> set out. \<forall>n. v \<noteq> WNotif n) \<and>
    (\<forall>msg. sv_run s \<longrightarrow> readBatch input = Inr ([msg], False) \<longrightarrow> isCall msg \<longrightarrow>
       (\<exists>r e. out = [(WMsg r, e)] \<and> isResponse r \<and> ID r = ID msg \<and>
          (isSubscribe msg \<longrightarrow> r = errorResponse msg NotificationsUnsupportedError \<or> r = errorResponse msg timeout_error)))"
proof -
  have "length out \<le> 1 \<and> (\<forall>(v, e) \<in> set out. \<forall>n. v \<noteq> WNotif n)"
    using assms(2)
  proof cases
    case (calls reqs batch p rs h' st)
    then show ?thesis using run_proc_out [OF calls(4) assms(1)] by simp
  qed auto
  then show ?thesis using single_call_out [OF assms] by blast
qed

definition demo_server :: Server where
  "demo_server = NewServer (\<lambda>_. ''0x1'') (modules_body [(''rpc'', ''1.0'')])"

lemma demo_server_simps:
  "sv_run demo_server" "cfg_ok (fst (single_handler ut demo_server))" "sv_httpBodyLimit demo_server = 5242880"
proof -
  show "cfg_ok (fst (single_handler ut demo_server))" by (simp add: cfg_ok_def demo_server_def NewServer_services)
qed (simp_all add: demo_server_def NewServer_def Server_RegisterName_def Let_def defaultBodyLimit_def split: sum.split)

lemma demo_input: "readBatch (Inr (message_tree no_types enc_call)) = Inr ([enc_call], False)" "isCall enc_call"
proof -
  have e: "Error enc_call = None" by (simp add: enc_call_def new_jsonrpcMessage_def)
  then obtain t where t: "encode_message no_types enc_call = Inr t" by (auto simp: encode_message_def Let_def)
  have d: "delim []" by (simp add: delim_def)
  have "received no_types enc_call = enc_call" using e by (simp add: received_def)
  with encoded_message_read(2) [OF enc_demo_ok(1) t d]
  show "readBatch (Inr (message_tree no_types enc_call)) = Inr ([enc_call], False)" by simp
  show "isCall enc_call" by code_simp
qed

theorem http_request_answered_witness:
  "\<exists>r e. serveSingleRequest no_types demo_server (Inr (message_tree no_types enc_call)) [(WMsg r, e)] \<and> isResponse r \<and> ID r = ID enc_call"
proof -
  obtain out where out: "serveSingleRequest no_types demo_server (Inr (message_tree no_types enc_call)) out"
    using serveSingleRequest_ex [OF demo_server_simps(2)] by blast
  note ans = http_request_answered [OF demo_server_simps(2) out, THEN conjunct2, THEN conjunct2, rule_format, OF demo_server_simps(1) demo_input]
  then obtain r e where "out = [(WMsg r, e)]" "isResponse r" "ID r = ID enc_call" by (elim exE conjE)
  then show ?thesis using out by (intro exI [of _ r] exI [of _ e] conjI) simp_all
qed

text \<open>Every HTTP request is answered: whatever its method, headers and body, and whether the server runs or not, ServeHTTP comes
  to an end, with the status for a health check, with an error status, or after serving the request.\<close>

theorem ServeHTTP_answers:
  assumes "cfg_ok (fst (single_handler ut s))"
  shows "\<exists>w. ServeHTTP ut s r w"
  by (rule ServeHTTP_ex [OF assms])

theorem ServeHTTP_answers_witness:
  "\<exists>w. ServeHTTP no_types demo_server
     \<lparr>rq_Method = ''POST'', rq_ContentLength = -1, rq_RawQuery = '''', rq_Header = [(''Content-Type'', [''application/json''])], rq_RemoteAddr = '''',
      rq_Proto = ''HTTP/1.1'', rq_Host = ''localhost'', rq_Body = Inl (NetErr True ''i/o timeout'')\<rparr> w"
  by (rule ServeHTTP_answers [OF demo_server_simps(2)])

text \<open>C27. Which requests are served. A request that passes is neither PUT nor DELETE, announces no more than the body limit, and,
  OPTIONS apart, names one of the accepted media types, whatever its case, the white space around it and its
  parameters. A plain header with an accepted type passes. However long the body really is, no more than the limit of it is decoded.\<close>

theorem validateRequest_correct:
  "(snd (validateRequest s r) = None \<longrightarrow>
      fst (validateRequest s r) = 0 \<and> rq_Method r \<noteq> ''PUT'' \<and> rq_Method r \<noteq> ''DELETE'' \<and> rq_ContentLength r \<le> sv_httpBodyLimit s \<and>
      (rq_Method r = ''OPTIONS'' \<or>
       strings_TrimSpace (strings_ToLower (takeWhile (\<lambda>c. c \<noteq> CHR '';'') (header_Get (rq_Header r) ''content-type''))) \<in>
         {''application/json'', ''application/json-rpc'', ''application/jsonrequest''})) \<and>
   (snd (validateRequest s r) \<noteq> None \<longrightarrow> fst (validateRequest s r) \<in> {405, 413, 415}) \<and>
   (rq_Method r = ''POST'' \<longrightarrow> rq_ContentLength r \<le> sv_httpBodyLimit s \<longrightarrow>
      header_Get (rq_Header r) ''content-type'' \<in> {''application/json'', ''application/json-rpc'', ''application/jsonrequest''} \<longrightarrow>
      validateRequest s r = (0, None)) \<and>
   (\<forall>b b'. rq_Body r = Inr b \<longrightarrow> take (nat (sv_httpBodyLimit s)) b' = take (nat (sv_httpBodyLimit s)) b \<longrightarrow>
      http_decode s (r\<lparr>rq_Body := Inr b'\<rparr>) = http_decode s r)"
proof -
  let ?ct = "header_Get (rq_Header r) ''content-type''"
  have acc: "set acceptedContentTypes = {''application/json'', ''application/json-rpc'', ''application/jsonrequest''}"
    by (simp add: acceptedContentTypes_def contentType_def)
  have "validateRequest s r = (0, None)"
    if "rq_Method r = ''POST''" "rq_ContentLength r \<le> sv_httpBodyLimit s" "?ct \<in> set acceptedContentTypes"
    using that ParseMediaType_accepted [OF that(3)] by (simp add: validateRequest_def)
  moreover have "snd (validateRequest s r) = None \<Longrightarrow> fst (validateRequest s r) = 0 \<and> rq_Method r \<noteq> ''PUT'' \<and> rq_Method r \<noteq> ''DELETE'' \<and> rq_ContentLength r \<le> sv_httpBodyLimit s \<and>
      (rq_Method r = ''OPTIONS'' \<or> strings_TrimSpace (strings_ToLower (takeWhile (\<lambda>c. c \<noteq> CHR '';'') ?ct)) \<in> set acceptedContentTypes)"
    using ParseMediaType_Inr [of ?ct] by (auto simp: validateRequest_def split: if_splits sum.splits)
  moreover have "snd (validateRequest s r) \<noteq> None \<Longrightarrow> fst (validateRequest s r) \<in> {405, 413, 415}"
    by (auto simp: validateRequest_def split: if_splits sum.splits)
  ultimately show ?thesis unfolding acc by (simp add: http_decode_def)
qed

theorem validateRequest_correct_witness:
  "validateRequest demo_server
     \<lparr>rq_Method = ''POST'', rq_ContentLength = 10, rq_RawQuery = '''', rq_Header = [(''Content-Type'', [''application/json''])], rq_RemoteAddr = '''',
      rq_Proto = ''HTTP/1.1'', rq_Host = ''localhost'', rq_Body = Inr ''{}''\<rparr> = (0, None)"
proof -
  have "header_Get [(''Content-Type'', [''application/json''])] ''content-type'' = ''application/json''" by code_simp
  then show ?thesis
    using validateRequest_correct [of demo_server "\<lparr>rq_Method = ''POST'', rq_ContentLength = 10, rq_RawQuery = '''', rq_Header = [(''Content-Type'', [''application/json''])],
      rq_RemoteAddr = '''', rq_Proto = ''HTTP/1.1'', rq_Host = ''localhost'', rq_Body = Inr ''{}''\<rparr>"]
    by (simp add: demo_server_simps(3))
qed

text \<open>The timeout of a request is the smaller one of the time until the deadline of its context and the write timeout of the HTTP
  server less 100 milliseconds, so that the error response for a timeout leaves before the server cuts the connection;
  there is none exactly when neither is set. It stays within 64 bits.\<close>

theorem ContextRequestTimeout_bounds:
  assumes "\<And>d. deadline = Some d \<Longrightarrow> - (2 ^ 63) \<le> d \<and> d < 2 ^ 63 - 1" and "\<And>wt. writeTimeout = Some wt \<Longrightarrow> - (2 ^ 63) \<le> wt \<and> wt < 2 ^ 63"
    and "ContextRequestTimeout deadline writeTimeout = (t, has)"
  shows "- (2 ^ 63) \<le> t \<and> t < 2 ^ 63 \<and>
    (has \<longleftrightarrow> deadline \<noteq> None \<or> (\<exists>wt > 0. writeTimeout = Some wt)) \<and>
    (\<forall>d. deadline = Some d \<longrightarrow> t \<le> d) \<and> (\<forall>wt > 0. writeTimeout = Some wt \<longrightarrow> t \<le> wt - 100000000) \<and>
    (has \<longrightarrow> deadline = Some t \<or> writeTimeout = Some (t + 100000000))"
  using assms by (cases deadline; cases writeTimeout) (auto simp: ContextRequestTimeout_def setTimeout_def Let_def split: if_splits)

theorem ContextRequestTimeout_bounds_witness:
  "\<exists>t. ContextRequestTimeout None (Some (WriteTimeout DefaultHTTPTimeouts)) = (t, True) \<and> t \<le> 29900000000"
proof -
  let ?r = "ContextRequestTimeout None (Some (WriteTimeout DefaultHTTPTimeouts))"
  have "- (2 ^ 63) \<le> fst ?r \<and> fst ?r < 2 ^ 63 \<and>
    (snd ?r \<longleftrightarrow> (None :: int option) \<noteq> None \<or> (\<exists>wt > 0. Some (WriteTimeout DefaultHTTPTimeouts) = Some wt)) \<and>
    (\<forall>d. None = Some d \<longrightarrow> fst ?r \<le> d) \<and> (\<forall>wt > 0. Some (WriteTimeout DefaultHTTPTimeouts) = Some wt \<longrightarrow> fst ?r \<le> wt - 100000000) \<and>
    (snd ?r \<longrightarrow> None = Some (fst ?r) \<or> Some (WriteTimeout DefaultHTTPTimeouts) = Some (fst ?r + 100000000))"
    by (rule ContextRequestTimeout_bounds) (simp_all add: DefaultHTTPTimeouts_def)
  then show ?thesis by (intro exI [of _ "fst ?r"]) (simp add: DefaultHTTPTimeouts_def prod_eq_iff)
qed


end
