(* ===== verification/Rpc_Websocket.thy ===== *)
theory Rpc_Websocket
  imports Rpc_HttpServer
begin

text \<open>
  websocket.go: the check of the Origin header, dialing with credentials, headers and limits, and the codec of a
  WebSocket connection with its ping loop.

  The library gorilla/websocket is the environment: the outcome of a dial is a parameter. A mapset is a list; a loop over it stops
  at the first rule that allows the origin, so that only its elements matter. os.Hostname is a parameter.
\<close>

section \<open>Origins\<close>

definition parseOriginURL :: "string \<Rightarrow> goerr + string \<times> string \<times> string" where
  "parseOriginURL origin =
     (case url_Parse (strings_ToLower origin) of
        Inl err \<Rightarrow> Inl err
      | Inr parsedURL \<Rightarrow>
          (if strings_Contains origin ''://'' then Inr (u_Scheme parsedURL, url_Hostname parsedURL, url_Port parsedURL)
           else Inr ('''', (if u_Scheme parsedURL = '''' then origin else u_Scheme parsedURL), u_Opaque parsedURL)))"

definition ruleAllowsOrigin :: "string \<Rightarrow> string \<Rightarrow> bool" where
  "ruleAllowsOrigin allowedOrigin browserOrigin =
     (case parseOriginURL allowedOrigin of
        Inl _ \<Rightarrow> False
      | Inr (allowedScheme, allowedHostname, allowedPort) \<Rightarrow>
          (case parseOriginURL browserOrigin of
             Inl _ \<Rightarrow> False
           | Inr (browserScheme, browserHostname, browserPort) \<Rightarrow>
               (if allowedScheme \<noteq> '''' \<and> allowedScheme \<noteq> browserScheme then False
                else if allowedHostname \<noteq> '''' \<and> allowedHostname \<noteq> browserHostname then False
                else if allowedPort \<noteq> '''' \<and> allowedPort \<noteq> browserPort then False
                else True)))"

fun originIsAllowed :: "string list \<Rightarrow> string \<Rightarrow> bool" where
  "originIsAllowed [] browserOrigin = False"
| "originIsAllowed (origin # origins) browserOrigin =
     (if ruleAllowsOrigin origin browserOrigin then True else originIsAllowed origins browserOrigin)"

text \<open>The set of rules: without any, the local host and the name of this host.\<close>

definition origin_rules :: "string option \<Rightarrow> string list \<Rightarrow> string list" where
  "origin_rules hostname allowedOrigins =
     (let origins = filter (\<lambda>origin. origin \<noteq> '''') allowedOrigins in
      if origins = [] then ''http://localhost'' # (case hostname of Some h \<Rightarrow> [''http://'' @ h] | None \<Rightarrow> []) else origins)"

definition wsHandshakeValidator :: "string option \<Rightarrow> string list \<Rightarrow> http_header \<Rightarrow> bool" where
  "wsHandshakeValidator hostname allowedOrigins header =
     (if map_get header ''Origin'' = None then True
      else let origin = strings_ToLower (header_Get header ''Origin'')
           in ''*'' \<in> set allowedOrigins \<or> originIsAllowed (origin_rules hostname allowedOrigins) origin)"

section \<open>Dialing\<close>

definition wsDefaultReadLimit :: int where
  "wsDefaultReadLimit = 32 * 1024 * 1024"

definition wsClientHeaders :: "string \<Rightarrow> string \<Rightarrow> goerr + string \<times> http_header" where
  "wsClientHeaders endpoint origin =
     (case url_Parse endpoint of
        Inl err \<Rightarrow> Inl err
      | Inr endpointURL \<Rightarrow>
          (let header = (if origin \<noteq> '''' then header_Add ''origin'' origin [] else [])
           in case u_User endpointURL of
                None \<Rightarrow> Inr (url_String endpointURL, header)
              | Some user \<Rightarrow>
                  Inr (url_String (endpointURL\<lparr>u_User := None\<rparr>),
                       header_Add ''authorization'' (''Basic '' @ base64_Encode (Userinfo_String user)) header)))"

text \<open>The error of a failed handshake keeps the error of the dialer and the status line, if there was a response.\<close>

record wsHandshakeError =
  hs_err :: goerr
  hs_status :: string

definition wsHandshakeError_Error :: "wsHandshakeError \<Rightarrow> string" where
  "wsHandshakeError_Error e =
     ErrorString (hs_err e) @ (if hs_status e \<noteq> '''' then '' (HTTP status '' @ hs_status e @ '')'' else '''')"

definition wsHandshakeError_Unwrap :: "wsHandshakeError \<Rightarrow> goerr" where
  "wsHandshakeError_Unwrap e = hs_err e"

datatype ws_failure = AuthFailed goerr | HandshakeFailed wsHandshakeError

text \<open>A WebSocket codec: the embedded jsonCodec, the peer information, the read limit of the connection and the
  channel that postpones the next ping.\<close>

record websocketCodec =
  ws_codec :: jsonCodec
  ws_info :: PeerInfo
  ws_readLimit :: int
  ws_pingReset :: "unit chan"

definition newWebsocketCodec :: "string \<Rightarrow> string \<Rightarrow> http_header \<Rightarrow> int \<Rightarrow> websocketCodec" where
  "newWebsocketCodec remoteAddr host req readLimit =
     \<lparr>ws_codec = NewFuncCodec (Some remoteAddr),
      ws_info = zero_PeerInfo\<lparr>Transport := ''ws'', RemoteAddr := remoteAddr, HTTP_Host := host,
        HTTP_Origin := header_Get req ''Origin'', HTTP_UserAgent := header_Get req ''User-Agent''\<rparr>,
      ws_readLimit = readLimit, ws_pingReset = make_chan 1\<rparr>"

text \<open>newClientTransportWS: the URL and the headers it dials with, and its connect function. The outcome of the dial is an
  error with the status of the response, if any, or the remote address of the connection.\<close>

definition newClientTransportWS :: "string \<Rightarrow> clientConfig \<Rightarrow> goerr + string \<times> http_header" where
  "newClientTransportWS endpoint cfg =
     (case wsClientHeaders endpoint '''' of
        Inl err \<Rightarrow> Inl err
      | Inr (dialURL, header) \<Rightarrow> Inr (dialURL, fold (\<lambda>kv. map_set (fst kv) (snd kv)) (cfg_headers cfg) header))"

definition ws_connect ::
    "clientConfig \<Rightarrow> string \<times> http_header \<Rightarrow> (string \<Rightarrow> http_header \<Rightarrow> goerr \<times> string option + string) \<Rightarrow> ws_failure + websocketCodec" where
  "ws_connect cfg target dial =
     (case target of
        (dialURL, header0) \<Rightarrow>
          (case (case httpAuth cfg of None \<Rightarrow> (None, header0) | Some auth \<Rightarrow> auth header0) of
             (Some err, _) \<Rightarrow> Inl (AuthFailed err)
           | (None, header) \<Rightarrow>
               (case dial dialURL header of
                  Inl (err, status) \<Rightarrow>
                    Inl (HandshakeFailed \<lparr>hs_err = err, hs_status = (case status of Some st \<Rightarrow> st | None \<Rightarrow> '''')\<rparr>)
                | Inr remoteAddr \<Rightarrow>
                    (let messageSizeLimit =
                       (case wsMessageSizeLimit cfg of Some n \<Rightarrow> if 0 \<le> n then n else wsDefaultReadLimit | None \<Rightarrow> wsDefaultReadLimit)
                     in Inr (newWebsocketCodec remoteAddr dialURL header messageSizeLimit)))))"

text \<open>The upgrade of an incoming request: the Upgrader refuses it when CheckOrigin does, else its outcome is a parameter, an
  error or the remote address of the connection, which is then served by ServeCodec.\<close>

definition WebsocketHandler ::
    "(http_request \<Rightarrow> goerr + string) \<Rightarrow> string option \<Rightarrow> string list \<Rightarrow> http_request \<Rightarrow> websocketCodec option" where
  "WebsocketHandler upgrade hostname allowedOrigins r =
     (if \<not> wsHandshakeValidator hostname allowedOrigins (rq_Header r) then None
      else case upgrade r of
        Inl _ \<Rightarrow> None
      | Inr remoteAddr \<Rightarrow> Some (newWebsocketCodec remoteAddr (rq_Host r) (rq_Header r) wsDefaultReadLimit))"

section \<open>The codec and its ping loop\<close>

text \<open>
  The goroutines of a connection: those that write, one at a time because of encMu, and then postpone the next ping; the ping
  loop; the read loop, which runs the pong handler; and close, which closes the jsonCodec and waits for the ping loop.

  A timer runs, or it has expired and its value waits in its channel, or neither, because it was stopped or its value
  was received. Stop reports that it found nothing to stop only in the last case (as of Go 1.23, to which the module is
  set), and only then the loop would wait for a value that never comes: \<open>PStuck\<close>.
\<close>

datatype ping_timer = Running | Expired | Idle

datatype ping_pc = PSelect | PPing | PStuck | PReturned

record wsst =
  x_ws :: websocketCodec
  x_timer :: ping_timer
  x_pc :: ping_pc
  x_writing :: bool
  x_resets :: nat \<comment> \<open>writers that are about to send on pingReset\<close>
  x_pong :: bool \<comment> \<open>the pong handler waits to hand over a pong\<close>
  x_readDeadline :: bool
  x_pings :: nat

abbreviation x_closed :: "wsst \<Rightarrow> bool" where
  "x_closed x \<equiv> chclosed (closeCh (ws_codec (x_ws x)))"

definition ws_init :: "wsst \<Rightarrow> bool" where
  "ws_init x \<longleftrightarrow> (\<exists>remoteAddr host req limit. x = \<lparr>x_ws = newWebsocketCodec remoteAddr host req limit, x_timer = Running, x_pc = PSelect,
     x_writing = False, x_resets = 0, x_pong = False, x_readDeadline = False, x_pings = 0\<rparr>)"

text \<open>The send on pingReset in writeJSON, after a successful write; it does not wait.\<close>

definition reset_ping :: "websocketCodec \<Rightarrow> websocketCodec" where
  "reset_ping w = (case chan_send () (ws_pingReset w) of Some c \<Rightarrow> w\<lparr>ws_pingReset := c\<rparr> | None \<Rightarrow> w)"

text \<open>A step of the ping loop, and of the writer that holds the lock the loop may need: it succeeds or fails.\<close>

inductive ping_step :: "wsst \<Rightarrow> wsst \<Rightarrow> bool" where
  loop_closed: "x_pc x = PSelect \<Longrightarrow> x_closed x \<Longrightarrow> ping_step x (x\<lparr>x_timer := Idle, x_pc := PReturned\<rparr>)"
| loop_reset: "x_pc x = PSelect \<Longrightarrow> chbuf (ws_pingReset (x_ws x)) = u # us \<Longrightarrow>
    ping_step x (x\<lparr>x_ws := (x_ws x)\<lparr>ws_pingReset := (ws_pingReset (x_ws x))\<lparr>chbuf := us\<rparr>\<rparr>,
      x_timer := Running, x_pc := (if x_timer x = Idle then PStuck else PSelect)\<rparr>)"
| loop_timer: "x_pc x = PSelect \<Longrightarrow> x_timer x = Expired \<Longrightarrow> ping_step x (x\<lparr>x_timer := Idle, x_pc := PPing\<rparr>)"
| loop_ping: "x_pc x = PPing \<Longrightarrow> \<not> x_writing x \<Longrightarrow>
    ping_step x (x\<lparr>x_timer := Running, x_pc := PSelect, x_readDeadline := True, x_pings := Suc (x_pings x)\<rparr>)"
| loop_pong: "x_pc x = PSelect \<Longrightarrow> x_pong x \<Longrightarrow> ping_step x (x\<lparr>x_pong := False, x_readDeadline := False\<rparr>)"
| write_ok: "x_writing x \<Longrightarrow> ping_step x (x\<lparr>x_writing := False, x_resets := Suc (x_resets x)\<rparr>)"
| write_fails: "x_writing x \<Longrightarrow> ping_step x (x\<lparr>x_writing := False\<rparr>)"
| write_resets: "x_resets x = Suc n \<Longrightarrow> ping_step x (x\<lparr>x_resets := n, x_ws := reset_ping (x_ws x)\<rparr>)"

inductive ws_step :: "wsst \<Rightarrow> wsst \<Rightarrow> bool" where
  ping: "ping_step x x' \<Longrightarrow> ws_step x x'"
| timer_expires: "x_timer x = Running \<Longrightarrow> ws_step x (x\<lparr>x_timer := Expired\<rparr>)"
| write_starts: "\<not> x_writing x \<Longrightarrow> ws_step x (x\<lparr>x_writing := True\<rparr>)"
| pong_arrives: "ws_step x (x\<lparr>x_pong := True\<rparr>)"
| pong_dropped: "x_pong x \<Longrightarrow> x_closed x \<Longrightarrow> ws_step x (x\<lparr>x_pong := False\<rparr>)"
| close: "codec_close (ws_codec (x_ws x)) = Some c \<Longrightarrow> ws_step x (x\<lparr>x_ws := (x_ws x)\<lparr>ws_codec := c\<rparr>\<rparr>)"

section \<open>Texts of origins\<close>

text \<open>An origin as browsers send it, scheme://host or scheme://host:port in lower case, and the parts of a rule.\<close>

definition host_char :: "char \<Rightarrow> bool" where
  "host_char c \<longleftrightarrow> is_lower c \<or> is_digit c \<or> c = CHR ''-'' \<or> c = CHR ''.''"

definition host_text :: "string \<Rightarrow> bool" where
  "host_text h \<longleftrightarrow> h \<noteq> [] \<and> list_all host_char h"

definition scheme_text :: "string \<Rightarrow> bool" where
  "scheme_text s \<longleftrightarrow> s \<noteq> [] \<and> list_all is_lower s"

definition port_text :: "string \<Rightarrow> bool" where
  "port_text p \<longleftrightarrow> list_all is_digit p"

definition host_port :: "string \<Rightarrow> string \<Rightarrow> string" where
  "host_port h p = h @ (if p = [] then [] else CHR '':'' # p)"

definition origin_text :: "string \<Rightarrow> string \<Rightarrow> string \<Rightarrow> string" where
  "origin_text s h p = s @ ''://'' @ host_port h p"

lemma special_chars:
  "c \<in> {CHR ''#'', CHR ''?'', CHR ''/'', CHR '':'', CHR ''@'', CHR ''['', CHR 0x25, CHR ''*''} \<Longrightarrow> \<not> host_char c"
proof -
  have "list_all (\<lambda>c. \<not> host_char c) [CHR ''#'', CHR ''?'', CHR ''/'', CHR '':'', CHR ''@'', CHR ''['', CHR 0x25, CHR ''*'']" by code_simp
  then show "c \<in> {CHR ''#'', CHR ''?'', CHR ''/'', CHR '':'', CHR ''@'', CHR ''['', CHR 0x25, CHR ''*''} \<Longrightarrow> \<not> host_char c"
    by (auto simp only: list.pred_inject insert_iff empty_iff)
qed

lemma is_lower_host: "is_lower c \<Longrightarrow> host_char c" and is_digit_host: "is_digit c \<Longrightarrow> host_char c"
  by (simp_all add: host_char_def)

lemma host_char_range: "host_char c \<Longrightarrow> 0x2D \<le> byte c \<and> byte c \<le> 0x7A \<and> \<not> is_upper c"
proof -
  assume h: "host_char c"
  have m: "byte (CHR ''-'') = 0x2D" "byte (CHR ''.'') = 0x2E" by code_simp+
  show ?thesis using h m by (auto simp: host_char_def is_lower_def is_upper_def is_digit_def in_range_def)
qed

lemma host_char_not_escaped: "host_char c \<Longrightarrow> \<not> shouldEscape c EncHost"
proof -
  assume h: "host_char c"
  have "\<not> shouldEscape (CHR ''-'') EncHost" "\<not> shouldEscape (CHR ''.'') EncHost" by code_simp+
  moreover have "is_alnum c \<Longrightarrow> \<not> shouldEscape c EncHost" by (simp add: shouldEscape_def)
  ultimately show ?thesis using h unfolding host_char_def is_alnum_def by blast
qed

text \<open>Text of host characters, colons and slashes.\<close>

definition plain_text :: "string \<Rightarrow> bool" where
  "plain_text t \<longleftrightarrow> list_all (\<lambda>c. host_char c \<or> c = CHR '':'' \<or> c = CHR ''/'') t"

lemma plain_text_parts:
  "host_text h \<Longrightarrow> plain_text h" "scheme_text s \<Longrightarrow> plain_text s" "port_text p \<Longrightarrow> plain_text p"
  "host_text h \<Longrightarrow> port_text p \<Longrightarrow> plain_text (host_port h p)"
  "scheme_text s \<Longrightarrow> host_text h \<Longrightarrow> port_text p \<Longrightarrow> plain_text (origin_text s h p)"
  by (auto simp: plain_text_def host_text_def scheme_text_def port_text_def host_port_def origin_text_def list_all_iff
      intro: is_lower_host is_digit_host)

lemma plain_text_facts:
  assumes "plain_text t"
  shows "CHR ''#'' \<notin> set t" "CHR ''?'' \<notin> set t" "CHR ''@'' \<notin> set t" "CHR 0x25 \<notin> set t" "CHR ''*'' \<notin> set t"
    and "\<not> list_ex (\<lambda>c. byte c < 0x20 \<or> byte c = 0x7F) t" and "strings_ToLower t = t"
proof -
  have m: "byte (CHR '':'') = 0x3A" "byte (CHR ''/'') = 0x2F" "\<not> is_upper (CHR '':'')" "\<not> is_upper (CHR ''/'')" by code_simp+
  have c: "host_char c \<or> c = CHR '':'' \<or> c = CHR ''/''" if "c \<in> set t" for c using assms that by (auto simp: plain_text_def list_all_iff)
  have n: "\<not> host_char (CHR ''#'')" "\<not> host_char (CHR ''?'')" "\<not> host_char (CHR ''@'')" "\<not> host_char (CHR 0x25)" "\<not> host_char (CHR ''*'')"
    by (rule special_chars, simp)+
  show "CHR ''#'' \<notin> set t" "CHR ''?'' \<notin> set t" "CHR ''@'' \<notin> set t" "CHR 0x25 \<notin> set t" "CHR ''*'' \<notin> set t"
    using c n by auto
  show "\<not> list_ex (\<lambda>c. byte c < 0x20 \<or> byte c = 0x7F) t" using c m host_char_range by (fastforce simp: list_ex_iff)
  have "to_lower x = x" if "x \<in> set t" for x using c [OF that] m(3,4) host_char_range [of x] by (auto simp: to_lower_def)
  then show "strings_ToLower t = t" unfolding strings_ToLower_def by (rule map_idI)
qed

lemma HasPrefix_Cons: "strings_HasPrefix (c # cs) [d] \<longleftrightarrow> c = d" "strings_HasPrefix [] (d # ds) = False"
  by (auto simp: strings_HasPrefix_def)

lemma Cut_contains: "sep \<noteq> [] \<Longrightarrow> strings_Contains (u @ sep @ v) sep"
proof (induction u)
  case Nil
  then obtain c cs where "sep = c # cs" by (cases sep) auto
  then show ?case by (simp add: strings_Contains_def strings_HasPrefix_def)
next
  case (Cons c u)
  then show ?case by (auto simp: strings_Contains_def split: prod.splits bool.splits)
qed

lemma Contains_first: "strings_Contains s (c # sep) \<Longrightarrow> c \<in> set s"
proof (induction s)
  case (Cons x s)
  then show ?case by (auto simp: strings_Contains_def strings_HasPrefix_def split: if_splits prod.splits bool.splits)
qed (simp add: strings_Contains_def)

section \<open>Parsing them\<close>

lemma cut_last_None: "c \<notin> set s \<Longrightarrow> cut_last s c = None"
  by (simp add: cut_last_def)

lemma cut_last_Some: "c \<notin> set b \<Longrightarrow> cut_last (a @ c # b) c = Some (a, b)"
proof -
  assume c: "c \<notin> set b"
  then have "takeWhile (\<lambda>x. x \<noteq> c) (rev b @ c # rev a) = rev b" "dropWhile (\<lambda>x. x \<noteq> c) (rev b @ c # rev a) = c # rev a"
    by (subst takeWhile_append2 dropWhile_append2, auto)+
  then show ?thesis by (simp add: cut_last_def)
qed

lemma unescape_host:
  assumes "\<forall>c \<in> set t. c \<noteq> CHR 0x25 \<and> \<not> shouldEscape c EncHost"
  shows "url_unescape t EncHost = Inr t"
proof -
  have "unescape_check EncHost t = None" "unescape_decode t = t" using assms by (induction t) simp_all
  then show ?thesis by (simp add: url_unescape_def)
qed

lemma unescape_path: "CHR 0x25 \<notin> set t \<Longrightarrow> url_unescape t EncPath = Inr t"
proof -
  assume "CHR 0x25 \<notin> set t"
  then have "\<forall>c \<in> set t. c \<noteq> CHR 0x25" by auto
  then have "unescape_check EncPath t = None" "unescape_decode t = t" by (induction t) simp_all
  then show ?thesis by (simp add: url_unescape_def)
qed

lemma not_colon: "host_text h \<Longrightarrow> CHR '':'' \<notin> set h" "port_text p \<Longrightarrow> CHR '':'' \<notin> set p"
  "host_text h \<Longrightarrow> CHR ''/'' \<notin> set h" "port_text p \<Longrightarrow> CHR ''/'' \<notin> set p"
  using special_chars [of "CHR '':''"] special_chars [of "CHR ''/''"] is_digit_host
  by (auto simp: host_text_def port_text_def list_all_iff)

lemma split_host_port:
  assumes "host_text h" and "port_text p"
  shows "split_port (host_port h p) = (h, p)" and "parseHost (host_port h p) = Inr (host_port h p)" and "unbracket h = h"
proof -
  have hd: "\<not> strings_HasPrefix (h @ t) ''[''" for t
    using assms(1) special_chars [of "CHR ''[''"] by (cases h) (auto simp: host_text_def HasPrefix_Cons)
  from hd [of "[]"] show "unbracket h = h" by (simp add: unbracket_def)
  have col: "\<not> shouldEscape (CHR '':'') EncHost" by code_simp
  have "host_char c" if "c \<in> set h \<union> set p" for c
    using that assms by (auto simp: host_text_def port_text_def list_all_iff intro: is_digit_host)
  then have "\<forall>c \<in> set (host_port h p). c \<noteq> CHR 0x25 \<and> \<not> shouldEscape c EncHost"
    using col special_chars [of "CHR 0x25"] host_char_not_escaped by (auto simp: host_port_def)
  note un = unescape_host [OF this]
  have v: "validOptionalPort (CHR '':'' # p)" using assms(2) by (simp add: validOptionalPort_def port_text_def)
  show "split_port (host_port h p) = (h, p)" "parseHost (host_port h p) = Inr (host_port h p)"
    using un v hd cut_last_None [OF not_colon(1) [OF assms(1)]] cut_last_Some [OF not_colon(2) [OF assms(2)], of h]
    by (auto simp: split_port_def parseHost_def host_port_def)
qed

lemma getScheme_scheme:
  assumes "list_all (\<lambda>c. is_lower c \<or> is_digit c \<or> c = CHR ''-'' \<or> c = CHR ''.'') s" and "acc \<noteq> [] \<or> (s \<noteq> [] \<and> is_lower (hd s))"
  shows "getScheme_from raw acc (s @ CHR '':'' # rest) = Inr (rev acc @ s, rest)"
  using assms
proof (induction s arbitrary: acc)
  case Nil
  have "\<not> is_lower (CHR '':'')" "\<not> is_upper (CHR '':'')" "\<not> is_digit (CHR '':'')" by code_simp+
  then show ?case using Nil by simp
next
  case (Cons c s)
  then show ?case using Cons.IH [of "c # acc"] by auto
qed

lemma getScheme_none:
  assumes "list_all (\<lambda>c. is_lower c \<or> is_upper c \<or> is_digit c \<or> c = CHR ''-'' \<or> c = CHR ''.'') s"
  shows "getScheme_from raw acc s = Inr ([], raw)"
  using assms by (induction s arbitrary: acc) auto

lemma cut_query_plain: "CHR ''?'' \<notin> set rest \<Longrightarrow> cut_query rest u = (rest, u\<lparr>u_RawQuery := []\<rparr>)"
proof -
  assume q: "CHR ''?'' \<notin> set rest"
  then have "\<not> strings_HasSuffix rest ''?''" by (auto simp: HasSuffix_iff)
  then show ?thesis using Cut_not_found [OF q] by (simp add: cut_query_def)
qed

lemma setPath_nil: "setPath [] u = Inr (u\<lparr>u_Path := [], u_RawPath := []\<rparr>)"
  using unescape_path [of "[]"] by (simp add: setPath_def url_escape_def)

lemma url_Parse_plain: "plain_text t \<Longrightarrow> url_parse t = Inr u \<Longrightarrow> url_Parse t = Inr u"
  "plain_text t \<Longrightarrow> url_parse t = Inl err \<Longrightarrow> url_Parse t = Inl (url_error t err)"
  using Cut_not_found [OF plain_text_facts(1)] by (simp_all add: url_Parse_def)

lemma parse_origin:
  assumes "scheme_text s" and "host_text h" and "port_text p"
  shows "parseOriginURL (origin_text s h p) = Inr (s, h, p)"
proof -
  let ?t = "origin_text s h p" and ?r = "''//'' @ host_port h p"
  note pt = plain_text_parts(5) [OF assms] and hp = plain_text_parts(4) [OF assms(2,3)] and sp = split_host_port [OF assms(2,3)]
  have sch: "getScheme ?t = Inr (s, ?r)"
    using getScheme_scheme [of s "[]" ?t ?r] assms(1)
    by (cases s) (auto simp: getScheme_def origin_text_def scheme_text_def list_all_iff)
  have star: "?t \<noteq> ''*''" using plain_text_facts(5) [OF pt] by auto
  have q: "CHR ''?'' \<notin> set ?r" using plain_text_facts(2) [OF hp] by simp
  have "CHR ''/'' \<notin> set (host_port h p)" using not_colon(3,4) assms by (simp add: host_port_def)
  then have tw: "takeWhile (\<lambda>c. c \<noteq> CHR ''/'') (host_port h p) = host_port h p" "dropWhile (\<lambda>c. c \<noteq> CHR ''/'') (host_port h p) = []"
    by (auto simp: takeWhile_eq_all_conv dropWhile_eq_Nil_conv)
  have auth: "parseAuthority (host_port h p) = Inr (None, host_port h p)"
    using cut_last_None [OF plain_text_facts(3) [OF hp]] sp(2) by (simp add: parseAuthority_def)
  have low: "strings_ToLower s = s" using plain_text_facts(7) [OF plain_text_parts(2) [OF assms(1)]] .
  have ne: "s \<noteq> []" using assms(1) by (simp add: scheme_text_def)
  define u where "u = new_URL\<lparr>u_Scheme := s, u_RawQuery := [], u_User := None, u_Host := host_port h p, u_Path := [], u_RawPath := []\<rparr>"
  have "parse_hier ?r (new_URL\<lparr>u_Scheme := s, u_RawQuery := []\<rparr>) = Inr u"
    using ne by (simp add: parse_hier_def strings_HasPrefix_def Let_def tw auth setPath_nil u_def)
  then have "url_parse ?t = Inr u"
    unfolding url_parse_def using sch plain_text_facts(6) [OF pt] star cut_query_plain [OF q] low by (simp add: strings_HasPrefix_def)
  then have "url_Parse ?t = Inr u" by (rule url_Parse_plain(1) [OF pt])
  moreover have "strings_Contains ?t ''://''" unfolding origin_text_def by (rule Cut_contains) simp
  ultimately show ?thesis
    using plain_text_facts(7) [OF pt] sp(1,3) by (simp add: parseOriginURL_def url_Hostname_def url_Port_def u_def)
qed

text \<open>A rule without scheme: a host that starts with a letter and an optional port, or any host without port. A host that starts
  with a digit and a port is no URL for the parser.\<close>

lemma no_scheme: "host_text h \<Longrightarrow> port_text p \<Longrightarrow> \<not> strings_Contains (host_port h p) ''://''"
proof -
  assume a: "host_text h" "port_text p"
  have "\<not> strings_Contains (h @ CHR '':'' # p) ''://''" if "CHR ''/'' \<notin> set (h @ CHR '':'' # p)"
  proof
    assume "strings_Contains (h @ CHR '':'' # p) ''://''"
    moreover have "strings_Contains s ''://'' \<Longrightarrow> CHR ''/'' \<in> set s" for s
    proof (induction s)
      case (Cons x s)
      then show ?case by (cases s) (auto simp: strings_Contains_def strings_HasPrefix_def split: if_splits prod.splits bool.splits)
    qed (simp add: strings_Contains_def)
    ultimately show False using that by blast
  qed
  moreover have "\<not> strings_Contains h ''://''" using Contains_first [of h "CHR '':''"] not_colon(1) [OF a(1)] by blast
  ultimately show ?thesis using not_colon(3,4) a by (auto simp: host_port_def)
qed

lemma parse_host_rule:
  assumes "h \<noteq> []" and "list_all (\<lambda>c. host_char c \<or> is_upper c) h"
  shows "parseOriginURL h = Inr ([], h, [])"
proof -
  let ?l = "strings_ToLower h"
  have low: "host_char (to_lower c)" if "host_char c \<or> is_upper c" for c
  proof (cases "is_upper c")
    case True
    have "is_lower (to_lower c)" using True by (auto simp: to_lower_def is_upper_def is_lower_def in_range_def byte_def of_char_of)
    then show ?thesis by (rule is_lower_host)
  next
    case False
    then show ?thesis using that by (simp add: to_lower_def)
  qed
  then have l: "host_text ?l" using assms by (auto simp: host_text_def strings_ToLower_def list_all_iff)
  then have pt: "plain_text ?l" by (rule plain_text_parts)
  have sch: "getScheme ?l = Inr ([], ?l)"
    unfolding getScheme_def by (rule getScheme_none) (use l in \<open>auto simp: host_text_def host_char_def list_all_iff\<close>)
  have low2: "strings_ToLower [] = []" by (simp add: strings_ToLower_def)
  have star: "?l \<noteq> ''*''" using plain_text_facts(5) [OF pt] by auto
  have pre: "\<not> strings_HasPrefix ?l ''/''" "\<not> strings_HasPrefix ?l ''//''"
    using not_colon(3) [OF l] by (cases ?l; auto simp: strings_HasPrefix_def)+
  have col: "CHR '':'' \<notin> set (takeWhile (\<lambda>c. c \<noteq> CHR ''/'') ?l)" using not_colon(1) [OF l] set_takeWhileD by fastforce
  obtain u where u: "setPath ?l (new_URL\<lparr>u_Scheme := [], u_RawQuery := []\<rparr>) = Inr u" "u_Scheme u = []" "u_Opaque u = []"
    using unescape_path [OF plain_text_facts(4) [OF pt]] by (simp add: setPath_def new_URL_def)
  then have "parse_hier ?l (new_URL\<lparr>u_Scheme := [], u_RawQuery := []\<rparr>) = Inr u" using pre by (simp add: parse_hier_def)
  then have "url_parse ?l = Inr u"
    unfolding url_parse_def using sch plain_text_facts(6) [OF pt] star cut_query_plain [OF plain_text_facts(2) [OF pt]] low2 pre col by simp
  then have "url_Parse ?l = Inr u" by (rule url_Parse_plain(1) [OF pt])
  moreover have "CHR '':'' \<notin> set h"
    using assms(2) special_chars [of "CHR '':''"] by (auto simp: list_all_iff is_upper_def in_range_def byte_def)
  then have "\<not> strings_Contains h ''://''" using Contains_first by blast
  ultimately show ?thesis using u by (simp add: parseOriginURL_def)
qed

lemma parse_host_port_rule:
  assumes "host_text h" and "port_text p" and "p \<noteq> []"
  shows "is_lower (hd h) \<Longrightarrow> parseOriginURL (host_port h p) = Inr ([], h, p)"
    and "is_digit (hd h) \<Longrightarrow> \<exists>err. parseOriginURL (host_port h p) = Inl err"
proof -
  let ?t = "host_port h p"
  note pt = plain_text_parts(4) [OF assms(1,2)]
  have t: "?t = h @ CHR '':'' # p" using assms(3) by (simp add: host_port_def)
  have star: "?t \<noteq> ''*''" using plain_text_facts(5) [OF pt] by auto
  note nc = not_colon(1) [OF assms(1)] not_colon(2) [OF assms(2)] not_colon(3) [OF assms(1)] not_colon(4) [OF assms(2)]
  show "parseOriginURL ?t = Inr ([], h, p)" if "is_lower (hd h)"
  proof -
    have sch: "getScheme ?t = Inr (h, p)"
      unfolding getScheme_def t using getScheme_scheme [of h "[]" "h @ CHR '':'' # p" p] that assms(1)
      by (simp add: host_text_def host_char_def list_all_iff)
    have q: "CHR ''?'' \<notin> set p" using plain_text_facts(2) [OF plain_text_parts(3) [OF assms(2)]] .
    have pre: "\<not> strings_HasPrefix p ''/''" using nc(4) by (cases p) (auto simp: HasPrefix_Cons)
    have low: "strings_ToLower h = h" using plain_text_facts(7) [OF plain_text_parts(1) [OF assms(1)]] .
    have "url_parse ?t = Inr (new_URL\<lparr>u_Scheme := h, u_RawQuery := [], u_Opaque := p\<rparr>)"
      unfolding url_parse_def using sch plain_text_facts(6) [OF pt] star cut_query_plain [OF q] low pre assms(1) by (simp add: host_text_def)
    from url_Parse_plain(1) [OF pt this] show ?thesis
      using no_scheme [OF assms(1,2)] plain_text_facts(7) [OF pt] assms(1) by (simp add: parseOriginURL_def host_text_def)
  qed
  show "\<exists>err. parseOriginURL ?t = Inl err" if d: "is_digit (hd h)"
  proof -
    obtain c cs where h: "h = c # cs" using assms(1) by (cases h) (auto simp: host_text_def)
    have nl: "\<not> is_lower c" "\<not> is_upper c" using d h by (auto simp: is_digit_def is_lower_def is_upper_def in_range_def)
    have sch: "getScheme ?t = Inr ([], ?t)" using d nl h t by (simp add: getScheme_def)
    have pre: "\<not> strings_HasPrefix ?t ''/''" using nc(3) h t by (auto simp: HasPrefix_Cons)
    have "takeWhile (\<lambda>c. c \<noteq> CHR ''/'') ?t = ?t" using nc(3,4) assms t by (auto simp: takeWhile_eq_all_conv)
    then have col: "CHR '':'' \<in> set (takeWhile (\<lambda>c. c \<noteq> CHR ''/'') ?t)" using t by simp
    have low2: "strings_ToLower [] = []" by (simp add: strings_ToLower_def)
    have "url_parse ?t = Inl (PlainErr ''first path segment in URL cannot contain colon'')"
      unfolding url_parse_def using sch plain_text_facts(6) [OF pt] star cut_query_plain [OF plain_text_facts(2) [OF pt]] low2 pre col
      by (simp add: new_URL_def)
    from url_Parse_plain(2) [OF pt this] show ?thesis using plain_text_facts(7) [OF pt] by (simp add: parseOriginURL_def)
  qed
qed

section \<open>The ping loop\<close>

definition ws_inv :: "wsst \<Rightarrow> bool" where
  "ws_inv x \<longleftrightarrow>
     x_pc x \<noteq> PStuck \<and> (x_pc x \<in> {PPing, PReturned} \<longleftrightarrow> x_timer x = Idle) \<and> (x_pc x = PReturned \<longrightarrow> x_closed x) \<and>
     codec_ok (ws_codec (x_ws x)) \<and> chcap (ws_pingReset (x_ws x)) = 1 \<and> length (chbuf (ws_pingReset (x_ws x))) \<le> 1"

lemma reset_ping_simps [simp]:
  "ws_codec (reset_ping w) = ws_codec w" "chcap (ws_pingReset (reset_ping w)) = chcap (ws_pingReset w)"
  "length (chbuf (ws_pingReset w)) \<le> chcap (ws_pingReset w) \<Longrightarrow> length (chbuf (ws_pingReset (reset_ping w))) \<le> chcap (ws_pingReset w)"
  "length (chbuf (ws_pingReset (reset_ping w))) \<le> Suc (length (chbuf (ws_pingReset w)))"
  by (auto simp: reset_ping_def chan_send_def split: option.split)

lemma ping_step_inv: "ping_step x x' \<Longrightarrow> ws_inv x \<Longrightarrow> ws_inv x'"
proof (induction rule: ping_step.induct)
  case (write_resets x n)
  then show ?case using reset_ping_simps(3) [of "x_ws x"] by (simp add: ws_inv_def)
qed (auto simp: ws_inv_def)

lemma ws_step_inv: "ws_step x x' \<Longrightarrow> ws_inv x \<Longrightarrow> ws_inv x'"
proof (induction rule: ws_step.induct)
  case (ping x x')
  then show ?case by (rule ping_step_inv)
qed (auto simp: ws_inv_def codec_close_ok)

interpretation websocket: invariant_system ws_init ws_step ws_inv
proof
  show "ws_init x \<Longrightarrow> ws_inv x" for x
    by (auto simp: ws_init_def ws_inv_def newWebsocketCodec_def make_chan_def)
qed (rule ws_step_inv)

definition ws_ending :: "wsst \<Rightarrow> bool" where
  "ws_ending x \<longleftrightarrow> ws_inv x \<and> x_closed x"

definition ws_returned :: "wsst \<Rightarrow> bool" where
  "ws_returned x \<longleftrightarrow> x_pc x = PReturned"

definition ws_mu :: "wsst \<Rightarrow> nat" where
  "ws_mu x = (if x_writing x then 3 else 0) + 2 * x_resets x + length (chbuf (ws_pingReset (x_ws x))) + (if x_timer x = Expired then 3 else 0) +
     (case x_pc x of PSelect \<Rightarrow> 1 | PPing \<Rightarrow> 2 | _ \<Rightarrow> 0) + (if x_pong x then 1 else 0)"

lemma ws_mu_step: "ping_step x x' \<Longrightarrow> ws_inv x \<Longrightarrow> ws_mu x' < ws_mu x"
proof (induction rule: ping_step.induct)
  case (write_resets x n)
  moreover have "length (chbuf (ws_pingReset (reset_ping (x_ws x)))) < Suc (Suc (length (chbuf (ws_pingReset (x_ws x)))))"
    by (rule le_imp_less_Suc [OF reset_ping_simps(4)])
  ultimately show ?case by (simp add: ws_mu_def)
qed (auto simp: ws_mu_def ws_inv_def)

lemma ping_step_closed: "ping_step x x' \<Longrightarrow> x_closed x' = x_closed x"
  by (induction rule: ping_step.induct) simp_all

interpretation ping_end: progress_system ws_ending ping_step ws_ending ping_step ws_returned ws_mu
proof
  show "\<exists>x'. ping_step x x'" if "ws_ending x" "\<not> ws_returned x" for x
  proof (cases "x_pc x")
    case PSelect
    then show ?thesis using loop_closed that(1) by (auto simp: ws_ending_def)
  next
    case PPing
    then show ?thesis using loop_ping write_fails by blast
  qed (use that in \<open>auto simp: ws_ending_def ws_inv_def ws_returned_def\<close>)
qed (auto simp: ws_ending_def ping_step_inv ping_step_closed ws_mu_step)

section \<open>Properties\<close>

text \<open>C29. The ping loop of a WebSocket connection never blocks itself: in every interleaving of writers, timer, pongs and close it never waits
  for a timer value that cannot come, the channel for postponing a ping holds at most one value, and the loop ends only after
  close. After close it does end: each of its own steps brings the end nearer, so that the wait of close for it returns, also when a
  writer holds the lock.\<close>

theorem ping_loop_ends:
  assumes "reachable ws_init ws_step x"
  shows "x_pc x \<noteq> PStuck \<and> length (chbuf (ws_pingReset (x_ws x))) \<le> 1 \<and> (x_pc x = PReturned \<longrightarrow> chclosed (closeCh (ws_codec (x_ws x)))) \<and>
    (\<exists>c. codec_close (ws_codec (x_ws x)) = Some c \<and>
       (\<exists>x'. ping_step\<^sup>*\<^sup>* (x\<lparr>x_ws := (x_ws x)\<lparr>ws_codec := c\<rparr>\<rparr>) x' \<and> x_pc x' = PReturned))"
proof -
  have inv: "ws_inv x" using websocket.reachable_inv [OF assms] .
  then have c: "codec_close (ws_codec (x_ws x)) = Some (closed_codec (ws_codec (x_ws x)))" by (simp add: ws_inv_def codec_close_ok)
  have "ws_ending (x\<lparr>x_ws := (x_ws x)\<lparr>ws_codec := closed_codec (ws_codec (x_ws x))\<rparr>\<rparr>)"
    using ws_step_inv [OF ws_step.close [OF c] inv] inv by (simp add: ws_ending_def ws_inv_def)
  from ping_end.runs_to_done [OF this] show ?thesis using inv c by (auto simp: ws_inv_def ws_returned_def)
qed

theorem ping_loop_ends_witness:
  "\<exists>x c x'. ws_init x \<and> codec_close (ws_codec (x_ws x)) = Some c \<and>
     ping_step\<^sup>*\<^sup>* (x\<lparr>x_ws := (x_ws x)\<lparr>ws_codec := c\<rparr>\<rparr>) x' \<and> x_pc x' = PReturned"
proof -
  let ?x = "\<lparr>x_ws = newWebsocketCodec ''127.0.0.1:1'' ''localhost'' [] wsDefaultReadLimit, x_timer = Running, x_pc = PSelect,
     x_writing = False, x_resets = 0, x_pong = False, x_readDeadline = False, x_pings = 0\<rparr>"
  have i: "ws_init ?x" by (auto simp: ws_init_def)
  then have "reachable ws_init ws_step ?x" by (rule reach_init)
  from ping_loop_ends [OF this] i show ?thesis by blast
qed


lemma originIsAllowed_iff: "originIsAllowed rules origin \<longleftrightarrow> (\<exists>rule \<in> set rules. ruleAllowsOrigin rule origin)"
  by (induction rules) auto

text \<open>C28. What the rules for origins mean, for origins as browsers send them. A rule scheme://host or scheme://host:port admits exactly the
  origins with the same scheme and host and, if it has one, the same port; a rule with a host only admits that host with every scheme and
  port, one with host and port that host and port. A request is accepted if it has no Origin header, if * is
  allowed, or if one rule admits its origin; without rules only http://localhost and this host are admitted.\<close>

theorem origin_rules_correct:
  assumes "scheme_text s'" and "host_text h'" and "port_text p'"
  shows "(\<forall>s h p. scheme_text s \<longrightarrow> host_text h \<longrightarrow> port_text p \<longrightarrow>
      ruleAllowsOrigin (origin_text s h p) (origin_text s' h' p') = (s = s' \<and> h = h' \<and> (p = [] \<or> p = p'))) \<and>
    (\<forall>h. host_text h \<longrightarrow> ruleAllowsOrigin h (origin_text s' h' p') = (h = h')) \<and>
    (\<forall>h p. host_text h \<longrightarrow> is_lower (hd h) \<longrightarrow> port_text p \<longrightarrow> p \<noteq> [] \<longrightarrow>
      ruleAllowsOrigin (h @ '':'' @ p) (origin_text s' h' p') = (h = h' \<and> p = p')) \<and>
    (\<forall>hostname rules header. map_get header ''Origin'' = Some [origin_text s' h' p'] \<longrightarrow>
      wsHandshakeValidator hostname rules header =
        (''*'' \<in> set rules \<or> (\<exists>rule \<in> set (origin_rules hostname rules). ruleAllowsOrigin rule (origin_text s' h' p')))) \<and>
    (\<forall>hostname rules header. map_get header ''Origin'' = None \<longrightarrow> wsHandshakeValidator hostname rules header)"
proof -
  note b = parse_origin [OF assms]
  have 1: "ruleAllowsOrigin (origin_text s h p) (origin_text s' h' p') = (s = s' \<and> h = h' \<and> (p = [] \<or> p = p'))"
    if "scheme_text s" "host_text h" "port_text p" for s h p
    using parse_origin [OF that] b that by (auto simp: ruleAllowsOrigin_def scheme_text_def host_text_def)
  have 2: "ruleAllowsOrigin h (origin_text s' h' p') = (h = h')" if "host_text h" for h
    using parse_host_rule [of h] that b by (auto simp: ruleAllowsOrigin_def host_text_def list_all_iff)
  have 3: "ruleAllowsOrigin (h @ '':'' @ p) (origin_text s' h' p') = (h = h' \<and> p = p')"
    if "host_text h" "is_lower (hd h)" "port_text p" "p \<noteq> []" for h p
    using parse_host_port_rule(1) [OF that(1,3,4,2)] b that by (auto simp: ruleAllowsOrigin_def host_text_def host_port_def)
  have "CanonicalHeaderKey ''Origin'' = ''Origin''" by code_simp
  then have 4: "wsHandshakeValidator hostname rules header =
      (''*'' \<in> set rules \<or> (\<exists>rule \<in> set (origin_rules hostname rules). ruleAllowsOrigin rule (origin_text s' h' p')))"
    if "map_get header ''Origin'' = Some [origin_text s' h' p']" for hostname rules header
    using that plain_text_facts(7) [OF plain_text_parts(5) [OF assms]]
    by (simp add: wsHandshakeValidator_def header_Get_def originIsAllowed_iff)
  have 5: "wsHandshakeValidator hostname rules header" if "map_get header ''Origin'' = None" for hostname rules header
    using that by (simp add: wsHandshakeValidator_def)
  show ?thesis using 1 2 3 4 5 by (intro conjI allI impI) simp_all
qed

theorem origin_rules_correct_witness:
  "\<not> ruleAllowsOrigin (origin_text ''https'' ''example.com'' '''') (origin_text ''http'' ''example.com'' ''8080'') \<and>
   ruleAllowsOrigin ''example.com'' (origin_text ''http'' ''example.com'' ''8080'')"
proof -
  have t: "scheme_text ''http''" "scheme_text ''https''" "host_text ''example.com''" "port_text ''8080''" "port_text ''''" by code_simp+
  note r = origin_rules_correct [OF t(1,3,4)]
  show ?thesis using conjunct1 [OF r, rule_format, OF t(2,3,5)] conjunct1 [OF conjunct2 [OF r], rule_format, OF t(3)] by simp
qed

text \<open>Two kinds of rules never admit anything. The comparison is meant to ignore case, and rules with a scheme do, but a rule that is only a host
  name keeps its case while the origin is lowered, so that one with an upper-case letter admits no origin. A rule with an IP
  address and a port, without scheme, is not accepted by the URL parser, although the same rule with a host name
  works.\<close>

theorem origin_rules_dead:
  assumes "scheme_text s'" and "host_text h'" and "port_text p'"
  shows "(\<forall>h c. list_all (\<lambda>c. host_char c \<or> is_upper c) h \<longrightarrow> c \<in> set h \<longrightarrow> is_upper c \<longrightarrow> \<not> ruleAllowsOrigin h (origin_text s' h' p')) \<and>
    (\<forall>h p. host_text h \<longrightarrow> is_digit (hd h) \<longrightarrow> port_text p \<longrightarrow> p \<noteq> [] \<longrightarrow> \<not> ruleAllowsOrigin (h @ '':'' @ p) (origin_text s' h' p'))"
proof -
  note b = parse_origin [OF assms]
  have "\<not> ruleAllowsOrigin h (origin_text s' h' p')" if "list_all (\<lambda>c. host_char c \<or> is_upper c) h" "c \<in> set h" "is_upper c" for h c
  proof -
    have "h \<noteq> h'" using that(2,3) assms(2) host_char_range by (auto simp: host_text_def list_all_iff)
    moreover have "h \<noteq> []" using that(2) by auto
    ultimately show ?thesis using parse_host_rule [OF _ that(1)] b by (simp add: ruleAllowsOrigin_def)
  qed
  moreover have "\<not> ruleAllowsOrigin (h @ '':'' @ p) origin" if "host_text h" "is_digit (hd h)" "port_text p" "p \<noteq> []" for h p origin
    using parse_host_port_rule(2) [OF that(1,3,4,2)] that(4) by (auto simp: ruleAllowsOrigin_def host_port_def)
  ultimately show ?thesis by blast
qed

theorem origin_rules_dead_witness:
  "\<not> ruleAllowsOrigin ''Example.com'' (origin_text ''http'' ''example.com'' '''') \<and>
   \<not> ruleAllowsOrigin (''127.0.0.1'' @ '':'' @ ''8080'') (origin_text ''http'' ''example.com'' '''')"
proof -
  have t: "scheme_text ''http''" "host_text ''example.com''" "port_text ''''" "host_text ''127.0.0.1''" "is_digit (hd ''127.0.0.1'')" "port_text ''8080''"
    "list_all (\<lambda>c. host_char c \<or> is_upper c) ''Example.com''" "is_upper (CHR ''E'')" by code_simp+
  have e: "CHR ''E'' \<in> set ''Example.com''" "''8080'' \<noteq> ''''" by simp_all
  note r = origin_rules_dead [OF t(1,2,3)]
  show ?thesis using conjunct1 [OF r, rule_format, OF t(7) e(1) t(8)] conjunct2 [OF r, rule_format, OF t(4,5,6) e(2)] by blast
qed

text \<open>Dialing a WebSocket. The user information of the URL goes into the header Authorization and not into the URL that is dialed, a
  configured header replaces it, an authentication provider has the last word and can stop the dial, the read limit is the configured one if it is not negative and 32 MB
  otherwise, and a failed handshake reports the error of the dialer.\<close>

theorem ws_dial_correct:
  assumes "url_Parse endpoint = Inr u" and "wf_map (cfg_headers cfg)"
  shows "\<exists>header. newClientTransportWS endpoint cfg = Inr (url_String (u\<lparr>u_User := None\<rparr>), header) \<and>
      (\<forall>k. map_get header k =
         (case map_get (cfg_headers cfg) k of
            Some vs \<Rightarrow> Some vs
          | None \<Rightarrow> if k = ''Authorization'' then map_option (\<lambda>ui. [''Basic '' @ base64_Encode (Userinfo_String ui)]) (u_User u) else None)) \<and>
      (\<forall>dial. case (case httpAuth cfg of None \<Rightarrow> (None, header) | Some auth \<Rightarrow> auth header) of
         (Some err, _) \<Rightarrow> ws_connect cfg (url_String (u\<lparr>u_User := None\<rparr>), header) dial = Inl (AuthFailed err)
       | (None, header') \<Rightarrow>
           (case dial (url_String (u\<lparr>u_User := None\<rparr>)) header' of
              Inl (err, status) \<Rightarrow> \<exists>e. ws_connect cfg (url_String (u\<lparr>u_User := None\<rparr>), header) dial = Inl (HandshakeFailed e) \<and> wsHandshakeError_Unwrap e = err
            | Inr remoteAddr \<Rightarrow> \<exists>c. ws_connect cfg (url_String (u\<lparr>u_User := None\<rparr>), header) dial = Inr c \<and>
                0 \<le> ws_readLimit c \<and> (\<forall>n \<ge> 0. wsMessageSizeLimit cfg = Some n \<longrightarrow> ws_readLimit c = n)))"
proof -
  have k: "CanonicalHeaderKey ''authorization'' = ''Authorization''" by code_simp
  define h0 where "h0 = (case u_User u of None \<Rightarrow> [] | Some ui \<Rightarrow> header_Add ''authorization'' (''Basic '' @ base64_Encode (Userinfo_String ui)) [])"
  define header where "header = fold (\<lambda>kv. map_set (fst kv) (snd kv)) (cfg_headers cfg) h0"
  have nu: "u_User u = None \<Longrightarrow> u\<lparr>u_User := None\<rparr> = u" by (cases u) simp
  have t: "newClientTransportWS endpoint cfg = Inr (url_String (u\<lparr>u_User := None\<rparr>), header)"
  proof (cases "u_User u")
    case None
    have "url_String (u\<lparr>u_User := None\<rparr>) = url_String u" using nu [OF None] by (rule arg_cong)
    then show ?thesis using assms(1) None by (simp add: newClientTransportWS_def wsClientHeaders_def header_def h0_def)
  next
    case (Some ui)
    then show ?thesis using assms(1) by (simp add: newClientTransportWS_def wsClientHeaders_def header_def h0_def)
  qed
  have g: "map_get header x = (case map_get (cfg_headers cfg) x of
            Some vs \<Rightarrow> Some vs
          | None \<Rightarrow> if x = ''Authorization'' then map_option (\<lambda>ui. [''Basic '' @ base64_Encode (Userinfo_String ui)]) (u_User u) else None)" for x
    unfolding header_def map_set_all_get [OF assms(2)] h0_def by (auto simp: header_Add_def k Let_def split: option.split)
  have c: "case (case httpAuth cfg of None \<Rightarrow> (None, header) | Some auth \<Rightarrow> auth header) of
         (Some err, _) \<Rightarrow> ws_connect cfg (url_String (u\<lparr>u_User := None\<rparr>), header) dial = Inl (AuthFailed err)
       | (None, header') \<Rightarrow>
           (case dial (url_String (u\<lparr>u_User := None\<rparr>)) header' of
              Inl (err, status) \<Rightarrow> \<exists>e. ws_connect cfg (url_String (u\<lparr>u_User := None\<rparr>), header) dial = Inl (HandshakeFailed e) \<and> wsHandshakeError_Unwrap e = err
            | Inr remoteAddr \<Rightarrow> \<exists>c. ws_connect cfg (url_String (u\<lparr>u_User := None\<rparr>), header) dial = Inr c \<and>
                0 \<le> ws_readLimit c \<and> (\<forall>n \<ge> 0. wsMessageSizeLimit cfg = Some n \<longrightarrow> ws_readLimit c = n))" for dial
    by (auto simp: ws_connect_def newWebsocketCodec_def wsDefaultReadLimit_def wsHandshakeError_Unwrap_def Let_def split: option.split prod.split sum.split)
  show ?thesis using t g c by blast
qed

theorem ws_dial_correct_witness:
  "\<exists>header. newClientTransportWS '''' new_clientConfig = Inr (url_String (new_URL\<lparr>u_User := None\<rparr>), header) \<and> map_get header ''Authorization'' = None"
proof -
  have p: "url_Parse '''' = Inr new_URL" by code_simp
  have c: "wf_map (cfg_headers new_clientConfig)" by (simp add: cfg_headers_def new_clientConfig_def)
  from ws_dial_correct [OF p c] obtain header where
    t: "newClientTransportWS '''' new_clientConfig = Inr (url_String (new_URL\<lparr>u_User := None\<rparr>), header)" and
    g: "\<forall>k. map_get header k = (case map_get (cfg_headers new_clientConfig) k of Some vs \<Rightarrow> Some vs
       | None \<Rightarrow> if k = ''Authorization'' then map_option (\<lambda>ui. [''Basic '' @ base64_Encode (Userinfo_String ui)]) (u_User new_URL) else None)"
    by (elim exE conjE)
  have "map_get header ''Authorization'' = None"
    unfolding g [rule_format] by (simp add: cfg_headers_def new_clientConfig_def new_URL_def)
  with t show ?thesis by blast
qed

lemma base64_length: "length (base64_Encode s) = 4 * ((length s + 2) div 3)"
proof (induction s rule: base64_Encode.induct)
  case (4 a b c rest)
  have "(length (a # b # c # rest) + 2) div 3 = Suc ((length rest + 2) div 3)" by (simp add: div_add_self2 [symmetric] add.commute)
  then show ?case using 4 by (simp add: Let_def)
qed (simp_all add: Let_def)

text \<open>The password of a WebSocket URL is sent in its escaped form: for ws://u:p%40s@h the header holds the credentials u:p%40s, while the
  user information of the URL is the password p@s.\<close>

theorem ws_credentials_escaped:
  "\<exists>u header. url_Parse ''ws://u:p%40s@h'' = Inr u \<and> u_User u = Some (''u'', Some ''p@s'') \<and>
     newClientTransportWS ''ws://u:p%40s@h'' new_clientConfig = Inr (''ws://h'', header) \<and>
     map_get header ''Authorization'' = Some [''Basic '' @ base64_Encode ''u:p%40s''] \<and> base64_Encode ''u:p%40s'' \<noteq> base64_Encode ''u:p@s''"
proof -
  let ?u = "new_URL\<lparr>u_Scheme := ''ws'', u_User := Some (''u'', Some ''p@s''), u_Host := ''h''\<rparr>"
  have p: "url_Parse ''ws://u:p%40s@h'' = Inr ?u" by code_simp
  have k: "CanonicalHeaderKey ''authorization'' = ''Authorization''" by code_simp
  have ui: "Userinfo_String (''u'', Some ''p@s'') = ''u:p%40s''" by code_simp
  have us: "url_String (new_URL\<lparr>u_Scheme := ''ws'', u_Host := ''h'', u_User := None\<rparr>) = ''ws://h''" by code_simp
  have w: "newClientTransportWS ''ws://u:p%40s@h'' new_clientConfig = Inr (''ws://h'', [(''Authorization'', [''Basic '' @ base64_Encode ''u:p%40s''])])"
    using us ui k by (simp add: newClientTransportWS_def wsClientHeaders_def p header_Add_def cfg_headers_def new_clientConfig_def)
  have n: "base64_Encode ''u:p%40s'' \<noteq> base64_Encode ''u:p@s''"
    using base64_length [of "''u:p%40s''"] base64_length [of "''u:p@s''"] by auto
  have g: "map_get [(''Authorization'', [''Basic '' @ base64_Encode ''u:p%40s''])] ''Authorization'' = Some [''Basic '' @ base64_Encode ''u:p%40s'']"
    by (simp only: map_of.simps fun_upd_same fst_conv snd_conv)
  have ug: "u_User ?u = Some (''u'', Some ''p@s'')" by simp
  show ?thesis by (intro exI conjI) (rule p, rule ug, rule w, rule g, rule n)
qed


end
