(* ===== verification/Rpc_Dial.thy ===== *)
theory Rpc_Dial
  imports Rpc_Websocket
begin

text \<open>
  Dialing: DialOptions of client.go and the functions of the other files that create a client for one transport.

  What the network answers is a parameter: the outcome of a WebSocket dial and of connecting to a local socket. In-process and stdio
  connections and HTTP clients connect without asking anyone.
\<close>

section \<open>Transports\<close>

datatype transport_conn =
    HTTPConn httpConn
  | WSConn string http_header
  | IOConn
  | IPCConn string

record dial_env =
  env_ws :: "string \<Rightarrow> http_header \<Rightarrow> goerr \<times> string option + string"
  env_ipc :: "string \<Rightarrow> goerr option"

text \<open>The connect functions: newClientTransportHTTP and newClientTransportIO give one that cannot fail,
  newClientTransportIPC one that connects to the endpoint.\<close>

definition newIPCConnection :: "dial_env \<Rightarrow> string \<Rightarrow> goerr option" where
  "newIPCConnection env endpoint = env_ipc env endpoint"

definition ws_error :: "ws_failure \<Rightarrow> goerr" where
  "ws_error f = (case f of AuthFailed err \<Rightarrow> err | HandshakeFailed e \<Rightarrow> PlainErr (wsHandshakeError_Error e))"

definition connect :: "dial_env \<Rightarrow> clientConfig \<Rightarrow> transport_conn \<Rightarrow> goerr option" where
  "connect env cfg t =
     (case t of
        HTTPConn _ \<Rightarrow> None
      | IOConn \<Rightarrow> None
      | WSConn dialURL header \<Rightarrow> (case ws_connect cfg (dialURL, header) (env_ws env) of Inl f \<Rightarrow> Some (ws_error f) | Inr _ \<Rightarrow> None)
      | IPCConn endpoint \<Rightarrow> newIPCConnection env endpoint)"

fun is_http :: "transport_conn \<Rightarrow> bool" where
  "is_http (HTTPConn _) = True"
| "is_http _ = False"

text \<open>newClient with a connect function, together with the transport it keeps for reconnecting.\<close>

definition dial :: "(nat \<Rightarrow> string) \<Rightarrow> dial_env \<Rightarrow> clientConfig \<Rightarrow> transport_conn \<Rightarrow> goerr + Client \<times> transport_conn" where
  "dial random env cfg t =
     (case newClient random (is_http t) cfg (connect env cfg t) of Inl err \<Rightarrow> Inl err | Inr c \<Rightarrow> Inr (c, t))"

section \<open>Dial functions\<close>

definition DialOptions ::
    "(nat \<Rightarrow> string) \<Rightarrow> dial_env \<Rightarrow> string \<Rightarrow> ClientOption list \<Rightarrow> goerr + Client \<times> transport_conn" where
  "DialOptions random env rawurl options =
     (case url_Parse rawurl of
        Inl err \<Rightarrow> Inl err
      | Inr u \<Rightarrow>
          (let cfg = apply_options options in
           if u_Scheme u = ''http'' \<or> u_Scheme u = ''https'' then dial random env cfg (HTTPConn (newClientTransportHTTP rawurl cfg))
           else if u_Scheme u = ''ws'' \<or> u_Scheme u = ''wss'' then
             (case newClientTransportWS rawurl cfg of
                Inl err \<Rightarrow> Inl err
              | Inr (dialURL, header) \<Rightarrow> dial random env cfg (WSConn dialURL header))
           else if u_Scheme u = ''stdio'' then dial random env cfg IOConn
           else if u_Scheme u = '''' then dial random env cfg (IPCConn rawurl)
           else Inl (PlainErr (''no known transport for URL scheme '' @ fmt_q (u_Scheme u)))))"

definition Dial :: "(nat \<Rightarrow> string) \<Rightarrow> dial_env \<Rightarrow> string \<Rightarrow> goerr + Client \<times> transport_conn" where
  "Dial random env rawurl = DialOptions random env rawurl []"

text \<open>The context of DialContext only reaches the connect function, whose outcome the environment gives.\<close>

definition DialContext :: "(nat \<Rightarrow> string) \<Rightarrow> dial_env \<Rightarrow> string \<Rightarrow> goerr + Client \<times> transport_conn" where
  "DialContext random env rawurl = DialOptions random env rawurl []"

definition DialHTTPWithClient :: "(nat \<Rightarrow> string) \<Rightarrow> dial_env \<Rightarrow> string \<Rightarrow> nat option \<Rightarrow> goerr + Client \<times> transport_conn" where
  "DialHTTPWithClient random env endpoint client =
     (case url_Parse endpoint of
        Inl err \<Rightarrow> Inl err
      | Inr _ \<Rightarrow> (let cfg = new_clientConfig\<lparr>httpClient := client\<rparr> in dial random env cfg (HTTPConn (newClientTransportHTTP endpoint cfg))))"

text \<open>DialHTTP passes a fresh HTTP client.\<close>

definition DialHTTP :: "(nat \<Rightarrow> string) \<Rightarrow> dial_env \<Rightarrow> nat \<Rightarrow> string \<Rightarrow> goerr + Client \<times> transport_conn" where
  "DialHTTP random env client endpoint = DialHTTPWithClient random env endpoint (Some client)"

definition DialWebsocketWithDialer ::
    "(nat \<Rightarrow> string) \<Rightarrow> dial_env \<Rightarrow> string \<Rightarrow> string \<Rightarrow> nat \<Rightarrow> goerr + Client \<times> transport_conn" where
  "DialWebsocketWithDialer random env endpoint origin dialer =
     (let cfg0 = new_clientConfig\<lparr>wsDialer := Some dialer\<rparr>;
          cfg = (if origin \<noteq> '''' then cfg_setHeader ''origin'' origin cfg0 else cfg0)
      in case newClientTransportWS endpoint cfg of
           Inl err \<Rightarrow> Inl err
         | Inr (dialURL, header) \<Rightarrow> dial random env cfg (WSConn dialURL header))"

definition DialWebsocket ::
    "(nat \<Rightarrow> string) \<Rightarrow> dial_env \<Rightarrow> string \<Rightarrow> string \<Rightarrow> goerr + Client \<times> transport_conn" where
  "DialWebsocket random env endpoint origin =
     (let cfg = (if origin \<noteq> '''' then cfg_setHeader ''origin'' origin new_clientConfig else new_clientConfig)
      in case newClientTransportWS endpoint cfg of
           Inl err \<Rightarrow> Inl err
         | Inr (dialURL, header) \<Rightarrow> dial random env cfg (WSConn dialURL header))"

definition DialIPC :: "(nat \<Rightarrow> string) \<Rightarrow> dial_env \<Rightarrow> string \<Rightarrow> goerr + Client \<times> transport_conn" where
  "DialIPC random env endpoint = dial random env new_clientConfig (IPCConn endpoint)"

definition DialIO :: "(nat \<Rightarrow> string) \<Rightarrow> dial_env \<Rightarrow> goerr + Client \<times> transport_conn" where
  "DialIO random env = dial random env new_clientConfig IOConn"

definition DialStdIO :: "(nat \<Rightarrow> string) \<Rightarrow> dial_env \<Rightarrow> goerr + Client \<times> transport_conn" where
  "DialStdIO random env = DialIO random env"

text \<open>DialInProc: one end of the pipe is served by the server, the other one is the connection of the client. Its error is
  dropped by the code; there is none.\<close>

definition DialInProc :: "(nat \<Rightarrow> string) \<Rightarrow> srvst \<Rightarrow> (goerr + Client) \<times> srvst" where
  "DialInProc random handler =
     (newClient random False new_clientConfig None, handler\<lparr>v_conns := v_conns handler @ [new_srvconn None]\<rparr>)"

section \<open>What dialing gives\<close>

lemma ws_dialURL:
  assumes "url_Parse rawurl = Inr u" and "newClientTransportWS rawurl cfg = Inr (dialURL, header)"
  shows "dialURL = url_String (u\<lparr>u_User := None\<rparr>)"
proof (cases "u_User u")
  case None
  moreover have "url_String (u\<lparr>u_User := None\<rparr>) = url_String u" by (rule arg_cong, cases u) (use None in simp)
  ultimately show ?thesis using assms by (simp add: newClientTransportWS_def wsClientHeaders_def)
qed (use assms in \<open>simp add: newClientTransportWS_def wsClientHeaders_def\<close>)

lemma dial_Inr:
  assumes "dial random env cfg t = Inr (c, t')"
  shows "t' = t \<and> c_reconnectFunc c \<and> isHTTP c = is_http t \<and> c_batchItemLimit c = batchItemLimit cfg \<and> c_batchResponseMaxSize c = batchResponseLimit cfg"
  using assms by (auto simp: dial_def newClient_def initClient_def split: option.splits)

lemma dial_ok: "is_http t \<or> t = IOConn \<Longrightarrow> \<exists>r. dial random env cfg t = Inr r"
  by (cases t) (auto simp: dial_def newClient_def connect_def)

text \<open>A WebSocket URL that was dialed.\<close>

lemma dialed_ws:
  assumes "url_Parse rawurl = Inr u" and "u_Scheme u \<in> {''ws'', ''wss''}" and "DialOptions random env rawurl options = Inr (c, t)"
  shows "\<exists>header. t = WSConn (url_String (u\<lparr>u_User := None\<rparr>)) header \<and> c_reconnectFunc c \<and> \<not> isHTTP c \<and>
    c_batchItemLimit c = batchItemLimit (apply_options options) \<and> c_batchResponseMaxSize c = batchResponseLimit (apply_options options)"
proof -
  let ?cfg = "apply_options options"
  have "DialOptions random env rawurl options =
      (case newClientTransportWS rawurl ?cfg of Inl err \<Rightarrow> Inl err | Inr (dialURL, header) \<Rightarrow> dial random env ?cfg (WSConn dialURL header))"
    using assms(1,2) by (auto simp: DialOptions_def Let_def)
  then obtain dialURL header where r: "newClientTransportWS rawurl ?cfg = Inr (dialURL, header)" "dial random env ?cfg (WSConn dialURL header) = Inr (c, t)"
    using assms(3) by (auto split: sum.splits)
  then show ?thesis using dial_Inr [OF r(2)] ws_dialURL [OF assms(1) r(1)] by (intro exI [of _ header]) simp
qed

section \<open>Properties\<close>

text \<open>The scheme of the URL decides the transport: http and https give an HTTP client for the URL, ws and wss a WebSocket to the URL without
  its user information, stdio the standard streams, no scheme a local socket with the text as its path; every other
  scheme is an error. A client that was dialed can reconnect, has the limits of the options and is an HTTP client only for
  the first two; the attempt fails only if the text is no URL or the network refuses.\<close>

theorem DialOptions_transport:
  assumes "url_Parse rawurl = Inr u"
  shows "(\<forall>c t. DialOptions random env rawurl options = Inr (c, t) \<longrightarrow>
       c_reconnectFunc c \<and> isHTTP c = (u_Scheme u \<in> {''http'', ''https''}) \<and>
       c_batchItemLimit c = batchItemLimit (apply_options options) \<and> c_batchResponseMaxSize c = batchResponseLimit (apply_options options) \<and>
       (case t of
          HTTPConn hc \<Rightarrow> u_Scheme u \<in> {''http'', ''https''} \<and> hc_url hc = rawurl
        | WSConn dialURL header \<Rightarrow> u_Scheme u \<in> {''ws'', ''wss''} \<and> dialURL = url_String (u\<lparr>u_User := None\<rparr>)
        | IOConn \<Rightarrow> u_Scheme u = ''stdio''
        | IPCConn endpoint \<Rightarrow> u_Scheme u = '''' \<and> endpoint = rawurl)) \<and>
    (u_Scheme u \<notin> {''http'', ''https'', ''ws'', ''wss'', ''stdio'', ''''} \<longrightarrow>
       DialOptions random env rawurl options = Inl (PlainErr (''no known transport for URL scheme '' @ fmt_q (u_Scheme u)))) \<and>
    (u_Scheme u \<in> {''http'', ''https'', ''stdio''} \<longrightarrow> (\<exists>r. DialOptions random env rawurl options = Inr r))"
proof -
  let ?cfg = "apply_options options"
  let ?all = "{''http'', ''https'', ''ws'', ''wss'', ''stdio'', ''''}"
  consider (http) "u_Scheme u \<in> {''http'', ''https''}" | (ws) "u_Scheme u \<in> {''ws'', ''wss''}" | (stdio) "u_Scheme u = ''stdio''"
    | (ipc) "u_Scheme u = ''''" | (other) "u_Scheme u \<notin> ?all" by blast
  then show ?thesis
  proof cases
    case http
    obtain c t where r: "dial random env ?cfg (HTTPConn (newClientTransportHTTP rawurl ?cfg)) = Inr (c, t)"
      using dial_ok [of "HTTPConn (newClientTransportHTTP rawurl ?cfg)" random env ?cfg] by auto
    then have o: "DialOptions random env rawurl options = Inr (c, t)"
      using assms http by (auto simp: DialOptions_def Let_def)
    have "hc_url (newClientTransportHTTP rawurl ?cfg) = rawurl" by (simp add: newClientTransportHTTP_def Let_def)
    moreover have "u_Scheme u \<in> ?all" using http by blast
    ultimately show ?thesis unfolding o using http dial_Inr [OF r] by (simp del: insert_iff)
  next
    case ws
    have n: "u_Scheme u \<in> ?all" "u_Scheme u \<notin> {''http'', ''https''}" "u_Scheme u \<notin> {''http'', ''https'', ''stdio''}" using ws by auto
    show ?thesis using n ws dialed_ws [OF assms ws, of random env options] by (fastforce simp del: insert_iff)
  next
    case stdio
    obtain c t where r: "dial random env ?cfg IOConn = Inr (c, t)" using dial_ok [of IOConn random env ?cfg] by auto
    then have "DialOptions random env rawurl options = Inr (c, t)" using assms stdio by (simp add: DialOptions_def Let_def)
    then show ?thesis using stdio dial_Inr [OF r] by simp
  next
    case ipc
    then have o: "DialOptions random env rawurl options = dial random env ?cfg (IPCConn rawurl)" using assms by (simp add: DialOptions_def Let_def)
    have "t = IPCConn rawurl \<and> c_reconnectFunc c \<and> \<not> isHTTP c \<and>
        c_batchItemLimit c = batchItemLimit ?cfg \<and> c_batchResponseMaxSize c = batchResponseLimit ?cfg"
      if "DialOptions random env rawurl options = Inr (c, t)" for c t
      using dial_Inr [OF that [unfolded o]] by simp
    then show ?thesis using ipc by fastforce
  next
    case other
    then show ?thesis using assms by (simp add: DialOptions_def Let_def)
  qed
qed

theorem DialOptions_transport_witness:
  "\<exists>c. DialOptions (\<lambda>_. ''0x1'') \<lparr>env_ws = (\<lambda>_ _. Inl (IoEOF, None)), env_ipc = (\<lambda>_. None)\<rparr> ''a'' [] = Inr (c, IPCConn ''a'') \<and> \<not> isHTTP c \<and> c_reconnectFunc c"
proof -
  let ?e = "\<lparr>env_ws = (\<lambda>_ _. Inl (IoEOF, None)), env_ipc = (\<lambda>_. None)\<rparr> :: dial_env"
  have p: "url_Parse ''a'' = Inr (new_URL\<lparr>u_Path := ''a''\<rparr>)" by code_simp
  obtain c t where r: "DialOptions (\<lambda>_. ''0x1'') ?e ''a'' [] = Inr (c, t)"
    by (simp add: DialOptions_def p new_URL_def dial_def newClient_def connect_def newIPCConnection_def Let_def)
  have t: "t = IPCConn ''a''"
    using r by (simp add: DialOptions_def p new_URL_def dial_def newClient_def connect_def newIPCConnection_def Let_def)
  note f = DialOptions_transport [OF p, THEN conjunct1, rule_format, OF r]
  show ?thesis using r f unfolding t by (simp add: new_URL_def)
qed

end
