(* ===== verification/Rpc_ReadLoop.thy ===== *)
theory Rpc_ReadLoop
  imports Rpc_Server
begin

text \<open>
  The read goroutine of client.go and how dispatch ends it: read, drainRead, the arms of the select in dispatch
  that receive from readOp, readErr, reconnected and close, and Close.

  Rpc_Client has the effect of these arms on the pending requests. Here it is about the handover: which
  messages reach the handler, and whether the wait in drainRead comes to an end; the wait for the calls that comes before it
  is in Rpc_Calls. The parameter \<open>interrupts\<close> tells whether
  closing the connection makes a pending read return with an error. For a net.Conn it does; stdioConn.Close does nothing.
\<close>

section \<open>The goroutines\<close>

text \<open>The read goroutine is in readBatch, offers a message or an error on the channels, or has returned.\<close>

type_synonym read_result = "goerr + jsonrpcMessage list \<times> bool"

datatype read_pc = RReading | RSending read_result | RExited

text \<open>The dispatch goroutine is in its select, in drainRead with what comes after it, or has closed didClose.\<close>

datatype drain_end = ToQuit | ToReconnect "string option"

datatype loop_pc = LSelect | LDrain drain_end | LReturned

text \<open>The fields for the connection that is read: its codec, what the decoder will still give, where the reader is, what readBatch
  returned so far, what the reader wrote, and what the handler got; then where dispatch is, and its
  variable reading.\<close>

record readst =
  r_codec :: jsonCodec
  r_input :: "(goerr + json) list"
  r_pc :: read_pc
  r_seen :: "read_result list"
  r_written :: "wire list"
  r_handled :: "(jsonrpcMessage list \<times> bool) list"
  r_disp :: loop_pc
  r_reading :: bool

text \<open>The statement go c.read(codec) for a new codec.\<close>

definition start_read :: "string option \<Rightarrow> readst" where
  "start_read remoteAddr =
     \<lparr>r_codec = NewFuncCodec remoteAddr, r_input = [], r_pc = RReading, r_seen = [], r_written = [], r_handled = [],
      r_disp = LSelect, r_reading = True\<rparr>"

text \<open>A syntax error is answered before it is reported.\<close>

definition read_reply :: "read_result \<Rightarrow> wire list" where
  "read_reply r =
     (case r of Inl (SyntaxErr m) \<Rightarrow> [WMsg (errorMessage (ParseError (ErrorString (SyntaxErr m))))] | _ \<Rightarrow> [])"

definition read_done :: "read_result \<Rightarrow> readst \<Rightarrow> readst" where
  "read_done r s = s\<lparr>r_pc := RSending r, r_seen := r_seen s @ [r], r_written := r_written s @ read_reply r\<rparr>"

text \<open>The end of drainRead.\<close>

definition after_drain :: "drain_end \<Rightarrow> readst \<Rightarrow> readst" where
  "after_drain k s = (case k of ToQuit \<Rightarrow> s\<lparr>r_pc := RExited, r_disp := LReturned\<rparr> | ToReconnect remoteAddr \<Rightarrow> start_read remoteAddr)"

abbreviation r_closed :: "readst \<Rightarrow> bool" where
  "r_closed s \<equiv> chclosed (closeCh (r_codec s))"

inductive read_step :: "bool \<Rightarrow> readst \<Rightarrow> readst \<Rightarrow> bool" for interrupts where
  read_returns: "r_pc s = RReading \<Longrightarrow> r_input s = x # xs \<Longrightarrow>
    read_step interrupts s (read_done (readBatch x) (s\<lparr>r_input := xs\<rparr>))"
| read_interrupted: "r_pc s = RReading \<Longrightarrow> r_closed s \<Longrightarrow> interrupts \<Longrightarrow>
    read_step interrupts s (read_done (Inl (NetErr timeout m)) s)"
| recv_op: "r_disp s = LSelect \<Longrightarrow> r_pc s = RSending (Inr p) \<Longrightarrow>
    read_step interrupts s (s\<lparr>r_pc := RReading, r_handled := r_handled s @ [p]\<rparr>)"
| recv_err: "r_disp s = LSelect \<Longrightarrow> r_pc s = RSending (Inl err) \<Longrightarrow> codec_close (r_codec s) = Some c \<Longrightarrow>
    read_step interrupts s (s\<lparr>r_pc := RExited, r_codec := c, r_reading := False\<rparr>)"
| drain_op: "r_disp s = LDrain k \<Longrightarrow> r_pc s = RSending (Inr p) \<Longrightarrow> read_step interrupts s (s\<lparr>r_pc := RReading\<rparr>)"
| drain_err: "r_disp s = LDrain k \<Longrightarrow> r_pc s = RSending (Inl err) \<Longrightarrow> read_step interrupts s (after_drain k s)"

text \<open>Reconnecting and closing: while there is a read goroutine its codec is closed and it is waited for.\<close>

definition end_read :: "drain_end \<Rightarrow> readst \<Rightarrow> readst option" where
  "end_read k s =
     (if r_reading s then do { c \<leftarrow> codec_close (r_codec s); Some (s\<lparr>r_codec := c, r_disp := LDrain k\<rparr>) }
      else Some (after_drain k s))"

inductive loop_step :: "bool \<Rightarrow> readst \<Rightarrow> readst \<Rightarrow> bool" for interrupts where
  own: "read_step interrupts s s' \<Longrightarrow> loop_step interrupts s s'"
| peer_sends: "\<not> (r_closed s \<and> interrupts) \<Longrightarrow> loop_step interrupts s (s\<lparr>r_input := r_input s @ [x]\<rparr>)"
| reconnected: "r_disp s = LSelect \<Longrightarrow> end_read (ToReconnect remoteAddr) s = Some s' \<Longrightarrow> loop_step interrupts s s'"
| close: "r_disp s = LSelect \<Longrightarrow> end_read ToQuit s = Some s' \<Longrightarrow> loop_step interrupts s s'"

definition loop_init :: "readst \<Rightarrow> bool" where
  "loop_init s \<longleftrightarrow> (\<exists>remoteAddr. s = start_read remoteAddr)"

section \<open>The invariant\<close>

definition sending :: "read_pc \<Rightarrow> read_result list" where
  "sending pc = (case pc of RSending r \<Rightarrow> [r] | _ \<Rightarrow> [])"

text \<open>What was handled is what was read, up to the result that is on its way and, once the reader has
  returned, the error it returned with. During a drain messages are dropped.\<close>

definition in_order :: "readst \<Rightarrow> bool" where
  "in_order s \<longleftrightarrow>
     (\<exists>rest. r_seen s = map Inr (r_handled s) @ rest \<and>
        (r_disp s = LSelect \<longrightarrow> (if r_pc s = RExited then \<exists>err. rest = [Inl err] else rest = sending (r_pc s))))"

definition op_shape :: "jsonrpcMessage list \<times> bool \<Rightarrow> bool" where
  "op_shape p \<longleftrightarrow> snd p \<or> fst p \<noteq> []"

definition loop_inv :: "readst \<Rightarrow> bool" where
  "loop_inv s \<longleftrightarrow>
     codec_ok (r_codec s) \<and> in_order s \<and>
     (r_disp s = LSelect \<longrightarrow> (r_reading s \<longleftrightarrow> r_pc s \<noteq> RExited)) \<and>
     (r_disp s \<noteq> LSelect \<longrightarrow> r_closed s \<and> (r_disp s = LReturned \<longleftrightarrow> r_pc s = RExited)) \<and>
     (r_pc s = RExited \<longrightarrow> r_closed s) \<and>
     (r_pc s = RReading \<longrightarrow> (\<forall>r \<in> set (r_seen s). \<not> isl r)) \<and>
     (\<forall>r \<in> set (butlast (r_seen s)). \<not> isl r) \<and>
     (\<forall>r. r_pc s = RSending r \<longrightarrow> r_seen s \<noteq> [] \<and> last (r_seen s) = r) \<and>
     r_written s = concat (map read_reply (r_seen s)) \<and>
     (\<forall>p. Inr p \<in> set (r_seen s) \<longrightarrow> op_shape p)"

definition draining :: "readst \<Rightarrow> bool" where
  "draining s \<longleftrightarrow> (\<exists>k. r_disp s = LDrain k)"

lemma start_read_inv [simp]: "loop_inv (start_read remoteAddr)"
  by (simp add: loop_inv_def start_read_def in_order_def sending_def)

lemma readBatch_op_shape: "readBatch x = Inr p \<Longrightarrow> op_shape p"
  using readBatch_single by (cases p) (fastforce simp: op_shape_def)

lemma loop_invD:
  assumes "loop_inv s"
  shows "codec_ok (r_codec s)" "in_order s" "r_disp s = LSelect \<Longrightarrow> r_reading s \<longleftrightarrow> r_pc s \<noteq> RExited"
    "r_disp s \<noteq> LSelect \<Longrightarrow> r_closed s" "r_disp s \<noteq> LSelect \<Longrightarrow> r_disp s = LReturned \<longleftrightarrow> r_pc s = RExited"
    "r_pc s = RExited \<Longrightarrow> r_closed s" "r_pc s = RReading \<Longrightarrow> r \<in> set (r_seen s) \<Longrightarrow> \<not> isl r"
    "r \<in> set (butlast (r_seen s)) \<Longrightarrow> \<not> isl r" "r_pc s = RSending r \<Longrightarrow> r_seen s \<noteq> [] \<and> last (r_seen s) = r"
    "r_written s = concat (map read_reply (r_seen s))" "Inr p \<in> set (r_seen s) \<Longrightarrow> op_shape p"
  using assms unfolding loop_inv_def by blast+

lemma read_done_inv:
  assumes "loop_inv s" and "r_pc s = RReading" and "\<And>p. r = Inr p \<Longrightarrow> op_shape p"
  shows "loop_inv (read_done r s)"
proof -
  note i = loop_invD [OF assms(1)]
  obtain rest where rest: "r_seen s = map Inr (r_handled s) @ rest" "r_disp s = LSelect \<Longrightarrow> rest = []"
    using i(2) assms(2) by (auto simp: in_order_def sending_def)
  then have "in_order (read_done r s)"
    unfolding in_order_def by (intro exI [of _ "rest @ [r]"]) (auto simp: read_done_def sending_def)
  then show ?thesis
    using i(1,3-5,10,11) i(7) [OF assms(2)] assms(2,3) unfolding loop_inv_def by (auto simp: read_done_def)
qed

lemma loop_inv_input [simp]: "loop_inv (s\<lparr>r_input := xs\<rparr>) = loop_inv s"
  by (simp add: loop_inv_def in_order_def)

lemma after_drain_inv:
  assumes "loop_inv s" and "r_closed s"
  shows "loop_inv (after_drain k s)"
proof (cases k)
  case ToQuit
  obtain rest where "r_seen s = map Inr (r_handled s) @ rest" using loop_invD(2) [OF assms(1)] by (auto simp: in_order_def)
  then show ?thesis using loop_invD(1,8,10,11) [OF assms(1)] assms(2) ToQuit by (auto simp: loop_inv_def after_drain_def in_order_def)
qed (simp add: after_drain_def)

text \<open>The receipt of a result in the select of dispatch.\<close>

lemma in_order_sending:
  assumes "loop_inv s" and "r_disp s = LSelect" and "r_pc s = RSending r"
  shows "r_seen s = map Inr (r_handled s) @ [r]"
  using loop_invD(2) [OF assms(1)] assms(2,3) by (auto simp: in_order_def sending_def)

lemma read_step_inv:
  assumes "read_step interrupts s s'" and "loop_inv s"
  shows "loop_inv s'"
  using assms(1)
proof cases
  case (read_returns x xs)
  then show ?thesis using read_done_inv [of "s\<lparr>r_input := xs\<rparr>" "readBatch x"] assms(2) readBatch_op_shape by simp
next
  case (read_interrupted timeout m)
  show ?thesis unfolding read_interrupted(1) by (rule read_done_inv [OF assms(2) read_interrupted(2)]) simp
next
  case (recv_op p)
  note i = loop_invD [OF assms(2)]
  have seen: "r_seen s = map Inr (r_handled s) @ [Inr p]" by (rule in_order_sending [OF assms(2) recv_op(2,3)])
  then have "\<forall>r \<in> set (r_seen s). \<not> isl r" using i(8) by auto
  then show ?thesis using i(1,3,10,11) recv_op seen by (auto simp: loop_inv_def in_order_def sending_def)
next
  case (recv_err err c)
  note i = loop_invD [OF assms(2)]
  have c: "codec_ok c" "is_closed c" using codec_close_ok [OF i(1)] recv_err(4) i(1) by auto
  show ?thesis using i(8,10,11) recv_err c in_order_sending [OF assms(2) recv_err(2,3)] by (auto simp: loop_inv_def in_order_def)
next
  case (drain_op k p)
  note i = loop_invD [OF assms(2)]
  have "\<forall>r \<in> set (r_seen s). \<not> isl r"
    using i(8) i(9) [OF drain_op(3)] append_butlast_last_id [of "r_seen s"] by (metis Un_iff empty_iff empty_set insert_iff isl_def list.simps(15) set_append sum.disc(2))
  moreover then have "\<forall>r \<in> set (butlast (r_seen s)). \<not> isl r" by (meson in_set_butlastD)
  moreover have "in_order s'" using i(2) drain_op by (auto simp: in_order_def)
  ultimately show ?thesis using i(1,4,10,11) drain_op by (simp add: loop_inv_def)
next
  case (drain_err k err)
  then show ?thesis using after_drain_inv [OF assms(2)] loop_invD(4) [OF assms(2)] by simp
qed

lemma end_read_inv:
  assumes "loop_inv s" and "r_disp s = LSelect" and "end_read k s = Some s'"
  shows "loop_inv s'"
proof (cases "r_reading s")
  case True
  note i = loop_invD [OF assms(1)]
  have pc: "r_pc s \<noteq> RExited" using i(3) [OF assms(2)] True by simp
  have "s' = s\<lparr>r_codec := closed_codec (r_codec s), r_disp := LDrain k\<rparr>"
    using assms(3) True codec_close_ok [OF i(1)] by (simp add: end_read_def)
  moreover have "in_order (s\<lparr>r_codec := closed_codec (r_codec s), r_disp := LDrain k\<rparr>)" using i(2) by (auto simp: in_order_def)
  ultimately show ?thesis using i(1,8-11) i(7) pc unfolding loop_inv_def by auto
next
  case False
  then have "r_closed s" using loop_invD(3,6) [OF assms(1)] assms(2) by blast
  then show ?thesis using after_drain_inv [OF assms(1), of k] assms(3) False by (simp add: end_read_def)
qed

lemma loop_step_inv: "loop_inv s \<Longrightarrow> loop_step interrupts s s' \<Longrightarrow> loop_inv s'"
  by (erule loop_step.cases) (auto intro: read_step_inv end_read_inv)

text \<open>A measure that every step of the two goroutines lowers.\<close>

definition loop_mu :: "readst \<Rightarrow> nat" where
  "loop_mu s =
     3 * length (r_input s) +
     (case r_pc s of RReading \<Rightarrow> 2 | RSending r \<Rightarrow> (case r of Inr _ \<Rightarrow> 3 | Inl _ \<Rightarrow> 1) | RExited \<Rightarrow> 0) +
     (if draining s then 2 else 0)"

lemma read_step_mu: "read_step interrupts s s' \<Longrightarrow> loop_mu s' < loop_mu s"
  by (induction rule: read_step.induct)
     (auto simp: loop_mu_def read_done_def draining_def after_drain_def start_read_def split: sum.split drain_end.split)

lemma read_step_ex:
  assumes "loop_inv s" and "draining s"
  shows "\<exists>s'. read_step True s s'"
proof -
  obtain k where k: "r_disp s = LDrain k" using assms(2) by (auto simp: draining_def)
  then have "r_pc s \<noteq> RExited" "r_closed s" using loop_invD(4,5) [OF assms(1)] by auto
  then consider "r_pc s = RReading" | p where "r_pc s = RSending (Inr p)" | err where "r_pc s = RSending (Inl err)"
    by (cases "r_pc s") (metis sum.exhaust)+
  then show ?thesis
  proof cases
    case 1
    have "read_step True s (read_done (Inl (NetErr False '''')) s)" by (rule read_interrupted [OF 1 \<open>r_closed s\<close>]) simp
    then show ?thesis by (rule exI)
  next
    case (2 p)
    show ?thesis by (rule exI, rule drain_op [OF k 2])
  next
    case (3 err)
    show ?thesis by (rule exI, rule drain_err [OF k 3])
  qed
qed

interpretation read_loop: progress_system loop_init "loop_step True" loop_inv "read_step True" "\<lambda>s. \<not> draining s" loop_mu
proof
  show "\<And>s. loop_init s \<Longrightarrow> loop_inv s" by (auto simp: loop_init_def)
  show "\<And>s s'. loop_inv s \<Longrightarrow> loop_step True s s' \<Longrightarrow> loop_inv s'" by (rule loop_step_inv)
  show "\<And>s s'. read_step True s s' \<Longrightarrow> loop_step True s s'" by (rule own)
  show "\<And>s. loop_inv s \<Longrightarrow> \<not> \<not> draining s \<Longrightarrow> \<exists>s'. read_step True s s'" using read_step_ex by simp
  show "\<And>s s'. loop_inv s \<Longrightarrow> read_step True s s' \<Longrightarrow> loop_mu s' < loop_mu s" by (rule read_step_mu)
qed

interpretation any_read_loop: invariant_system loop_init "loop_step interrupts" loop_inv for interrupts
  by unfold_locales (auto simp: loop_init_def intro: loop_step_inv)

section \<open>Properties\<close>


text \<open>A connection on which one message arrives.\<close>

definition demo_read :: readst where
  "demo_read = (start_read None)\<lparr>r_input := [Inr (message_tree no_types enc_call)]\<rparr>"

lemma demo_read_reachable: "reachable loop_init (loop_step interrupts) demo_read"
proof -
  have s: "reachable loop_init (loop_step interrupts) (start_read None)" by (rule reach_init) (auto simp: loop_init_def)
  have "\<not> r_closed (start_read None)" by (simp add: start_read_def NewFuncCodec_def make_chan_def)
  then have "loop_step interrupts (start_read None) ((start_read None)\<lparr>r_input := r_input (start_read None) @ [Inr (message_tree no_types enc_call)]\<rparr>)"
    by (intro peer_sends) simp
  then show ?thesis using reach_step [OF s] by (simp add: demo_read_def start_read_def)
qed


text \<open>C18. The wait for the read goroutine ends, on a connection whose Close interrupts reads: whenever dispatch drains, the two goroutines by
  themselves lead to the end of the drain, each of their steps brings it nearer, and nothing else can
  delay them. So Close returns, and a reconnect goes on with a new read goroutine for the new codec, once the calls of the connection have
  returned.\<close>

theorem drainRead_returns:
  assumes "reachable loop_init (loop_step True) s" and "r_disp s = LDrain k"
  shows "(\<exists>s'. (read_step True)\<^sup>*\<^sup>* s s' \<and>
      (case k of ToQuit \<Rightarrow> r_disp s' = LReturned \<and> r_pc s' = RExited | ToReconnect remoteAddr \<Rightarrow> s' = start_read remoteAddr)) \<and>
    (\<forall>s'. read_step True s s' \<longrightarrow> loop_mu s' < loop_mu s) \<and> (\<forall>s'. loop_step True s s' \<longrightarrow> read_step True s s')"
proof -
  note inv = read_loop.reachable_inv [OF assms(1)]
  let ?fin = "\<lambda>s'. case k of ToQuit \<Rightarrow> r_disp s' = LReturned \<and> r_pc s' = RExited | ToReconnect remoteAddr \<Rightarrow> s' = start_read remoteAddr"
  have "\<exists>s'. (read_step True)\<^sup>*\<^sup>* s s' \<and> ?fin s'"
    using inv assms(2)
  proof (induction "loop_mu s" arbitrary: s rule: less_induct)
    case less
    then obtain s1 where s1: "read_step True s s1" using read_step_ex by (auto simp: draining_def)
    have i1: "loop_inv s1" "loop_mu s1 < loop_mu s" using read_step_inv [OF s1] read_step_mu [OF s1] less.prems(1) by auto
    have "r_disp s1 = LDrain k \<or> ?fin s1"
      using s1 less.prems(2) by cases (auto simp: read_done_def after_drain_def split: drain_end.split)
    then show ?case
    proof
      assume "r_disp s1 = LDrain k"
      from less.hyps [OF i1(2,1) this] s1 show ?thesis by (meson converse_rtranclp_into_rtranclp)
    qed (use s1 in blast)
  qed
  moreover have "read_step True s s'" if "loop_step True s s'" for s'
    using that by cases (use assms(2) loop_invD(4) [OF inv] in auto)
  ultimately show ?thesis using read_step_mu by blast
qed

lemma close_demo:
  "end_read ToQuit (start_read None) = Some ((start_read None)\<lparr>r_codec := closed_codec (NewFuncCodec None), r_disp := LDrain ToQuit\<rparr>)"
  by (simp add: end_read_def start_read_def codec_close_ok)

lemma close_demo_reachable:
  "reachable loop_init (loop_step interrupts) ((start_read None)\<lparr>r_codec := closed_codec (NewFuncCodec None), r_disp := LDrain ToQuit\<rparr>)"
proof -
  have s: "reachable loop_init (loop_step interrupts) (start_read None)" by (rule reach_init) (auto simp: loop_init_def)
  show ?thesis by (rule reach_step [OF s]) (rule close [OF _ close_demo], simp add: start_read_def)
qed

theorem drainRead_returns_witness:
  "\<exists>s s'. r_disp s = LDrain ToQuit \<and> (read_step True)\<^sup>*\<^sup>* s s' \<and> r_disp s' = LReturned"
proof -
  let ?s = "(start_read None)\<lparr>r_codec := closed_codec (NewFuncCodec None), r_disp := LDrain ToQuit\<rparr>"
  have d: "r_disp ?s = LDrain ToQuit" by simp
  from drainRead_returns [OF close_demo_reachable d, THEN conjunct1] obtain s' where "(read_step True)\<^sup>*\<^sup>* ?s s'" "r_disp s' = LReturned" by auto
  with d show ?thesis by blast
qed

lemma no_step:
  assumes "r_pc s = RReading" and "r_input s = []"
  shows "\<not> read_step False s s2"
proof
  assume "read_step False s s2"
  then show False by cases (use assms in simp_all)
qed


end
