(* ===== verification/Rpc_Stream.thy ===== *)
theory Rpc_Stream
  imports Rpc_Client
begin

text \<open>
  A connection as the text that flows over it: what the codec of json.go writes, and what the read loop and dispatch
  of client.go make of it on the other side. With it, a subscription from one end to the other: from the call of Subscribe
  over the notifications of the server to the values in the channel of the user, and its end by requestUnsubscribe.
\<close>

section \<open>Streams of messages\<close>

text \<open>NewCodec: the encoder writes each value and a newline.\<close>

fun stream_of :: "usertypes \<Rightarrow> write_entry list \<Rightarrow> string + string" where
  "stream_of ut [] = Inr []"
| "stream_of ut (e # es) =
     (case encode_wire ut (w_value e) of
        Inl err \<Rightarrow> Inl err
      | Inr t \<Rightarrow> (case stream_of ut es of Inl err \<Rightarrow> Inl err | Inr ts \<Rightarrow> Inr (t @ CHR 0x0A # ts)))"

lemma json_parse_shorter: "json_parse t = Some (j, rest) \<Longrightarrow> length rest < length t"
  unfolding json_parse_def using parse_value_shorter length_skip_ws [of t] by (meson le_less_trans less_le_trans)

text \<open>read and the arm of dispatch for readOp, over a stream until it holds no complete value: the calls and batches it starts, and
  the tables it leaves.\<close>

function read_stream :: "handlercfg \<Rightarrow> string \<Rightarrow> reqst \<Rightarrow> (call_proc list \<times> reqst) option" where
  "read_stream cfg t s =
     (case json_parse t of
        None \<Rightarrow> Some ([], s)
      | Some (j, rest) \<Rightarrow>
          (case readBatch (Inr j) of
             Inl _ \<Rightarrow> None
           | Inr (msgs, batch) \<Rightarrow>
               (case dispatch_read cfg msgs batch s of
                  None \<Rightarrow> None
                | Some (procs, s1) \<Rightarrow>
                    (case read_stream cfg rest s1 of None \<Rightarrow> None | Some (ps, s2) \<Rightarrow> Some (procs @ ps, s2)))))"
  by pat_completeness auto
termination
  by (relation "measure (\<lambda>(cfg, t, s). length t)") (auto dest: json_parse_shorter)

declare read_stream.simps [simp del]

lemma json_parse_newline: "json_parse (CHR 0x0A # t) = json_parse t"
proof -
  have s: "skip_ws (CHR 0x0A # t) = skip_ws t" by (simp add: skip_ws_def is_space_def)
  have "parse_value n (skip_ws t) = parse_value (Suc (2 * length (skip_ws t))) (skip_ws t)" if "2 * length t < n" for n
    by (rule parse_value_enough) (use length_skip_ws [of t] that in linarith)
  from this [of "Suc (2 * length (CHR 0x0A # t))"] this [of "Suc (2 * length t)"] show ?thesis
    by (simp add: json_parse_def s del: parse_value.simps)
qed

lemma read_stream_newline [simp]: "read_stream cfg (CHR 0x0A # t) s = read_stream cfg t s"
  by (subst (1 2) read_stream.simps) (simp add: json_parse_newline)

lemma read_stream_Nil [simp]: "read_stream cfg [] s = Some ([], s)"
  by (subst read_stream.simps) (simp add: json_parse_def skip_ws_def)

text \<open>One message of a stream.\<close>

lemma read_stream_message:
  assumes "json_text j" and "readBatch (Inr j) = Inr ([m], False)" and "handleMsg m s = Some ([], s1)"
  shows "read_stream cfg (raw_of j @ CHR 0x0A # t) s = read_stream cfg t s1"
proof -
  have "json_parse (raw_of j @ CHR 0x0A # t) = Some (j, CHR 0x0A # t)"
    by (rule json_parse_text [OF assms(1)]) (simp add: is_digit_def in_range_def byte_def)
  then show ?thesis
    using assms(2,3) by (subst read_stream.simps) (simp add: dispatch_read_def split: option.split)
qed

section \<open>Strings the encoder keeps\<close>

lemma compact_plain:
  assumes "byte c < 0x80" and "byte c \<notin> {0x22, 0x26, 0x3C, 0x3E, 0x5C}"
  shows "compact True (c # t) = c # compact True t"
proof -
  have "c \<noteq> CHR 0x5C" "c \<noteq> CHR 0x22" "c \<noteq> CHR 0xE2" using assms by (auto simp: byte_def)
  then show ?thesis using assms(2) by (simp add: strings_HasPrefix_def)
qed

lemma compact_hex:
  assumes "d < 16"
  shows "compact True (hex_digit d # t) = hex_digit d # compact True t"
proof -
  have "byte (hex_digit d) = (if d < 10 then 48 + d else 87 + d)" using assms by (simp add: hex_digit_def byte_def)
  then show ?thesis using assms by (intro compact_plain) (auto split: if_splits)
qed

lemma compact_escape:
  assumes "byte c < 0x80"
  shows "compact True (escape_ascii c @ t) = escape_ascii c @ compact True t"
proof -
  have e: "compact True (CHR 0x5C # x # u) = CHR 0x5C # x # compact True u" for x u by simp
  have u: "compact True (escape_u n @ t) = escape_u n @ compact True t" for n
    by (simp add: escape_u_def compact_hex e del: compact.simps)
  have "byte c \<notin> {0x22, 0x26, 0x3C, 0x3E, 0x5C}" if "c \<notin> {CHR 0x22, CHR ''&'', CHR ''<'', CHR ''>'', CHR 0x5C}"
  proof -
    have "byte (CHR 0x22) = 0x22" "byte (CHR ''&'') = 0x26" "byte (CHR ''<'') = 0x3C" "byte (CHR ''>'') = 0x3E" "byte (CHR 0x5C) = 0x5C"
      by code_simp+
    then show ?thesis using that byte_inject by (metis insert_iff empty_iff)
  qed
  then show ?thesis
    using assms u e compact_plain [OF assms] by (auto simp: escape_ascii_def simp del: compact.simps)
qed

lemma compacted_quote: "ascii s \<Longrightarrow> compacted (str_json s)"
proof -
  assume a: "ascii s"
  have "compact True (quote_body s @ [CHR 0x22]) = quote_body s @ [CHR 0x22]"
    using a by (induction s) (simp_all add: ascii_def compact_escape byte_def strings_HasPrefix_def)
  then have "encode_raw (str_json s) = raw_of (str_json s)"
    by (simp add: encode_raw_def quote_string_def is_space_def)
  then show ?thesis using json_text_quote [OF a] by (simp add: compacted_def)
qed

section \<open>Notifications\<close>

text \<open>The params of a notification and the message as the client reads it.\<close>

definition notif_params :: "string \<Rightarrow> json \<Rightarrow> json" where
  "notif_params subid j = object_tree [(''subscription'', str_json subid), (''result'', j)]"

definition notif_tree :: "string \<Rightarrow> string \<Rightarrow> json \<Rightarrow> json" where
  "notif_tree ns subid j =
     object_tree [(''jsonrpc'', str_json vsn), (''method'', str_json (ns @ notificationMethodSuffix)), (''params'', notif_params subid j)]"

definition notif_message :: "string \<Rightarrow> string \<Rightarrow> json \<Rightarrow> jsonrpcMessage" where
  "notif_message ns subid j =
     new_jsonrpcMessage\<lparr>Version := vsn, Method := ns @ notificationMethodSuffix, Params := Some (notif_params subid j)\<rparr>"

lemma notif_ascii [simp]:
  "ascii vsn" "ascii notificationMethodSuffix" "ascii ''subscription''" "ascii (a @ b) \<longleftrightarrow> ascii a \<and> ascii b"
proof -
  show "ascii vsn" "ascii notificationMethodSuffix" "ascii ''subscription''" by code_simp+
qed (auto simp: ascii_def)

lemma notif_texts:
  assumes "ascii ns" and "ascii subid" and "compacted j"
  shows "json_text (notif_params subid j)" and "json_text (notif_tree ns subid j)"
proof -
  show p: "json_text (notif_params subid j)"
    unfolding notif_params_def using assms json_text_quote by (intro json_text_object) (simp add: compacted_def)
  show "json_text (notif_tree ns subid j)"
    unfolding notif_tree_def using assms p json_text_quote by (intro json_text_object) simp
qed

lemma encode_notif_entry:
  assumes "json_Marshal ut d = Inr j" and "compacted j"
  shows "encode_wire ut (w_value (notif_entry ns subid d)) = Inr (raw_of (notif_tree ns subid j))"
  using assms by (simp add: encode_wire_def notif_entry_def encode_notification_def notif_tree_def notif_params_def raw_object_tree compacted_def)

lemma readBatch_notif:
  assumes "ascii ns"
  shows "readBatch (Inr (notif_tree ns subid j)) = Inr ([notif_message ns subid j], False)"
proof -
  have "decode_message (notif_tree ns subid j) = Some (notif_message ns subid j)"
    using assms
    by (simp add: notif_tree_def object_tree_def decode_message_def decode_member_key decode_string_def notif_message_def new_jsonrpcMessage_def)
  then show ?thesis using isBatch_object by (simp add: readBatch_def parseMessage_def notif_tree_def)
qed

lemma decode_notif_params:
  assumes "ascii subid"
  shows "decode_subscriptionResult (Some (notif_params subid j)) = Some (subid, Some j)"
proof -
  have "fold_name ''subscription'' = ''SUBSCRIPTION''" by code_simp
  then have f: "field_matches (quote_string ''subscription'') ''subscription''" "\<not> field_matches (quote_string ''result'') ''subscription''"
    "field_matches (quote_string ''result'') ''result''"
    by (simp_all add: decode_key del: fold_name.simps)
  show ?thesis
    using assms by (simp add: decode_subscriptionResult_def notif_params_def object_tree_def decode_result_member_def f decode_string_def)
qed

text \<open>A notification for a subscription of the client is delivered to it.\<close>

lemma handleMsg_notif:
  assumes "ascii subid" and "map_get (clientSubs s) subid = Some sub"
  shows "handleMsg (notif_message ns subid j) s = Some ([], s\<lparr>sub_events := sub_events s @ [SubDeliver sub (Some j)]\<rparr>)"
proof -
  let ?m = "notif_message ns subid j"
  have "Params ?m = Some (notif_params subid j)" by (simp add: notif_message_def)
  then have r: "handleSubscriptionResult ?m s = s\<lparr>sub_events := sub_events s @ [SubDeliver sub (Some j)]\<rparr>"
    using assms decode_notif_params [OF assms(1)] by (simp add: handleSubscriptionResult_def)
  have "notificationMethodSuffix \<noteq> []" by code_simp
  then have "isNotification ?m" "\<not> isResponse ?m" "strings_HasSuffix (Method ?m) notificationMethodSuffix"
    by (simp_all add: notif_message_def new_jsonrpcMessage_def isNotification_def isResponse_def hasValidVersion_def hasValidID_def raw_string_def)
  then show ?thesis using r by (simp add: handleMsg_def handleResponses_def)
qed

text \<open>The notifications of a server, read by the client.\<close>

definition encoded_as :: "usertypes \<Rightarrow> goval \<Rightarrow> json \<Rightarrow> bool" where
  "encoded_as ut d j \<longleftrightarrow> json_Marshal ut d = Inr j \<and> compacted j"

lemma read_notifications:
  assumes "list_all2 (encoded_as ut) ds js" and "ascii ns" and "ascii subid" and "map_get (clientSubs s) subid = Some sub"
  shows "\<exists>t. stream_of ut (map (notif_entry ns subid) ds) = Inr t \<and>
    read_stream cfg t s = Some ([], s\<lparr>sub_events := sub_events s @ map (\<lambda>j. SubDeliver sub (Some j)) js\<rparr>)"
  using assms(1,4)
proof (induction arbitrary: s rule: list_all2_induct)
  case (Cons d ds j js)
  let ?s = "s\<lparr>sub_events := sub_events s @ [SubDeliver sub (Some j)]\<rparr>"
  have c: "json_Marshal ut d = Inr j" "compacted j" using Cons.hyps(1) by (simp_all add: encoded_as_def)
  obtain t where t: "stream_of ut (map (notif_entry ns subid) ds) = Inr t"
    "read_stream cfg t ?s = Some ([], ?s\<lparr>sub_events := sub_events ?s @ map (\<lambda>j. SubDeliver sub (Some j)) js\<rparr>)"
    using Cons.IH [of ?s] Cons.prems by auto
  note e = encode_notif_entry [OF c, of ns subid]
  have "read_stream cfg (raw_of (notif_tree ns subid j) @ CHR 0x0A # t) s = read_stream cfg t ?s"
    by (rule read_stream_message [OF notif_texts(2) [OF assms(2,3) c(2)] readBatch_notif [OF assms(2)] handleMsg_notif [OF assms(3) Cons.prems]])
  then show ?case using e t by simp
qed simp

section \<open>The response to Subscribe\<close>

text \<open>The client starts the subscription when the response with its id arrives, before anything that follows it.\<close>

lemma subscribe_resolved:
  assumes "rinv s" and "rq < length (ops s)" and "ops s ! rq = new_requestOp [raw_string (ID resp)] (Some sub)"
    and "isResponse resp" and "Error resp = None" and "Result resp = Some (str_json subid)" and "ascii subid"
  shows "\<exists>s1. handleMsg resp (addRequestOp rq s) = Some ([], s1) \<and> op_wait None (ops s1 ! rq) = Ret (Inr [resp]) \<and>
    clientSubs s1 = map_set subid sub (clientSubs s) \<and> sub_events s1 = sub_events s @ [SubRun sub]"
proof -
  let ?s = "addRequestOp rq s" and ?id = "raw_string (ID resp)"
  have f: "map_get (respWait ?s) ?id = Some rq" "ops ?s = ops s" "clientSubs ?s = clientSubs s" "sub_events ?s = sub_events s" "subids ?s = subids s"
    using rinvD(1) [OF assms(1)] assms(3) by (simp_all add: addRequestOp_def new_requestOp_def map_set_all_def map_get_set)
  let ?o = "(ops s ! rq)\<lparr>op_err := None, op_hadResponse := True, op_resp := (op_resp (ops s ! rq))\<lparr>chbuf := [[resp]]\<rparr>\<rparr>"
  let ?s1 = "?s\<lparr>respWait := map_delete ?id (respWait ?s), subids := (subids s)(sub := subid), sub_events := sub_events s @ [SubRun sub],
      clientSubs := map_set subid sub (clientSubs s), ops := (ops s)[rq := ?o]\<rparr>"
  have "handleResp [resp] resp ([], ?s) = Some ([rq], ?s1)"
    using f assms(2,3,5-7)
    by (simp add: handleResp_def resolve_sub_def unmarshal_subid_def upd_op_def new_requestOp_def make_chan_def chan_send_def Let_def)
  then have "handleMsg resp ?s = Some ([], removeRequestOp rq ?s1)"
    using assms(4) by (simp add: handleMsg_def handleResponses_def)
  moreover have "op_wait None ?o = Ret (Inr [resp])" by (simp add: op_wait_def Let_def)
  ultimately show ?thesis using assms(2) by (simp add: removeRequestOp_def)
qed

text \<open>The goroutine of the subscription passes the values on to the channel of the user.\<close>

lemma csub_receives:
  assumes "list_all2 (\<lambda>j v. unmarshal j = Inr v) js vs" and "cs_run c = RForward" and "cs_disp c = DIdle" and "cs_buffer c = []"
  shows "\<exists>c1. (csub_step unmarshal)\<^sup>*\<^sup>* c c1 \<and> cs_accepted c1 = cs_accepted c @ js \<and> cs_sent c1 = cs_sent c @ vs \<and>
    cs_run c1 = RForward \<and> cs_disp c1 = DIdle \<and> cs_buffer c1 = []"
  using assms
proof (induction arbitrary: c rule: list_all2_induct)
  case (Cons j js v vs)
  let ?a = "c\<lparr>cs_disp := DDeliver j\<rparr>"
  let ?b = "(forward_in unmarshal j ?a)\<lparr>cs_disp := DIdle, cs_accepted := cs_accepted ?a @ [j]\<rparr>"
  let ?d = "?b\<lparr>cs_buffer := [], cs_sent := cs_sent ?b @ [v]\<rparr>"
  have f: "forward_in unmarshal j ?a = ?a\<lparr>cs_buffer := [v]\<rparr>"
    using Cons.hyps(1) Cons.prems(3) by (simp add: forward_in_def maxClientSubscriptionBuffer_def)
  have "csub_step unmarshal c ?a" by (rule deliver_call [OF Cons.prems(2)])
  moreover have "csub_step unmarshal ?a ?b" by (rule deliver_in) (simp_all add: Cons.prems(1))
  moreover have "csub_step unmarshal ?b ?d" by (rule send_channel) (simp_all add: f Cons.prems(1))
  ultimately have steps: "(csub_step unmarshal)\<^sup>*\<^sup>* c ?d" by (rule converse_rtranclp_into_rtranclp [OF _ converse_rtranclp_into_rtranclp [OF _ r_into_rtranclp]])
  have d: "cs_run ?d = RForward" "cs_disp ?d = DIdle" "cs_buffer ?d = []" "cs_accepted ?d = cs_accepted c @ [j]" "cs_sent ?d = cs_sent c @ [v]"
    using Cons.prems by (simp_all add: f)
  from Cons.IH [OF d(1-3)] obtain c1 where "(csub_step unmarshal)\<^sup>*\<^sup>* ?d c1" "cs_accepted c1 = cs_accepted ?d @ js" "cs_sent c1 = cs_sent ?d @ vs"
    "cs_run c1 = RForward" "cs_disp c1 = DIdle" "cs_buffer c1 = []" by blast
  then show ?case using rtranclp_trans [OF steps] d(4,5) by (intro exI [of _ c1]) simp
qed auto

section \<open>A subscription from one end to the other\<close>

lemma subscription_response:
  assumes "msg_ok ut msg" and "hasValidID msg" and "ascii subid"
  shows "msg_ok ut (response ut msg (GoSub subid))" "isResponse (response ut msg (GoSub subid))"
    "Error (response ut msg (GoSub subid)) = None" "Result (response ut msg (GoSub subid)) = Some (str_json subid)"
proof -
  have m: "json_Marshal ut (GoSub subid) = Inr (str_json subid)" by (simp add: json_Marshal_def)
  then show e: "Error (response ut msg (GoSub subid)) = None" "Result (response ut msg (GoSub subid)) = Some (str_json subid)"
    by (simp_all add: response_def new_jsonrpcMessage_def)
  show "isResponse (response ut msg (GoSub subid))" by (rule isResponse_response [OF assms(2)])
  have "ascii ''''" by (simp add: ascii_def)
  then show "msg_ok ut (response ut msg (GoSub subid))"
    using assms(1) compacted_quote [OF assms(3)] e by (auto simp: msg_ok_def)
qed

text \<open>What the server writes for a subscription, read by the client.\<close>

lemma read_subscription:
  assumes "msg_ok ut msg" and "hasValidID msg" and "ascii ns" and "ascii subid" and "list_all2 (encoded_as ut) ds js"
    and "rinv s" and "rq < length (ops s)" and "ops s ! rq = new_requestOp [raw_string (ID msg)] (Some sub)"
  shows "\<exists>t s1. stream_of ut (\<lparr>w_value = WMsg (response ut msg (GoSub subid)), w_isError = False, w_err = None\<rparr> # map (notif_entry ns subid) ds) = Inr t \<and>
    read_stream cfg t (addRequestOp rq s) = Some ([], s1) \<and> op_wait None (ops s1 ! rq) = Ret (Inr [response ut msg (GoSub subid)]) \<and>
    map_get (clientSubs s1) subid = Some sub \<and> sub_events s1 = sub_events s @ SubRun sub # map (\<lambda>j. SubDeliver sub (Some j)) js"
proof -
  let ?r = "response ut msg (GoSub subid)"
  note r = subscription_response [OF assms(1,2,4)]
  obtain u where u: "encode_message ut ?r = Inr u" using r(3) by (auto simp: encode_message_def Let_def)
  have d: "delim []" by (simp add: delim_def)
  note tree = encode_message_tree [OF r(1) u] encoded_message_read(2) [OF r(1) u d]
  have o: "ops s ! rq = new_requestOp [raw_string (ID ?r)] (Some sub)" using assms(8) by simp
  obtain s1 where s1: "handleMsg ?r (addRequestOp rq s) = Some ([], s1)" "op_wait None (ops s1 ! rq) = Ret (Inr [?r])"
    "clientSubs s1 = map_set subid sub (clientSubs s)" "sub_events s1 = sub_events s @ [SubRun sub]"
    using subscribe_resolved [OF assms(6,7) o r(2-4) assms(4)] by blast
  have "map_get (clientSubs s1) subid = Some sub" using s1(3) by (simp add: map_get_set)
  from read_notifications [OF assms(5,3,4) this] obtain t where t: "stream_of ut (map (notif_entry ns subid) ds) = Inr t"
    "read_stream cfg t s1 = Some ([], s1\<lparr>sub_events := sub_events s1 @ map (\<lambda>j. SubDeliver sub (Some j)) js\<rparr>)" by blast
  have "readBatch (Inr (message_tree ut ?r)) = Inr ([?r], False)" using tree(3) r(3) by simp
  then have "read_stream cfg (u @ CHR 0x0A # t) (addRequestOp rq s) = read_stream cfg t s1"
    using read_stream_message [OF tree(2) _ s1(1)] tree(1) by simp
  then show ?thesis using t u s1(2-4) \<open>map_get (clientSubs s1) subid = Some sub\<close> by (simp add: encode_wire_def)
qed

text \<open>C2. A subscription from one end to the other: the server reads the call of Subscribe as it was sent, registers the subscription under a
  new id and writes its response and then the notifications of its method; reading these texts, the client resolves Subscribe, which returns the subscription,
  registers it under the same id, and starts and feeds its goroutine with exactly these notifications in their order, and the channel of the user
  receives their values.\<close>

theorem subscription_end_to_end:
  assumes "newMessage ut (ns @ subscribeMethodSuffix) args c = (Inr msg, c')" and "msg_ok ut msg" and "encode_message ut msg = Inr req" and "\<not> isHTTP c"
    and "rinv s" and "rq < length (ops s)" and "ops s ! rq = new_requestOp [raw_string (ID msg)] (Some sub)"
    and "middlewares (hreg cfg) = []" and "huser cfg = ut" and "hinv h" and "writes_ok h" and "allowSubscribe h" and "rinv sr" and "CHR ''_'' \<notin> set ns"
    and "parseSubscriptionName (Params msg) = Inr name" and "registry_subscription (hreg cfg) ns name = Some cb"
    and "parsePositionalArguments ut (Params msg) (stringType # argTypes cb) = Inr vals" and "subscription_method cb (tl vals) ds"
    and "ascii (idgen h (idnext h))" and "list_all2 (encoded_as ut) ds js" and "list_all2 (\<lambda>j v. unmarshal j = Inr v) js vs"
  shows "\<exists>j sr' h' t s1 sub1.
    json_parse (req @ [CHR 0x0A]) = Some (j, [CHR 0x0A]) \<and> readBatch (Inr j) = Inr ([msg], False) \<and> handleMsg msg sr = Some ([ProcCall msg], sr') \<and>
    handleNonBatchCall cfg TimerOff msg h = Some h' \<and> map_get (serverSubs h') (idgen h (idnext h)) = Some (length (srvSubs h)) \<and>
    stream_of ut (drop (length (wlog h)) (wlog h')) = Inr t \<and> read_stream ccfg t (addRequestOp rq s) = Some ([], s1) \<and>
    Subscribe ut (\<lambda>x w. Ret (None, ops s1 ! rq)) None sub ns SendChan args c = (Ret (Inr sub), c') \<and>
    map_get (clientSubs s1) (idgen h (idnext h)) = Some sub \<and> sub_events s1 = sub_events s @ SubRun sub # map (\<lambda>j. SubDeliver sub (Some j)) js \<and>
    (csub_step unmarshal)\<^sup>*\<^sup>* newClientSubscription sub1 \<and> cs_accepted sub1 = js \<and> cs_sent sub1 = vs"
proof -
  have d: "delim [CHR 0x0A]" by code_simp
  have m: "Error msg = None" "hasValidID msg" "Method msg = ns @ subscribeMethodSuffix" "hasValidVersion msg"
    using assms(1) newMessage_spec [of ut "ns @ subscribeMethodSuffix" args c] by auto
  have "ascii ns" using assms(2) m(3) by (simp add: msg_ok_def)
  have call: "isCall msg" "isSubscribe msg" "namespace_of msg = ns"
    using m assms(14) by (simp_all add: isCall_def isSubscribe_def namespace_of_def subscribeMethodSuffix_def serviceMethodSeparator_def Cut_append)
  have "is_call_msg msg" using call(1)
    by (auto simp: isCall_def is_call_msg_def isResponse_def isNotification_def hasValidID_def raw_string_def split: option.splits)
  then obtain sr' where sr: "handleMsg msg sr = Some ([ProcCall msg], sr')" using handleMsg_call [OF assms(13)] by blast
  have req: "json_parse (req @ [CHR 0x0A]) = Some (message_tree ut msg, [CHR 0x0A])" "readBatch (Inr (message_tree ut msg)) = Inr ([msg], False)"
    using encoded_message_read [OF assms(2,3) d] m(1) by simp_all
  obtain h' where h': "handleNonBatchCall cfg TimerOff msg h = Some h'" "map_get (serverSubs h') (idgen h (idnext h)) = Some (length (srvSubs h))"
    "wlog h' = wlog h @ \<lparr>w_value = WMsg (response ut msg (GoSub (idgen h (idnext h)))), w_isError = False, w_err = None\<rparr> #
      map (notif_entry ns (idgen h (idnext h))) ds"
    using subscribe_call_ok [OF assms(8,10-12) call(1,2) assms(15), of cb vals ds] assms(9,16-18) call(3) by auto
  have out: "drop (length (wlog h)) (wlog h') = \<lparr>w_value = WMsg (response ut msg (GoSub (idgen h (idnext h)))), w_isError = False, w_err = None\<rparr> #
      map (notif_entry ns (idgen h (idnext h))) ds" using h'(3) by simp
  obtain t s1 where s1: "stream_of ut (drop (length (wlog h)) (wlog h')) = Inr t" "read_stream ccfg t (addRequestOp rq s) = Some ([], s1)"
    "op_wait None (ops s1 ! rq) = Ret (Inr [response ut msg (GoSub (idgen h (idnext h)))])" "map_get (clientSubs s1) (idgen h (idnext h)) = Some sub"
    "sub_events s1 = sub_events s @ SubRun sub # map (\<lambda>j. SubDeliver sub (Some j)) js"
    using read_subscription [OF assms(2) m(2) \<open>ascii ns\<close> assms(19,20,5-7), of ccfg] unfolding out by blast
  have "Subscribe ut (\<lambda>x w. Ret (None, ops s1 ! rq)) None sub ns SendChan args c = (Ret (Inr sub), c')"
    using assms(1,4) s1(3) by (simp add: Subscribe_def)
  moreover obtain sub1 where "(csub_step unmarshal)\<^sup>*\<^sup>* newClientSubscription sub1" "cs_accepted sub1 = js" "cs_sent sub1 = vs"
    using csub_receives [OF assms(21), of newClientSubscription] by (auto simp: newClientSubscription_def)
  ultimately show ?thesis using req sr h'(1,2) s1(1,2,4,5) by blast
qed

theorem subscription_end_to_end_witness:
  "\<exists>msg c' h' t s1. newMessage (huser demo_cfg) (''calc'' @ subscribeMethodSuffix) (Some [GoStr ''ticks'']) demo_client = (Inr msg, c') \<and>
    handleNonBatchCall demo_cfg TimerOff msg demo_state = Some h' \<and> stream_of (huser demo_cfg) (drop 0 (wlog h')) = Inr t \<and>
    read_stream demo_cfg t (addRequestOp 0 (new_reqst [new_requestOp [raw_string (ID msg)] (Some 7)])) = Some ([], s1) \<and>
    sub_events s1 = [SubRun 7, SubDeliver 7 (Some (JBool True))]"
proof -
  let ?ut = "huser demo_cfg" and ?p = "JArr ''[\"ticks\"]'' [str_json ''ticks'']"
  define msg where "msg = new_jsonrpcMessage\<lparr>Version := vsn, ID := Some (JNum ''1''), Method := ''calc'' @ subscribeMethodSuffix, Params := Some ?p\<rparr>"
  have a: "ascii ''ticks''" "ascii (''calc'' @ subscribeMethodSuffix)" "dec_digits 1 = ''1''" "quote_string ''ticks'' = ''\"ticks\"''" by code_simp+
  then obtain c' where m: "newMessage ?ut (''calc'' @ subscribeMethodSuffix) (Some [GoStr ''ticks'']) demo_client = (Inr msg, c')"
    by (simp add: newMessage_def nextID_def Let_def demo_client_def initClient_def msg_def marshal_params_def json_Marshal_def)
  have "compacted (JNum ''1'')" "compacted ?p" by code_simp+
  then have ok: "msg_ok ?ut msg" using a by (auto simp: msg_ok_def msg_def new_jsonrpcMessage_def)
  obtain req where req: "encode_message ?ut msg = Inr req" by (simp add: encode_message_def msg_def new_jsonrpcMessage_def Let_def)
  let ?s = "new_reqst [new_requestOp [raw_string (ID msg)] (Some 7)]"
  have s: "0 < length (ops ?s)" "ops ?s ! 0 = new_requestOp [raw_string (ID msg)] (Some 7)" by (simp_all add: new_reqst_def)
  have c: "\<not> isHTTP demo_client" "middlewares (hreg demo_cfg) = []" "CHR ''_'' \<notin> set ''calc''"
    by (simp_all add: demo_client_def initClient_def demo_cfg_def)
  have n: "parseSubscriptionName (Params msg) = Inr ''ticks''" using a(1) by (simp add: msg_def parseSubscriptionName_def)
  have r: "registry_subscription (hreg demo_cfg) ''calc'' ''ticks'' = Some ticks_callback" by (simp add: demo_cfg_def registry_subscription_def)
  have p: "parsePositionalArguments ?ut (Params msg) (stringType # argTypes ticks_callback) = Inr [GoStr ''ticks'']"
    using a(1) by (simp add: parsePositionalArguments_def msg_def ticks_callback_def stringType_def json_Unmarshal_def argval_IsNil_def)
  have b: "subscription_method ticks_callback (tl [GoStr ''ticks'']) [GoBool True]"
    by (simp add: subscription_method_def ticks_callback_def call_fullargs_def)
  have i: "ascii (idgen demo_state (idnext demo_state))" by code_simp
  have "compacted (JBool True)" by code_simp
  then have e: "list_all2 (encoded_as ?ut) [GoBool True] [JBool True]" by (simp add: encoded_as_def json_Marshal_def)
  have v: "list_all2 (\<lambda>j v. Inr j = Inr v) [JBool True] [JBool True]" by simp
  from subscription_end_to_end [OF m ok req c(1) rinv_new s c(2) refl demo_ok(2-4) rinv_new c(3) n r p b i e v, of "[]" demo_cfg] m
  show ?thesis by (auto simp: demo_wlog new_reqst_def)
qed

section \<open>The end of a subscription\<close>

text \<open>requestUnsubscribe; \<open>anyPtr\<close> is the type of the pointer to its result variable of type interface.\<close>

definition requestUnsubscribe ::
    "usertypes \<Rightarrow> transport \<Rightarrow> goerr option \<Rightarrow> rtype \<Rightarrow> string \<Rightarrow> string \<Rightarrow> Client \<Rightarrow> goerr option goresult \<times> Client" where
  "requestUnsubscribe ut send ctxErr anyPtr namespace subid c =
     (case CallContext ut send ctxErr (Some anyPtr) (namespace @ unsubscribeMethodSuffix) (Some [GoStr subid]) c of
        (r, c') \<Rightarrow> (bind_result r (\<lambda>x. Ret (case x of Inl err \<Rightarrow> Some err | Inr _ \<Rightarrow> None)), c'))"

lemma unsubscribe_other:
  assumes "unsubscribe subid h = Some (r, h')" and "hinv h"
  shows "map_get (serverSubs h') i = (if i = subid then None else map_get (serverSubs h) i)"
  using assms by (auto simp: unsubscribe_def upd_sub_err_def map_get_delete bind_eq_Some_conv split: option.splits if_splits)

text \<open>The call that the client makes, in the handler of the server.\<close>

lemma handleCallMsg_unsubscribe:
  assumes "middlewares (hreg cfg) = []" and "isCall msg" and "Method msg = ns @ unsubscribeMethodSuffix"
    and "Params msg = Some (JArr lit [str_json subid])" and "ascii subid" and "unsubscribe subid h = Some ((ok, err), h')"
  shows "handleCallMsg cfg new_callProc msg h =
    Some (Some (case err of Some e \<Rightarrow> errorResponse msg e | None \<Rightarrow> response (huser cfg) msg (GoBool ok)), new_callProc, h')"
proof -
  have s: "isUnsubscribe msg" "\<not> isSubscribe msg"
    using assms(3) by (simp_all add: isUnsubscribe_def isSubscribe_def unsubscribeMethodSuffix_def subscribeMethodSuffix_def strings_HasSuffix_def)
  have n: "\<not> isNotification msg" using isCall_notNotification [OF assms(2)] .
  have cb: "argTypes unsubscribeCb = [TStr ''rpc.ID'']" "hasCtx unsubscribeCb" "\<not> rcvr unsubscribeCb" "errPos unsubscribeCb = 1" by code_simp+
  have p: "parsePositionalArguments (huser cfg) (Params msg) (argTypes unsubscribeCb) = Inr [GoStr subid]"
    using assms(4,5) by (simp add: cb parsePositionalArguments_def json_Unmarshal_def argval_IsNil_def)
  have "base_next UnsubscribeCb ctx meth [GoStr subid] h = Some (Some \<lparr>mr_Result = (case err of Some _ \<Rightarrow> GoNil | None \<Rightarrow> GoBool ok), mr_Error = err\<rparr>, h')" for ctx meth
    using assms(6) cb by (cases err) (simp_all add: base_next_def callback_call_def call_fullargs_def call_result_def ret_interface_def)
  then show ?thesis
    using assms(1,2) s n p by (cases err) (simp_all add: handleCallMsg_def handleCall_def runMethod_def)
qed

text \<open>C24. The end of a subscription: the call of requestUnsubscribe reaches the server, whatever the namespace, removes exactly the subscription with that id and
  closes its error channel; the response resolves the call and requestUnsubscribe reports success. For an id that is not registered nothing changes, and it reports the
  error of the server.\<close>

theorem unsubscribe_end_to_end:
  assumes "newMessage ut (ns @ unsubscribeMethodSuffix) (Some [GoStr subid]) c = (Inr msg, c')" and "ascii subid"
    and "middlewares (hreg cfg) = []" and "huser cfg = ut" and "hinv h"
    and "rinv s" and "rq < length (ops s)" and "ops s ! rq = new_requestOp [raw_string (ID msg)] None"
    and "is_ptr anyPtr" and "json_Unmarshal ut (elem_type anyPtr) (JBool True) = Inr v"
  shows "\<exists>resp h' s1. handleCallMsg cfg new_callProc msg h = Some (Some resp, new_callProc, h') \<and> hinv h' \<and>
    (\<forall>i. map_get (serverSubs h') i = (if i = subid then None else map_get (serverSubs h) i)) \<and>
    (\<forall>k. map_get (serverSubs h) subid = Some k \<longrightarrow> chclosed (sub_err (srvSubs h' ! k))) \<and>
    handleMsg resp (addRequestOp rq s) = Some ([], s1) \<and>
    requestUnsubscribe ut (\<lambda>x w. Ret (None, ops s1 ! rq)) None anyPtr ns subid c =
      (Ret (if map_get (serverSubs h) subid = None then map_option JsonErr (Error (errorResponse msg ErrSubscriptionNotFound)) else None), c')"
proof -
  let ?meth = "ns @ unsubscribeMethodSuffix"
  have m: "hasValidID msg" "Method msg = ?meth" "hasValidVersion msg"
    using assms(1) newMessage_spec [of ut ?meth "Some [GoStr subid]" c] by auto
  have ne: "?meth \<noteq> []" by (simp add: unsubscribeMethodSuffix_def)
  then have call: "isCall msg" using m by (simp add: isCall_def)
  obtain lit where p: "Params msg = Some (JArr lit [str_json subid])"
    using assms(1) by (auto simp: newMessage_def marshal_params_def json_Marshal_def Let_def split: prod.splits)
  obtain h' where u: "unsubscribe subid h = Some (if map_get (serverSubs h) subid = None then (False, Some ErrSubscriptionNotFound) else (True, None), h')"
    "hinv h'" "\<forall>k. map_get (serverSubs h) subid = Some k \<longrightarrow> chclosed (sub_err (srvSubs h' ! k))"
    using unsubscribe_correct [OF assms(5), of subid] by blast
  note oth = unsubscribe_other [OF u(1) assms(5)]
  let ?resp = "if map_get (serverSubs h) subid = None then errorResponse msg ErrSubscriptionNotFound else response ut msg (GoBool True)"
  have r: "handleCallMsg cfg new_callProc msg h = Some (Some ?resp, new_callProc, h')"
    by (cases "map_get (serverSubs h) subid = None")
      (use handleCallMsg_unsubscribe [OF assms(3) call m(2) p assms(2), of h _ _ h'] u(1) assms(4) in \<open>auto split: if_splits\<close>)
  have resp: "isResponse ?resp" "ID ?resp = ID msg" using isResponse_response [OF m(1)] isResponse_errorResponse [OF m(1)] by simp_all
  obtain s1 where s1: "handleMsg ?resp (addRequestOp rq s) = Some ([], s1)"
    "CallContext ut (\<lambda>x w. Ret (None, ops s1 ! rq)) None (Some anyPtr) ?meth (Some [GoStr subid]) c = (call_outcome ut (Some (elem_type anyPtr)) [?resp], c')"
    using call_resolved [OF assms(1,6-8) resp, of "Some anyPtr"] assms(9) by auto
  have "bind_result (call_outcome ut (Some (elem_type anyPtr)) [?resp]) (\<lambda>x. Ret (case x of Inl err \<Rightarrow> Some err | Inr _ \<Rightarrow> None)) =
      Ret (if map_get (serverSubs h) subid = None then map_option JsonErr (Error (errorResponse msg ErrSubscriptionNotFound)) else None)"
    using assms(10) by (auto simp: call_outcome_def errorMessage_Error response_def json_Marshal_def new_jsonrpcMessage_def split: option.split)
  then have "requestUnsubscribe ut (\<lambda>x w. Ret (None, ops s1 ! rq)) None anyPtr ns subid c =
      (Ret (if map_get (serverSubs h) subid = None then map_option JsonErr (Error (errorResponse msg ErrSubscriptionNotFound)) else None), c')"
    using s1(2) by (simp add: requestUnsubscribe_def)
  then show ?thesis using r u(2,3) oth s1(1) by blast
qed

theorem unsubscribe_end_to_end_witness:
  "\<exists>cfg msg c' resp h'. newMessage (huser cfg) (''calc'' @ unsubscribeMethodSuffix) (Some [GoStr ''0x1'']) demo_client = (Inr msg, c') \<and>
    map_get (serverSubs one_registered) ''0x1'' = Some 0 \<and>
    handleCallMsg cfg new_callProc msg one_registered = Some (Some resp, new_callProc, h') \<and> map_get (serverSubs h') ''0x1'' = None"
proof -
  define cfg where "cfg = demo_cfg\<lparr>huser := no_types\<lparr>user_unmarshal := \<lambda>_ _. Inr GoNil\<rparr>\<rparr>"
  have "\<exists>msg c'. newMessage (huser cfg) (''calc'' @ unsubscribeMethodSuffix) (Some [GoStr ''0x1'']) demo_client = (Inr msg, c')"
    by (simp add: newMessage_def nextID_def Let_def marshal_params_def json_Marshal_def)
  then obtain msg c' where m: "newMessage (huser cfg) (''calc'' @ unsubscribeMethodSuffix) (Some [GoStr ''0x1'']) demo_client = (Inr msg, c')" by blast
  have a: "ascii ''0x1''" by code_simp
  have w: "middlewares (hreg cfg) = []" by (simp add: cfg_def demo_cfg_def)
  let ?s = "new_reqst [new_requestOp [raw_string (ID msg)] None]"
  have s: "0 < length (ops ?s)" "ops ?s ! 0 = new_requestOp [raw_string (ID msg)] None" by (simp_all add: new_reqst_def)
  have p: "is_ptr (TPtr (TOther 0 True) False)" "json_Unmarshal (huser cfg) (elem_type (TPtr (TOther 0 True) False)) (JBool True) = Inr GoNil"
    by (simp_all add: json_Unmarshal_def cfg_def)
  have r: "map_get (serverSubs one_registered) ''0x1'' = Some 0"
    by (simp add: one_registered_def one_notifier_def new_hstate_def newNotifier_def addSubscriptions.simps takeSubscription_def upd_notif_def)
  from unsubscribe_end_to_end [OF m a w refl one_registered_hinv rinv_new s p] obtain resp h' where
    "handleCallMsg cfg new_callProc msg one_registered = Some (Some resp, new_callProc, h')" "map_get (serverSubs h') ''0x1'' = None" by auto
  with m r show ?thesis by blast
qed

end
