(* ===== verification/Rpc_Reverse.thy ===== *)
theory Rpc_Reverse
  imports Rpc_Calls
begin

text \<open>
  Reverse calls that are under way when the client is closed. A Close that dispatch accepts while it reads resolves the operation of every
  reverse call, so that, unlike after a read error, the wait for the calls ends. The operations have ids of their own, as the counter of the
  client gives them.
\<close>

section \<open>Operations with ids of their own\<close>

definition ids_apart :: "string list list \<Rightarrow> bool" where
  "ids_apart L \<longleftrightarrow>
     (\<forall>p < length L. L ! p \<noteq> []) \<and> (\<forall>p q. p < length L \<longrightarrow> q < length L \<longrightarrow> p \<noteq> q \<longrightarrow> set (L ! p) \<inter> set (L ! q) = {})"

abbreviation op_idss :: "reqst \<Rightarrow> string list list" where
  "op_idss s \<equiv> map op_ids (ops s)"

lemma ids_apartD:
  assumes "ids_apart (op_idss s)" and "p < length (ops s)"
  shows "op_ids (ops s ! p) \<noteq> []" and "q < length (ops s) \<Longrightarrow> p \<noteq> q \<Longrightarrow> ids_of_op s p \<inter> ids_of_op s q = {}"
proof -
  have "op_idss s ! p = op_ids (ops s ! p)" using assms(2) by simp
  then show "op_ids (ops s ! p) \<noteq> []" using assms by (force simp: ids_apart_def)
  assume "q < length (ops s)" "p \<noteq> q"
  then have "set (op_idss s ! p) \<inter> set (op_idss s ! q) = {}" using assms by (simp add: ids_apart_def)
  then show "ids_of_op s p \<inter> ids_of_op s q = {}" using assms(2) \<open>q < length (ops s)\<close> by (simp add: ids_of_op_def)
qed

lemma disp_step_settles:
  assumes "disp_step cfg d d'" and "dinv d"
  shows "list_all2 settles (fates d) (fates d')"
  by (rule fate_step_settles [OF disp_step_fates [OF assms]])

lemma disp_step_ids:
  assumes "disp_step cfg d d'" and "dinv d"
  shows "op_idss (d_req d') = op_idss (d_req d)"
proof (rule nth_equalityI)
  note l = disp_step_settles [OF assms]
  show len: "length (op_idss (d_req d')) = length (op_idss (d_req d))" using list_all2_lengthD [OF l] by (simp add: fates_def)
  fix p assume "p < length (op_idss (d_req d'))"
  then have p: "p < length (ops (d_req d))" "p < length (ops (d_req d'))" using len by simp_all
  then have "settles (op_abs (ops (d_req d) ! p)) (op_abs (ops (d_req d') ! p))" using list_all2_nthD [OF l, of p] by (simp add: fates_def)
  then show "op_idss (d_req d') ! p = op_idss (d_req d) ! p" using p by (auto simp: settles_def op_abs_def)
qed

lemma disp_step_fate:
  assumes "disp_step cfg d d'" and "dinv d" and "p < length (ops (d_req d))" and "op_fate (ops (d_req d) ! p) \<noteq> Waiting"
  shows "op_fate (ops (d_req d') ! p) \<noteq> Waiting"
proof -
  note l = disp_step_settles [OF assms(1,2)]
  have "length (ops (d_req d')) = length (ops (d_req d))" using list_all2_lengthD [OF l] by (simp add: fates_def)
  then have "settles (op_abs (ops (d_req d) ! p)) (op_abs (ops (d_req d') ! p))" using list_all2_nthD [OF l, of p] assms(3) by (simp add: fates_def)
  then show ?thesis using assms(4) by (auto simp: settles_def op_abs_def)
qed

text \<open>An operation that had a response still holds it, as nobody but its caller takes it.\<close>

definition holds_response :: "requestOp \<Rightarrow> bool" where
  "holds_response x \<longleftrightarrow> op_hadResponse x \<longrightarrow> chbuf (op_resp x) \<noteq> []"

lemma holds_got: "holds_response x \<Longrightarrow> got ms x y \<Longrightarrow> holds_response y \<and> op_fate y \<noteq> Waiting"
  by (auto simp: holds_response_def got_def op_fate_def split: if_splits list.split)

lemma holds_cancelled [simp]: "holds_response (cancelled_op e x) = holds_response x"
  by (simp add: holds_response_def cancelled_op_def)

lemma cancelled_resolved: "op_fate (cancelled_op e x) \<noteq> Waiting"
  by (simp add: op_fate_def cancelled_op_def split: list.split)

abbreviation all_hold :: "reqst \<Rightarrow> bool" where
  "all_hold s \<equiv> \<forall>p < length (ops s). holds_response (ops s ! p)"

text \<open>An operation that is in the table or resolved.\<close>

definition kept :: "reqst \<Rightarrow> nat \<Rightarrow> bool" where
  "kept s rq \<longleftrightarrow> rq < length (ops s) \<and> (registered s rq \<or> op_fate (ops s ! rq) \<noteq> Waiting)"

section \<open>What dispatch does to them\<close>

lemma read_cases:
  assumes "rinv s" and "dispatch_read cfg msgs batch s = Some (procs, s')"
  obtains "s' = s" | ms where "responses_done ms s s'"
proof (cases "s' = s")
  case False
  then obtain ms calls where "handleResponses ms s = Some (calls, s')"
    using assms(2) by (auto simp: dispatch_read_def handleMsg_def handleBatch_def bind_eq_Some_conv split: if_splits)
  then show ?thesis using that(2) handleResponses_ok [OF assms(1), of ms] by auto
qed (rule that(1))

lemma responses_kept:
  assumes inv: "rinv s" and a: "ids_apart (op_idss s)" and h: "all_hold s" and d: "responses_done ms s s'"
  shows "all_hold s'" and "kept s rq \<Longrightarrow> kept s' rq"
proof -
  have len: "length (ops s') = length (ops s)"
    and o: "if p \<in> hit s ms then got ms (ops s ! p) (ops s' ! p) else ops s' ! p = ops s ! p"
    and w: "wait_op s' i = (if \<exists>q \<in> hit s ms. i \<in> ids_of_op s q then None else wait_op s i)" for p i
    using d by (simp_all add: responses_done_def)
  show "all_hold s'" using o h len holds_got by metis
  assume k: "kept s rq"
  then have rq: "rq < length (ops s)" by (simp add: kept_def)
  show "kept s' rq"
  proof (cases "rq \<in> hit s ms")
    case True
    then show ?thesis using o [of rq] h rq len holds_got by (auto simp: kept_def)
  next
    case False
    then have same: "ops s' ! rq = ops s ! rq" using o [of rq] by simp
    have "registered s' rq" if "wait_op s i = Some rq" for i
    proof -
      have "i \<notin> ids_of_op s q" if "q \<in> hit s ms" for q
      proof -
        have "q < length (ops s)" using that rinvD(3) [OF inv] by (auto simp: hit_def)
        moreover have "q \<noteq> rq" using that False by auto
        ultimately show ?thesis using ids_apartD(2) [OF a rq, of q] rinvD(4) [OF inv \<open>wait_op s i = Some rq\<close>] by auto
      qed
      then have "wait_op s' i = Some rq" using w [of i] \<open>wait_op s i = Some rq\<close> by auto
      then show ?thesis by (auto simp: registered_def)
    qed
    then show ?thesis using k same len by (auto simp: kept_def registered_def)
  qed
qed

lemma add_kept:
  assumes "rinv s" and "ids_apart (op_idss s)" and "rq < length (ops s)"
  shows "kept (addRequestOp rq s) rq" and "kept s p \<Longrightarrow> kept (addRequestOp rq s) p"
proof -
  obtain i where "i \<in> ids_of_op s rq" using ids_apartD(1) [OF assms(2,3)] by (cases "op_ids (ops s ! rq)") (auto simp: ids_of_op_def)
  then have "wait_op (addRequestOp rq s) i = Some rq" by (simp add: requests.waiting_register)
  then show rq: "kept (addRequestOp rq s) rq" using assms(3) by (auto simp: kept_def registered_def)
  assume k: "kept s p"
  then have p: "p < length (ops s)" by (simp add: kept_def)
  have "registered (addRequestOp rq s) p" if "wait_op s j = Some p" "p \<noteq> rq" for j
  proof -
    have "j \<notin> ids_of_op s rq" using ids_apartD(2) [OF assms(2) p assms(3) that(2)] rinvD(4) [OF assms(1) that(1)] by auto
    then have "wait_op (addRequestOp rq s) j = Some p" using that(1) by (simp add: requests.waiting_register)
    then show ?thesis by (auto simp: registered_def)
  qed
  then show "kept (addRequestOp rq s) p" using k rq by (cases "p = rq") (auto simp: kept_def registered_def)
qed

lemma remove_kept:
  assumes "rinv s" and "ids_apart (op_idss s)" and "rq < length (ops s)" and "kept s p" and "p \<noteq> rq"
  shows "kept (removeRequestOp rq s) p"
proof -
  have p: "p < length (ops s)" using assms(4) by (simp add: kept_def)
  have "registered (removeRequestOp rq s) p" if "wait_op s j = Some p" for j
  proof -
    have "j \<notin> ids_of_op s rq" using ids_apartD(2) [OF assms(2) p assms(3,5)] rinvD(4) [OF assms(1) that] by auto
    then have "wait_op (removeRequestOp rq s) j = Some p" using that by (simp add: requests.waiting_unregister)
    then show ?thesis by (auto simp: registered_def)
  qed
  then show ?thesis using assms(4) by (auto simp: kept_def registered_def)
qed

lemma cancel_resolves:
  assumes "rinv s" and "cancelAllRequests e inflight s = Some s'"
  shows "all_hold s \<Longrightarrow> all_hold s'" and "inflight = None \<Longrightarrow> kept s p \<Longrightarrow> op_fate (ops s' ! p) \<noteq> Waiting"
proof -
  from cancelAllRequests_ok [OF assms(1), of e inflight] assms(2)
  have s': "length (ops s') = length (ops s)"
    "ops s' ! p = (if registered s p \<and> inflight \<noteq> Some p then cancelled_op e (ops s ! p) else ops s ! p)" for p
    by (metis option.inject)+
  show "all_hold s \<Longrightarrow> all_hold s'" using s' by simp
  show "op_fate (ops s' ! p) \<noteq> Waiting" if "inflight = None" "kept s p"
    using that s'(2) [of p] cancelled_resolved by (auto simp: kept_def)
qed

section \<open>The invariant\<close>

fun awaits :: "rcall \<Rightarrow> nat list" where
  "awaits (CWrite _ rq) = [rq]"
| "awaits (CWait _ rq) = [rq]"
| "awaits _ = []"

text \<open>Every reverse call has an operation of its own, the one that writes has the last operation of dispatch, an operation whose write failed
  is nobody's any more, and while there is a read loop the operation of a reverse call is in the table or resolved; once the client closes, it is resolved.\<close>

definition rev_calls :: "dispst \<Rightarrow> rcall list \<Rightarrow> bool" where
  "rev_calls d xs \<longleftrightarrow>
     distinct (claims xs) \<and> (\<forall>x \<in> set xs. \<forall>rq \<in> set (claimed x). rq < length (ops (d_req d))) \<and>
     (\<forall>x \<in> set xs. is_write x \<longrightarrow> d_lastOp d = Some (hd (claimed x))) \<and>
     (\<forall>e rq. d_sender d = SSent (Some e) \<longrightarrow> d_lastOp d = Some rq \<longrightarrow> rq \<notin> set (claims xs)) \<and>
     (d_reading d \<longrightarrow> (\<forall>x \<in> set xs. \<forall>rq \<in> set (awaits x).
        if d_closed d then op_fate (ops (d_req d) ! rq) \<noteq> Waiting else kept (d_req d) rq))"

definition rev_inv :: "'a connst_scheme \<Rightarrow> bool" where
  "rev_inv c \<longleftrightarrow>
     conn_ok c \<and> ids_apart (op_idss (d_req (vc_disp c))) \<and> all_hold (d_req (vc_disp c)) \<and> rev_calls (vc_disp c) (vc_calls c)"

lemma rev_callsD:
  assumes "rev_calls d xs"
  shows "distinct (claims xs)" "\<And>x rq. x \<in> set xs \<Longrightarrow> rq \<in> set (claimed x) \<Longrightarrow> rq < length (ops (d_req d))"
    "\<And>x. x \<in> set xs \<Longrightarrow> is_write x \<Longrightarrow> d_lastOp d = Some (hd (claimed x))"
    "\<And>e rq. d_sender d = SSent (Some e) \<Longrightarrow> d_lastOp d = Some rq \<Longrightarrow> rq \<notin> set (claims xs)"
    "\<And>x rq. d_reading d \<Longrightarrow> x \<in> set xs \<Longrightarrow> rq \<in> set (awaits x) \<Longrightarrow> if d_closed d then op_fate (ops (d_req d) ! rq) \<noteq> Waiting else kept (d_req d) rq"
  using assms by (simp_all add: rev_calls_def)

lemma claims_split:
  assumes "k < length xs"
  shows "claims xs = claims (take k xs) @ claimed (xs ! k) @ claims (drop (Suc k) xs)"
    and "set xs = set (take k xs) \<union> {xs ! k} \<union> set (drop (Suc k) xs)"
proof -
  have xs: "xs = take k xs @ xs ! k # drop (Suc k) xs" using id_take_nth_drop [OF assms] .
  show "claims xs = claims (take k xs) @ claimed (xs ! k) @ claims (drop (Suc k) xs)"
    by (subst xs) simp
  show "set xs = set (take k xs) \<union> {xs ! k} \<union> set (drop (Suc k) xs)"
    by (subst xs) auto
qed

lemma distinct_splice:
  "distinct (a @ b @ c) \<Longrightarrow> distinct y \<Longrightarrow> set y \<subseteq> set b \<union> (f - set (a @ b @ c)) \<Longrightarrow> distinct (a @ y @ c)"
  by auto

text \<open>A call goroutine that goes on, with the operation it has or a new one, and what it may then wait for.\<close>

lemma rev_calls_splice:
  assumes r: "rev_calls d xs" and k: "k < length xs"
    and ys: "distinct (claims ys)" "set (claims ys) \<subseteq> set (claimed (xs ! k)) \<union> ({p. p < length (ops (d_req d)) \<and> d_lastOp d \<noteq> Some p} - set (claims xs))"
    and w: "\<And>y. y \<in> set ys \<Longrightarrow> is_write y \<Longrightarrow> d_lastOp d = Some (hd (claimed y))"
    and a: "\<And>y rq. y \<in> set ys \<Longrightarrow> rq \<in> set (awaits y) \<Longrightarrow> rq \<in> set (awaits (xs ! k))"
  shows "rev_calls d (take k xs @ ys @ drop (Suc k) xs)"
proof -
  note c = claims_split [OF k] and rD = rev_callsD [OF r]
  have m: "set (take k xs @ ys @ drop (Suc k) xs) \<subseteq> set xs \<union> set ys" using c(2) by auto
  have "distinct (claims (take k xs @ ys @ drop (Suc k) xs))"
    using distinct_splice [OF rD(1)[unfolded c(1)] ys(1)] ys(2)[unfolded c(1)] by simp
  moreover have "rq < length (ops (d_req d))" if "x \<in> set xs \<union> set ys" "rq \<in> set (claimed x)" for x rq
  proof (cases "x \<in> set xs")
    case False
    then have "rq \<in> set (claims ys)" using that by auto
    then show ?thesis using ys(2) rD(2) [OF nth_mem [OF k]] by auto
  qed (use rD(2) that(2) in blast)
  moreover have "rq \<notin> set (claims (take k xs @ ys @ drop (Suc k) xs))" if "d_sender d = SSent (Some e)" "d_lastOp d = Some rq" for e rq
    using rD(4) [OF that] ys(2) that(2) unfolding c(1) by auto
  moreover have "if d_closed d then op_fate (ops (d_req d) ! rq) \<noteq> Waiting else kept (d_req d) rq"
    if "d_reading d" "x \<in> set xs \<union> set ys" "rq \<in> set (awaits x)" for x rq
    using rD(5) [OF that(1)] that(2,3) a nth_mem [OF k] by blast
  moreover have "d_lastOp d = Some (hd (claimed x))" if "x \<in> set xs \<union> set ys" "is_write x" for x
    using rD(3) w that by blast
  ultimately show ?thesis unfolding rev_calls_def using m by blast
qed

lemma rev_calls_update:
  assumes "rev_calls d xs" and "k < length xs" and "distinct (claimed y)" and "set (claimed y) \<subseteq> set (claimed (xs ! k))"
    and "is_write y \<Longrightarrow> d_lastOp d = Some (hd (claimed y))" and "set (awaits y) \<subseteq> set (awaits (xs ! k))"
  shows "rev_calls d (xs[k := y])"
  using rev_calls_splice [OF assms(1,2), of "[y]"] assms(2-6) by (auto simp: upd_conv_take_nth_drop)

lemma call_alone_rev:
  assumes "rev_calls d (vc_calls c)" and "d = vc_disp c" and "dinv d" and "k < length (vc_calls c)" and "call_alone c k xs"
  shows "rev_calls d (take k (vc_calls c) @ xs @ drop (Suc k) (vc_calls c))"
  using assms(5)
proof cases
  case (reverse rq dl)
  have "d_lastOp d \<noteq> Some rq" using reverse(4) assms(2,3) by (auto simp: dinv_def)
  then show ?thesis using reverse assms(2) by (intro rev_calls_splice [OF assms(1,4)]) auto
qed (rule rev_calls_splice [OF assms(1,4)]; auto)+

lemma no_writers: "conn_ok c \<Longrightarrow> d_sender (vc_disp c) \<noteq> SWriting \<Longrightarrow> x \<in> set (vc_calls c) \<Longrightarrow> \<not> is_write x"
  by (auto simp: conn_ok_def filter_empty_conv)

lemma rev_calls_req:
  assumes "rev_calls d xs" and "\<not> d_closed d" and "length (ops s) = length (ops (d_req d))"
    and "\<And>rq. rq \<in> set (claims xs) \<Longrightarrow> kept (d_req d) rq \<Longrightarrow> kept s rq"
  shows "rev_calls (d\<lparr>d_req := s\<rparr>) xs"
proof -
  have "rq \<in> set (claimed x)" if "rq \<in> set (awaits x)" for x rq using that by (cases x) auto
  then have "kept s rq" if "d_reading d" "x \<in> set xs" "rq \<in> set (awaits x)" for x rq
    using rev_callsD(5) [OF assms(1) that] assms(2,4) that(2,3) by (auto split: if_splits)
  then show ?thesis using assms(1-3) by (auto simp: rev_calls_def)
qed

lemma claims_runs [simp]: "concat (map (claimed \<circ> (\<lambda>_. CRun)) ps) = []"
  by (induction ps) simp_all

lemma rev_calls_runs: "rev_calls d xs \<Longrightarrow> rev_calls d (xs @ map (\<lambda>_. CRun) ps)"
  by (auto simp: rev_calls_def)

lemma read_rev:
  assumes "rinv (d_req d)" and "ids_apart (op_idss (d_req d))" and "all_hold (d_req d)" and "rev_calls d xs" and "\<not> d_closed d"
    and "dispatch_read cfg msgs batch (d_req d) = Some (procs, s)"
  shows "all_hold s \<and> rev_calls (d\<lparr>d_req := s\<rparr>) xs"
proof (cases rule: read_cases [OF assms(1,6)])
  case (2 ms)
  then have "length (ops s) = length (ops (d_req d))" by (simp add: responses_done_def)
  then show ?thesis using responses_kept [OF assms(1-3) 2] rev_calls_req [OF assms(4,5)] by blast
qed (use assms in simp)

lemma req_init_rev:
  assumes "conn_ok c" and "ids_apart (op_idss (d_req d))" and "rev_calls d xs" and "d = vc_disp c" and "xs = vc_calls c" and "d_sender d = SNone" and "\<not> d_closed d"
    and k: "k < length xs" "xs ! k = CSend dl rq"
  shows "rev_calls (d\<lparr>d_lastOp := Some rq, d_sender := SWriting, d_req := addRequestOp rq (d_req d), d_started := insert rq (d_started d)\<rparr>) (xs[k := CWrite dl rq])"
proof -
  have inv: "rinv (d_req d)" using assms(1,4) by (simp add: conn_ok_def dinv_def)
  note rD = rev_callsD [OF assms(3)]
  have rq: "rq < length (ops (d_req d))" using rD(2) [OF nth_mem [OF k(1)]] k(2) by simp
  note add = add_kept [OF inv assms(2) rq]
  have "rev_calls (d\<lparr>d_req := addRequestOp rq (d_req d)\<rparr>) xs" using rev_calls_req [OF assms(3,7)] add(2) by simp
  note r = rev_callsD [OF this]
  have m: "set (xs[k := CWrite dl rq]) \<subseteq> insert (CWrite dl rq) (set xs)" by (rule set_update_subset_insert)
  have "distinct (claims (xs[k := CWrite dl rq]))"
    using rD(1) k by (simp add: upd_conv_take_nth_drop claims_split(1) [OF k(1)])
  moreover have "p < length (ops (d_req d))" if "x \<in> set (xs[k := CWrite dl rq])" "p \<in> set (claimed x)" for x p
    using that m rq rD(2) by auto
  moreover have "\<not> is_write x" if "x \<in> set xs" for x using no_writers [OF assms(1)] that assms(4-6) by simp
  moreover have "kept (addRequestOp rq (d_req d)) p" if "d_reading d" "x \<in> set (xs[k := CWrite dl rq])" "p \<in> set (awaits x)" for x p
    using r(5) [of x p] that m add(1) assms(7) by auto
  ultimately show ?thesis unfolding rev_calls_def using m assms(7) by auto
qed

lemma loop_arm_rev:
  assumes "loop_arm cfg c c'" and "rev_inv c"
  shows "all_hold (d_req (vc_disp c')) \<and> rev_calls (vc_disp c') (vc_calls c')"
proof -
  have ok: "conn_ok c" and a: "ids_apart (op_idss (d_req (vc_disp c)))" and h: "all_hold (d_req (vc_disp c))" and r: "rev_calls (vc_disp c) (vc_calls c)"
    using assms(2) by (simp_all add: rev_inv_def)
  have inv: "rinv (d_req (vc_disp c))" using ok by (simp add: conn_ok_def dinv_def)
  note rD = rev_callsD [OF r]
  from assms(1) show ?thesis
  proof cases
    case (read_op batch msgs procs s)
    have "all_hold s \<and> rev_calls ((vc_disp c)\<lparr>d_req := s\<rparr>) (vc_calls c)" by (rule read_rev [OF inv a h r read_op(3,6)])
    then show ?thesis using rev_calls_runs [of _ "vc_calls c" procs] read_op(1) by simp
  next
    case (read_err err s)
    then show ?thesis using cancel_resolves(1) [OF inv read_err(5) h] r cancel_eq [OF inv read_err(5)] by (simp add: rev_calls_def cancel_frame_def)
  next
    case (close s)
    show ?thesis
    proof (cases "d_reading (vc_disp c)")
      case True
      then have s: "cancelAllRequests ErrClientQuit None (d_req (vc_disp c)) = Some s" using close(4) by simp
      have "op_fate (ops s ! rq) \<noteq> Waiting" if "x \<in> set (vc_calls c)" "rq \<in> set (awaits x)" for x rq
        using rD(5) [OF True that] cancel_resolves(2) [OF inv s] close(3) by simp
      then show ?thesis using close(1) cancel_resolves(1) [OF inv s h] r cancel_eq [OF inv s] by (simp add: rev_calls_def cancel_frame_def)
    next
      case False
      then show ?thesis using close h r by (simp add: rev_calls_def)
    qed
  next
    case (req_init k dl rq)
    then show ?thesis using h req_init_rev [OF ok a r refl refl req_init(4,3,5,6)] by simp
  next
    case (write_done k dl rq err)
    have l: "d_lastOp (vc_disp c) = Some rq" using rD(3) [OF nth_mem [OF write_done(2)]] write_done(3) by simp
    have "rev_calls (vc_disp c) ((vc_calls c)[k := if err = None then CWait dl rq else CRun])"
      using write_done(3) by (intro rev_calls_update [OF r write_done(2)]) auto
    moreover have "rq \<notin> set (claims ((vc_calls c)[k := CRun]))"
      using rD(1) write_done(2,3) by (simp add: upd_conv_take_nth_drop claims_split(1) [OF write_done(2)])
    ultimately show ?thesis using write_done(1) h l by (auto simp: rev_calls_def)
  next
    case (req_sent err rq)
    have lt: "rq < length (ops (d_req (vc_disp c)))" using ok req_sent(5) by (auto simp: conn_ok_def dinv_def)
    let ?s = "if err \<noteq> None then removeRequestOp rq (d_req (vc_disp c)) else d_req (vc_disp c)"
    have "rev_calls ((vc_disp c)\<lparr>d_req := ?s\<rparr>) (vc_calls c)"
      using rD(4) req_sent(4,5) remove_kept [OF inv a lt] by (intro rev_calls_req [OF r req_sent(3)]) (auto split: if_splits)
    then show ?thesis using req_sent(1,4) h no_writers [OF ok] by (auto simp: rev_calls_def)
  next
    case (req_timeout k rq)
    have lt: "rq < length (ops (d_req (vc_disp c)))" using rD(2) [OF nth_mem [OF req_timeout(4)]] req_timeout(5) by simp
    have r1: "rev_calls (vc_disp c) ((vc_calls c)[k := CRun])" by (rule rev_calls_update [OF r req_timeout(4)]) simp_all
    have "rq \<notin> set (claims ((vc_calls c)[k := CRun]))"
      using rD(1) req_timeout(4,5) by (simp add: upd_conv_take_nth_drop claims_split(1) [OF req_timeout(4)])
    then have "rev_calls ((vc_disp c)\<lparr>d_req := removeRequestOp rq (d_req (vc_disp c))\<rparr>) ((vc_calls c)[k := CRun])"
      using remove_kept [OF inv a lt] by (intro rev_calls_req [OF r1 req_timeout(3)]) auto
    then show ?thesis using req_timeout(1) h by simp
  qed
qed

lemma conn_step_rev:
  assumes "conn_step cfg c c'" and "rev_inv c"
  shows "rev_inv c'"
proof -
  have i: "conn_ok c" "dinv (vc_disp c)" "rev_calls (vc_disp c) (vc_calls c)" using assms(2) by (simp_all add: rev_inv_def conn_ok_def)
  have "ids_apart (op_idss (d_req (vc_disp c')))"
    using conn_step_disp [OF assms(1)] disp_step_ids [OF _ i(2)] assms(2) by (auto simp: rev_inv_def)
  moreover have "all_hold (d_req (vc_disp c')) \<and> rev_calls (vc_disp c') (vc_calls c')"
    using assms(1)
  proof cases
    case arm
    then show ?thesis using loop_arm_rev assms(2) by blast
  next
    case (wait_over cd)
    then show ?thesis using assms(2) by (simp add: rev_inv_def)
  next
    case (call k xs)
    then show ?thesis using call_alone_rev [OF i(3) refl i(2) call(2,3)] assms(2) by (simp add: rev_inv_def)
  qed
  ultimately show ?thesis using conn_step_ok [OF assms(1) i(1)] by (simp add: rev_inv_def)
qed

definition rev_init :: "requestOp list \<Rightarrow> 'a connst_scheme \<Rightarrow> bool" where
  "rev_init os c \<longleftrightarrow> conn_init os c \<and> ids_apart (map op_ids os)"

interpretation reverse: invariant_system "rev_init os" "conn_step cfg" rev_inv
  for os cfg
proof
  show "rev_inv c" if "rev_init os c" for c :: "'a connst_scheme"
  proof -
    have "conn_init os c" using that by (simp add: rev_init_def)
    then have "conn_ok c" using conn.init_inv by blast
    then show ?thesis using that
      by (auto simp: rev_init_def conn_init_def disp_init_def rev_inv_def new_reqst_def rev_calls_def holds_response_def)
  qed
qed (rule conn_step_rev)

section \<open>Properties\<close>

text \<open>C14. A Close that dispatch accepts while it reads comes to its end whatever reverse calls are under way: the operation of every reverse call that was
  sent is resolved, a call that waits in send sees that the client is closing, and so the call goroutines can all leave their reverse calls and return, and the
  wait of handler.close ends with the codec closed.\<close>

theorem Close_ends_reverse_calls:
  assumes "reachable (rev_init os) (conn_step cfg) c" and "vc_wait c" and "d_closed (vc_disp c)" and "d_reading (vc_disp c)"
  shows "(\<forall>dl rq. CWait dl rq \<in> set (vc_calls c) \<longrightarrow> op_wait None (ops (d_req (vc_disp c)) ! rq) \<noteq> Blocks) \<and>
    (\<exists>c'. (conn_step cfg)\<^sup>*\<^sup>* c c' \<and> \<not> vc_wait c' \<and> vc_calls c' = [] \<and> chclosed (closeCh (vc_codec c')))"
proof -
  have i: "rev_inv c" by (rule reverse.reachable_inv [OF assms(1)])
  have w: "op_wait None (ops (d_req (vc_disp c)) ! rq) \<noteq> Blocks" if "CWait dl rq \<in> set (vc_calls c)" for dl rq
  proof -
    have "op_fate (ops (d_req (vc_disp c)) ! rq) \<noteq> Waiting"
      using rev_callsD(5) [of "vc_disp c" "vc_calls c" "CWait dl rq" rq] i that assms(3,4) by (simp add: rev_inv_def)
    then show ?thesis by (simp add: op_wait_fate split: fate.split)
  qed
  have "\<not> blocked c x" if x: "x \<in> set (vc_calls c)" for x
    by (cases x) (use x w assms(3) in auto)
  then have "waiting_free c" using i by (simp add: waiting_free_def rev_inv_def)
  from wait_ends [OF this assms(2)] show ?thesis using w by blast
qed

text \<open>A client that is closed while a method waits for the response to its reverse call.\<close>

lemma demo_waiting:
  "\<exists>c :: connst. reachable (rev_init [new_requestOp [''1''] None]) (conn_step demo_cfg) c \<and> vc_wait c \<and> d_closed (vc_disp c) \<and>
     d_reading (vc_disp c) \<and> vc_calls c = [CWait False 0]"
proof -
  let ?I = "rev_init [new_requestOp [''1''] None]" and ?m = "demo_msg (Some (JNum ''1'')) ''calc_add'' ''x''" and ?d = "vc_disp demo_conn"
  have i: "conn_init [new_requestOp [''1''] None] demo_conn" using demo_disp_init by (auto simp: conn_init_def demo_conn_def disp_init_def demo_disp_def)
  then have "?I demo_conn" by (simp add: rev_init_def ids_apart_def new_requestOp_def)
  then have r0: "reachable ?I (conn_step demo_cfg) demo_conn" by (rule reach_init)
  have "is_call_msg ?m" by code_simp
  then obtain s where s: "length (ops s) = 1"
    "(conn_step demo_cfg)\<^sup>*\<^sup>* demo_conn (demo_conn\<lparr>vc_disp := ?d\<lparr>d_req := s\<rparr>, vc_calls := [CSend False 0]\<rparr>)"
    using reverse_call_run [OF i, of 0 ?m demo_cfg False] by auto
  let ?c1 = "demo_conn\<lparr>vc_disp := ?d\<lparr>d_req := s\<rparr>, vc_calls := [CSend False 0]\<rparr>"
  let ?d2 = "?d\<lparr>d_req := addRequestOp 0 s, d_lastOp := Some 0, d_sender := SWriting, d_started := {0}\<rparr>"
  have r1: "reachable ?I (conn_step demo_cfg) ?c1" by (rule reachable_steps [OF s(2) r0])
  have "loop_arm demo_cfg ?c1 (demo_conn\<lparr>vc_disp := ?d2, vc_calls := [CWrite False 0]\<rparr>)"
    using loop_arm.req_init [of ?c1 0 False 0 demo_cfg] s(1) by (simp add: demo_conn_def demo_disp_def)
  then have r2: "reachable ?I (conn_step demo_cfg) (demo_conn\<lparr>vc_disp := ?d2, vc_calls := [CWrite False 0]\<rparr>)" (is "reachable _ _ ?c2")
    by (intro reach_step [OF r1] conn_step.arm)
  have "loop_arm demo_cfg ?c2 (demo_conn\<lparr>vc_disp := ?d2\<lparr>d_sender := SSent None\<rparr>, vc_calls := [CWait False 0]\<rparr>)"
    using loop_arm.write_done [of 0 ?c2 False 0 demo_cfg None] by simp
  then have r3: "reachable ?I (conn_step demo_cfg) (demo_conn\<lparr>vc_disp := ?d2\<lparr>d_sender := SSent None\<rparr>, vc_calls := [CWait False 0]\<rparr>)" (is "reachable _ _ ?c3")
    by (intro reach_step [OF r2] conn_step.arm)
  have "rinv (d_req (vc_disp ?c3))" using reverse.reachable_inv [OF r3] by (simp only: rev_inv_def conn_ok_def dinv_def)
  then obtain s' where "cancelAllRequests ErrClientQuit None (d_req (vc_disp ?c3)) = Some s'" using cancel_ok by blast
  then have "loop_arm demo_cfg ?c3 (?c3\<lparr>vc_disp := (vc_disp ?c3)\<lparr>d_req := s', d_closed := True\<rparr>, vc_wait := True\<rparr>)"
    using loop_arm.close [of ?c3 s' demo_cfg] by (simp add: demo_conn_def demo_disp_def)
  then have "reachable ?I (conn_step demo_cfg) (?c3\<lparr>vc_disp := (vc_disp ?c3)\<lparr>d_req := s', d_closed := True\<rparr>, vc_wait := True\<rparr>)"
    by (intro reach_step [OF r3] conn_step.arm)
  then show ?thesis by (intro exI conjI, assumption) (simp_all add: demo_conn_def demo_disp_def)
qed

theorem Close_ends_reverse_calls_witness:
  "\<exists>c c' :: connst. vc_calls c = [CWait False 0] \<and> op_wait None (ops (d_req (vc_disp c)) ! 0) \<noteq> Blocks \<and>
     (conn_step demo_cfg)\<^sup>*\<^sup>* c c' \<and> vc_calls c' = [] \<and> chclosed (closeCh (vc_codec c'))"
proof -
  obtain c :: connst where c: "reachable (rev_init [new_requestOp [''1''] None]) (conn_step demo_cfg) c" "vc_wait c" "d_closed (vc_disp c)"
    "d_reading (vc_disp c)" "vc_calls c = [CWait False 0]" using demo_waiting by blast
  from Close_ends_reverse_calls [OF c(1-4)] c(5) show ?thesis by auto
qed

end
