(* ===== verification/Spec2Isabelle.thy ===== *)
theory Spec2Isabelle
  imports Rpc_Types Rpc_Dial Rpc_ReadLoop Rpc_Stream Rpc_Reverse
begin

text \<open>
  A verification library for package rpc of go-ethereum (src/rpc): a JSON-RPC 2.0 server and client with
  subscriptions, over IPC sockets, standard input and output, in-process pipes, WebSocket and HTTP.

  \<^bold>\<open>The program.\<close> A codec (json.go, websocket.go, http.go) turns a connection into messages. A client (client.go) owns a
  connection: its read goroutine hands what it reads to its dispatch goroutine, which gives it to a handler (handler.go), and
  callers send requests through dispatch and wait for the operation to be resolved. The handler resolves pending requests, delivers
  notifications to client subscriptions, and runs calls and batches on goroutines of their own, with methods found in the registry
  (service.go) and notifications sent by a Notifier (subscription.go). A server (server.go) runs one such client per
  connection, and one handler per request over HTTP.

  \<^bold>\<open>The theories\<close>, in the order in which they build on each other, and the code they model.

  \<^item> Go_Prelude: strings, decimal numbers, channels (a buffer, a capacity, a closed flag; a send that would block or a
    send or close on a closed channel is \<^const>\<open>None\<close>) and maps of Go, reachability, and the locales invariant_system,
    progress_system and simulation, which the concurrent components interpret: an inductive invariant; a goroutine whose own
    steps lower a measure and are possible until it is done; an abstraction function that maps every step to a step of a specification.
  \<^item> Json_Text: JSON texts with their raw form, the scanner of encoding/json, string literals and UTF-8.
  \<^item> Rpc_Errors (errors.go): the error types as one datatype, their codes and texts, errors.Is.
  \<^item> Rpc_Message (json.go): messages, their predicates, replies, parsing, positional arguments, the codec.
  \<^item> Rpc_Service (service.go): the registry, signature checks, calls; the locale method_table for the registry and the server.
  \<^item> Rpc_Notifier (subscription.go, handler.go): subscription ids, Notifier, the table of server subscriptions.
  \<^item> Rpc_Handler (handler.go): calls, subscriptions, middlewares, single calls with their timer.
  \<^item> Rpc_Batch (handler.go): the goroutine of a batch, its timer and its buffer as a step relation.
  \<^item> Rpc_ClientSub (subscription.go): the goroutine of a client subscription beside its dispatcher and its user.
  \<^item> Rpc_Requests (handler.go, client.go): pending requests, responses, cancellation; the locale pending_table is the
    contract between the table of requests and the dispatch loop.
  \<^item> Rpc_Options (client_opt.go, context_headers.go), Go_Url, Rpc_Encoding (the text of messages), Rpc_HttpConn (the client side of http.go).
  \<^item> Rpc_Client (client.go): messages, calls, batch calls, write and reconnect, the dispatch loop.
  \<^item> Rpc_Pending (client.go, handler.go): the fate of a request as a specification, implemented by the dispatch loop.
  \<^item> Rpc_Calls (handler.go, client.go): a connection with its call goroutines, the wait group of the handler, handler.close and the calls that
    methods make over the connection they were called on; Rpc_Reverse: such calls under way when the client is closed.
  \<^item> Rpc_Types (types.go): block numbers and hashes.
  \<^item> Rpc_Server (server.go, ipc.go, ipc_unix.go, endpoints.go): codecs, ServeCodec, Stop, listeners, over the connections of Rpc_Calls.
  \<^item> Rpc_ReadLoop (client.go): the read goroutine, drainRead and Close.
  \<^item> Go_Mime, Rpc_HttpServer (the server side of http.go, serveSingleRequest), Rpc_Websocket (websocket.go), Rpc_Dial (the Dial functions).
  \<^item> Rpc_Stream (json.go, client.go, subscription.go): a connection as a stream of texts, and a subscription from one end to the other.
  \<^item> This theory: calls from one end to the other.

  \<^bold>\<open>How state and effects are modelled.\<close> A struct is a record with the fields of the source, a table keyed by pointer is one keyed by index. Sequential
  code is a function on the state; fallible code returns a sum with the error on the left; what panics or
  blocks for ever is \<^const>\<open>None\<close> or a value of its own. Goroutines are step relations whose interleavings are all considered: for
  batches (\<open>batch_step\<close>), client subscriptions (\<open>csub_step\<close>), the dispatch loop (\<open>disp_step\<close>), the same with the call
  goroutines of a connection (\<open>conn_step\<close>), the read loop (\<open>loop_step\<close>), the server
  (\<open>srv_step\<close>) and the ping loop (\<open>ws_step\<close>). A timer is a step that may happen at any time, or a schedule: off, before the call, after the
  call. Functions of users (methods, middlewares, authentication) and the network (outcomes of writes, dials and HTTP exchanges) are parameters. The
  id counter is a 32-bit word, block numbers are 64-bit words.

  \<^bold>\<open>What is shown.\<close>

  \<^item> End to end: a call over a connection or over HTTP returns what the one response to it says; the notifications of a subscription arrive in the channel
    of the user as they were sent; unsubscribing removes it on the server.
  \<^item> Handler: every call is answered exactly once with its id, batches in order and at most once, with a bound on their size; subscription ids are sent before
    notifications, which keep their order; a close cancels everything exactly once.
  \<^item> Client: the dispatch loop never blocks on an operation and never closes a channel twice, a request is resolved at most once and only with its own response, responses reach the operation that
    waits for them, batch elements get the response with their id, subscriptions implement bounded FIFO queues.
  \<^item> Ends: batches, Unsubscribe, drainRead, Close, ServeCodec and the ping loop come to their end. The wait of handler.close for the calls of a connection
    ends exactly if none of them is blocked in a reverse call; after Close none is, after a read error one can be, and then ServeCodec never returns.
  \<^item> Texts: round trips of messages, batches, block numbers and hashes; validation of requests, origins, arguments and signatures.
  \<^item> Flaws: theorems of kind error exhibit runs in which the code does not do what it is meant to do.

  \<^bold>\<open>Bounds.\<close> There is no fuel: recursions are structural or have a termination proof, and unbounded loops are step relations with
  a measure.

  \<^bold>\<open>Not modelled.\<close> Logging, and metrics apart from the three request counters (metrics.go). Named pipes of Windows and the stubs for
  platforms without IPC (ipc_windows.go, ipc_js.go, ipc_wasip1.go). Letters are lowered in ASCII only. Deadlines and durations of timers, beyond the computation of
  a request timeout. Failing writes to an HTTP ResponseWriter. The contents of messages about the type of a Go value in errors of encoding/json. The interplay of many
  senders that wait for the lock of the dispatch loop is the order in which they get it. Reverse calls on a client that reconnects.
\<close>

section \<open>A call from one end to the other\<close>

text \<open>C1. A call over a connection: the text of the client's message is read by the server as the same message and
  starts exactly one call, the handler answers it with one response that has the id of the request, and
  when the text of that response reaches the client, the operation of the call is resolved and CallContext returns
  what the response says.\<close>

theorem call_end_to_end:
  assumes "newMessage ut meth args c = (Inr msg, c')" and "meth \<noteq> []" and "msg_ok ut msg" and "encode_message ut msg = Inr req"
    and "cfg_ok cfg" and "hinv h" and "rinv sr"
    and "rinv s" and "rq < length (ops s)" and "ops s ! rq = new_requestOp [raw_string (ID msg)] None"
  shows "\<exists>j sr' resp cp' h'.
    json_parse (req @ [CHR 0x0A]) = Some (j, [CHR 0x0A]) \<and> readBatch (Inr j) = Inr ([msg], False) \<and>
    handleMsg msg sr = Some ([ProcCall msg], sr') \<and>
    handleCallMsg cfg new_callProc msg h = Some (Some resp, cp', h') \<and> isResponse resp \<and> ID resp = ID msg \<and>
    (\<forall>rep. msg_ok ut resp \<longrightarrow> encode_message ut resp = Inr rep \<longrightarrow>
       (\<exists>j' s'. json_parse (rep @ [CHR 0x0A]) = Some (j', [CHR 0x0A]) \<and> readBatch (Inr j') = Inr ([received ut resp], False) \<and>
          dispatch_read ccfg [received ut resp] False (addRequestOp rq s) = Some ([], s') \<and>
          CallContext ut (\<lambda>x w. Ret (None, ops s' ! rq)) None None meth args c =
            (call_outcome ut None [received ut resp], c')))"
proof -
  have d: "delim [CHR 0x0A]" by code_simp
  have m: "Error msg = None" "hasValidID msg" "Method msg = meth" "hasValidVersion msg"
    using assms(1) newMessage_spec [of ut meth args c] by auto
  then have call: "isCall msg" "\<not> isNotification msg" "is_call_msg msg"
    using assms(2) by (simp_all add: isCall_def is_call_msg_def isResponse_def isNotification_def hasValidID_def raw_string_def split: option.splits)
  have req: "json_parse (req @ [CHR 0x0A]) = Some (message_tree ut msg, [CHR 0x0A])" "readBatch (Inr (message_tree ut msg)) = Inr ([msg], False)"
    using encoded_message_read [OF assms(3,4) d] m(1) by simp_all
  obtain sr' where sr: "handleMsg msg sr = Some ([ProcCall msg], sr')" using handleMsg_call [OF assms(7) call(3)] by blast
  obtain ans cp' h' where a: "handleCallMsg cfg new_callProc msg h = Some (ans, cp', h')" "msg_answered msg ans"
    using handleCallMsg_ok [OF assms(5,6) cp_ok_new, of msg] by blast
  then obtain resp where resp: "ans = Some resp" "isResponse resp" "ID resp = ID msg"
    using call(2) m(2) by (auto simp: msg_answered_def)
  have answer: "\<exists>j' s'. json_parse (rep @ [CHR 0x0A]) = Some (j', [CHR 0x0A]) \<and> readBatch (Inr j') = Inr ([received ut resp], False) \<and>
      dispatch_read ccfg [received ut resp] False (addRequestOp rq s) = Some ([], s') \<and>
      CallContext ut (\<lambda>x w. Ret (None, ops s' ! rq)) None None meth args c = (call_outcome ut None [received ut resp], c')"
    if "msg_ok ut resp" "encode_message ut resp = Inr rep" for rep
  proof -
    have "isResponse (received ut resp)" "ID (received ut resp) = ID msg" using resp by simp_all
    from call_resolved [OF assms(1,8-10) this, of None] obtain s' where
      "handleMsg (received ut resp) (addRequestOp rq s) = Some ([], s')"
      "CallContext ut (\<lambda>x w. Ret (None, ops s' ! rq)) None None meth args c = (call_outcome ut None [received ut resp], c')" by auto
    then show ?thesis using encoded_message_read [OF that d] by (simp add: dispatch_read_def)
  qed
  show ?thesis using req sr a(1) resp answer by blast
qed

text \<open>The first call of a fresh client.\<close>

lemma first_call:
  obtains msg c' req where "newMessage no_types ''calc_add'' None demo_client = (Inr msg, c')" "msg_ok no_types msg"
    "encode_message no_types msg = Inr req" "length req \<le> 100"
proof -
  define msg where "msg = new_jsonrpcMessage\<lparr>Version := vsn, ID := Some (JNum ''1''), Method := ''calc_add''\<rparr>"
  have "dec_digits 1 = ''1''" by code_simp
  then obtain c' where m: "newMessage no_types ''calc_add'' None demo_client = (Inr msg, c')"
    by (simp add: newMessage_def nextID_def Let_def demo_client_def initClient_def msg_def)
  have "compacted (JNum ''1'')" "ascii vsn" "ascii ''calc_add''" by code_simp+
  then have ok: "msg_ok no_types msg" by (simp add: msg_ok_def msg_def new_jsonrpcMessage_def)
  have "case encode_message no_types msg of Inr req \<Rightarrow> length req \<le> 100 | Inl _ \<Rightarrow> False" unfolding msg_def by code_simp
  then obtain req where "encode_message no_types msg = Inr req" "length req \<le> 100" by (auto split: sum.splits)
  with m ok show thesis by (rule that)
qed

theorem call_end_to_end_witness:
  "\<exists>msg c' req j sr' resp cp' h'. newMessage no_types ''calc_add'' None demo_client = (Inr msg, c') \<and> encode_message no_types msg = Inr req \<and>
     json_parse (req @ [CHR 0x0A]) = Some (j, [CHR 0x0A]) \<and> readBatch (Inr j) = Inr ([msg], False) \<and>
     handleMsg msg (new_reqst []) = Some ([ProcCall msg], sr') \<and>
     handleCallMsg demo_cfg new_callProc msg demo_state = Some (Some resp, cp', h') \<and> isResponse resp \<and> ID resp = ID msg"
proof -
  obtain msg c' req where m: "newMessage no_types ''calc_add'' None demo_client = (Inr msg, c')" "msg_ok no_types msg"
    "encode_message no_types msg = Inr req" by (rule first_call)
  let ?s = "new_reqst [new_requestOp [raw_string (ID msg)] None]"
  have s: "0 < length (ops ?s)" "ops ?s ! 0 = new_requestOp [raw_string (ID msg)] None" by (simp_all add: new_reqst_def)
  have ne: "''calc_add'' \<noteq> []" by simp
  from call_end_to_end [OF m(1) ne m(2,3) demo_ok(1,2) rinv_new rinv_new s] m show ?thesis by blast
qed

section \<open>A call over HTTP\<close>

text \<open>The request that doRequest makes, as the HTTP server of package net/http hands it to ServeHTTP, and the response to it as
  the HTTP client sees it. A handler that sets no status answers with 200.\<close>

definition post_request :: "http_header \<Rightarrow> string \<Rightarrow> http_request" where
  "post_request header payload =
     \<lparr>rq_Method = ''POST'', rq_ContentLength = int (length payload), rq_RawQuery = '''', rq_Header = header, rq_RemoteAddr = '''',
      rq_Proto = ''HTTP/1.1'', rq_Host = '''', rq_Body = Inr payload\<rparr>"

definition http_reply :: "http_writer \<Rightarrow> http_response" where
  "http_reply w = \<lparr>StatusCode = (case hw_status w of None \<Rightarrow> 200 | Some code \<Rightarrow> code), Status = '''', resp_body = hw_body w, resp_readErr = False\<rparr>"

text \<open>The request of a client with the default configuration is served, with the message of the client as its input.\<close>

lemma default_request_served:
  assumes "msg_ok ut msg" and "encode_message ut msg = Inr payload" and "Error msg = None" and "int (length payload) \<le> sv_httpBodyLimit s"
    and "request_headers (newClientTransportHTTP endpoint new_clientConfig) None = Inr header"
  shows "validateRequest s (post_request header payload) = (0, None)"
    and "readBatch (http_decode s (post_request header payload)) = Inr ([msg], False)"
proof -
  let ?hc = "newClientTransportHTTP endpoint new_clientConfig"
  have wf: "wf_map (cfg_headers new_clientConfig)" by (simp add: cfg_headers_def new_clientConfig_def)
  have "header = hc_headers ?hc"
    using assms(5) by (simp add: request_headers_def headersFromContext_def setHeaders_def newClientTransportHTTP_def new_clientConfig_def Let_def)
  then have "header_Get header ''content-type'' = contentType"
    using transport_headers_get [OF wf, of endpoint "''Content-Type''"]
    by (simp add: header_Get_def canonical_literals cfg_headers_def new_clientConfig_def)
  then show "validateRequest s (post_request header payload) = (0, None)"
    using assms(4) ParseMediaType_json by (simp add: validateRequest_def post_request_def acceptedContentTypes_def)
  have "delim []" by (simp add: delim_def)
  note r = encoded_message_read [OF assms(1,2) this]
  have "take (nat (sv_httpBodyLimit s)) payload = payload" using assms(4) by simp
  then show "readBatch (http_decode s (post_request header payload)) = Inr ([msg], False)"
    using r assms(3) by (simp add: http_decode_def post_request_def decoder_Decode_def)
qed

text \<open>The text that the encoder writes for one message is read by the client as that message.\<close>

lemma written_message_decoded:
  assumes "msg_ok ut r" and "encode_message ut r = Inr t"
  shows "decoder_Decode (hw_body (snd (http_encoder ut (WMsg r) e (w\<lparr>hw_body := []\<rparr>)))) = Inr (message_tree ut r)"
proof -
  have d: "delim []" "delim [CHR 0x0A]" by code_simp+
  show ?thesis
    using encoded_message_read(1) [OF assms d(1)] encoded_message_read(1) [OF assms d(2)] assms(2)
    by (simp add: http_encoder_def encode_wire_def decoder_Decode_def)
qed




end
